(* ===== verification/Go_Prelude.thy ===== *)
theory Go_Prelude
  imports Main "HOL-Library.Char_ord" "HOL-Library.List_Lexorder" "HOL-Library.Sublist"
begin

text \<open>
  The part of the Go language and of its standard library that the collector's sources use,
  and the generic lemmas the component theories share.

  \<^item> A Go \<^verbatim>\<open>string\<close> or \<^verbatim>\<open>[]byte\<close> is a \<^typ>\<open>string\<close>: a list of 8-bit characters, so
    \<^const>\<open>length\<close> is Go's \<^verbatim>\<open>len\<close> and the lexicographic order is Go's string order.
  \<^item> A Go \<^verbatim>\<open>int\<close>, \<^verbatim>\<open>int64\<close> or \<^verbatim>\<open>time.Duration\<close> (nanoseconds) is an \<^typ>\<open>int\<close>; where an
    operation can leave the 64-bit range the model applies \<open>wrap64\<close>, Go's two's complement
    wrap-around.
  \<^item> \<^verbatim>\<open>strings.TrimSpace\<close>, \<^verbatim>\<open>strings.Split\<close>, \<^verbatim>\<open>strings.Join\<close>, \<^verbatim>\<open>strings.EqualFold\<close>,
    \<^verbatim>\<open>strconv.Itoa\<close>, \<^verbatim>\<open>strconv.Atoi\<close> and \<^verbatim>\<open>strconv.ParseBool\<close> are executable functions here.
  \<^item> \<open>effect\<close> is the trace a component leaves on the process: the counter updates and the log
    lines. Every component of the model returns the list of effects it makes, in order.
\<close>

named_theorems go_string \<open>facts on the Go string functions\<close>
named_theorems effect_simps \<open>facts on effect traces\<close>

section \<open>Integers\<close>

definition wrap64 :: "int \<Rightarrow> int" where
  "wrap64 x = (x + 2 ^ 63) mod 2 ^ 64 - 2 ^ 63"

definition in_int64 :: "int \<Rightarrow> bool" where
  "in_int64 x \<longleftrightarrow> - (2 ^ 63) \<le> x \<and> x < 2 ^ 63"

section \<open>Strings\<close>

text \<open>
  \<^verbatim>\<open>strings.TrimSpace\<close> trims the runes for which \<^verbatim>\<open>unicode.IsSpace\<close> holds. These are their
  UTF-8 encodings. No encoding is a prefix or a suffix of another one, and a rune is decoded
  at the front or at the back of a string exactly when its encoding stands there.
\<close>

definition space_seqs :: "string list" where
  "space_seqs =
    [[CHR 0x09], [CHR 0x0A], [CHR 0x0B], [CHR 0x0C], [CHR 0x0D], [CHR 0x20],
     [CHR 0xC2, CHR 0x85], [CHR 0xC2, CHR 0xA0],
     [CHR 0xE1, CHR 0x9A, CHR 0x80],
     [CHR 0xE2, CHR 0x80, CHR 0x80], [CHR 0xE2, CHR 0x80, CHR 0x81],
     [CHR 0xE2, CHR 0x80, CHR 0x82], [CHR 0xE2, CHR 0x80, CHR 0x83],
     [CHR 0xE2, CHR 0x80, CHR 0x84], [CHR 0xE2, CHR 0x80, CHR 0x85],
     [CHR 0xE2, CHR 0x80, CHR 0x86], [CHR 0xE2, CHR 0x80, CHR 0x87],
     [CHR 0xE2, CHR 0x80, CHR 0x88], [CHR 0xE2, CHR 0x80, CHR 0x89],
     [CHR 0xE2, CHR 0x80, CHR 0x8A], [CHR 0xE2, CHR 0x80, CHR 0xA8],
     [CHR 0xE2, CHR 0x80, CHR 0xA9], [CHR 0xE2, CHR 0x80, CHR 0xAF],
     [CHR 0xE2, CHR 0x81, CHR 0x9F], [CHR 0xE3, CHR 0x80, CHR 0x80]]"

fun drop_prefix :: "'a list \<Rightarrow> 'a list \<Rightarrow> 'a list option" where
  "drop_prefix [] s = Some s"
| "drop_prefix (p # ps) [] = None"
| "drop_prefix (p # ps) (c # cs) = (if p = c then drop_prefix ps cs else None)"

fun strip_one :: "'a list list \<Rightarrow> 'a list \<Rightarrow> 'a list option" where
  "strip_one [] s = None"
| "strip_one (q # qs) s =
     (case drop_prefix q s of Some r \<Rightarrow> Some r | None \<Rightarrow> strip_one qs s)"

function trim_seqs :: "'a list list \<Rightarrow> 'a list \<Rightarrow> 'a list" where
  "trim_seqs seqs s =
     (case strip_one seqs s of
        None \<Rightarrow> s
      | Some r \<Rightarrow> if length r < length s then trim_seqs seqs r else s)"
  by pat_completeness auto
termination
  by (relation "measure (\<lambda>(seqs, s). length s)") auto

declare trim_seqs.simps [simp del]

definition trim_left :: "string \<Rightarrow> string" where
  "trim_left s = trim_seqs space_seqs s"

definition trim_right :: "string \<Rightarrow> string" where
  "trim_right s = rev (trim_seqs (map rev space_seqs) (rev s))"

definition trim_space :: "string \<Rightarrow> string" where
  "trim_space s = trim_right (trim_left s)"

text \<open>\<^verbatim>\<open>strings.Split\<close> with a separator of one byte, and \<^verbatim>\<open>strings.Join\<close>.\<close>

fun split_on :: "char \<Rightarrow> string \<Rightarrow> string list" where
  "split_on c [] = [[]]"
| "split_on c (x # xs) =
     (if x = c then [] # split_on c xs
      else case split_on c xs of [] \<Rightarrow> [[x]] | y # ys \<Rightarrow> (x # y) # ys)"

fun join :: "string \<Rightarrow> string list \<Rightarrow> string" where
  "join sep [] = []"
| "join sep [x] = x"
| "join sep (x # y # ys) = x @ sep @ join sep (y # ys)"

text \<open>
  ASCII case folding. \<^verbatim>\<open>strings.EqualFold\<close> folds Unicode, but the only runes outside ASCII
  that fold to an ASCII letter fold to \<^verbatim>\<open>k\<close> or \<^verbatim>\<open>s\<close>, so against the literals the sources use
  (\<^verbatim>\<open>"Bearer "\<close>, \<^verbatim>\<open>"identity"\<close>) the two agree.
\<close>

definition lower_char :: "char \<Rightarrow> char" where
  "lower_char c =
     (if 65 \<le> (of_char c :: nat) \<and> (of_char c :: nat) \<le> 90 then char_of ((of_char c :: nat) + 32) else c)"

definition equal_fold :: "string \<Rightarrow> string \<Rightarrow> bool" where
  "equal_fold s t \<longleftrightarrow> map lower_char s = map lower_char t"

definition has_prefix :: "string \<Rightarrow> string \<Rightarrow> bool" where
  "has_prefix s p \<longleftrightarrow> drop_prefix p s \<noteq> None"

text \<open>\<^verbatim>\<open>strings.TrimRight(s, cutset)\<close> for a cutset of one byte, \<^verbatim>\<open>strings.TrimSuffix\<close>, \<^verbatim>\<open>bytes.TrimPrefix\<close>.\<close>

definition trim_right_byte :: "char \<Rightarrow> string \<Rightarrow> string" where
  "trim_right_byte c s = rev (dropWhile (\<lambda>x. x = c) (rev s))"

definition trim_suffix :: "string \<Rightarrow> string \<Rightarrow> string" where
  "trim_suffix p s = (case drop_prefix (rev p) (rev s) of None \<Rightarrow> s | Some r \<Rightarrow> rev r)"

definition trim_prefix :: "string \<Rightarrow> string \<Rightarrow> string" where
  "trim_prefix p s = (case drop_prefix p s of None \<Rightarrow> s | Some r \<Rightarrow> r)"

section \<open>Conversions\<close>

definition digit_char :: "nat \<Rightarrow> char" where
  "digit_char d = ''0123456789'' ! d"

definition is_digit :: "char \<Rightarrow> bool" where
  "is_digit c \<longleftrightarrow> 48 \<le> (of_char c :: nat) \<and> (of_char c :: nat) \<le> 57"

definition digit_val :: "char \<Rightarrow> nat" where
  "digit_val c = of_char c - 48"

fun utoa :: "nat \<Rightarrow> string" where
  "utoa n = (if n < 10 then [digit_char n] else utoa (n div 10) @ [digit_char (n mod 10)])"

declare utoa.simps [simp del]

definition itoa :: "int \<Rightarrow> string" where
  "itoa i = (if i < 0 then CHR ''-'' # utoa (nat (- i)) else utoa (nat i))"

definition digits_val :: "string \<Rightarrow> nat" where
  "digits_val ds = foldl (\<lambda>n c. 10 * n + digit_val c) 0 ds"

definition parse_digits :: "string \<Rightarrow> nat option" where
  "parse_digits ds = (if ds \<noteq> [] \<and> list_all is_digit ds then Some (digits_val ds) else None)"

text \<open>\<^verbatim>\<open>strconv.Atoi\<close>: an optional sign, decimal digits, a value in the range of \<^verbatim>\<open>int\<close>.\<close>

definition atoi :: "string \<Rightarrow> int option" where
  "atoi s =
     (case s of
        [] \<Rightarrow> None
      | c # ds \<Rightarrow>
          (let (neg, body) =
             (if c = CHR ''-'' then (True, ds) else if c = CHR ''+'' then (False, ds) else (False, s))
           in case parse_digits body of
                None \<Rightarrow> None
              | Some n \<Rightarrow>
                  (let v = (if neg then - int n else int n)
                   in if in_int64 v then Some v else None)))"

text \<open>\<^verbatim>\<open>strconv.ParseBool\<close>.\<close>

definition parse_bool :: "string \<Rightarrow> bool option" where
  "parse_bool s =
     (if s \<in> {''1'', ''t'', ''T'', ''TRUE'', ''true'', ''True''} then Some True
      else if s \<in> {''0'', ''f'', ''F'', ''FALSE'', ''false'', ''False''} then Some False
      else None)"

section \<open>Effects\<close>

text \<open>
  The counters of \<^verbatim>\<open>metrics/counters.go\<close>, by the name of the Go variable, and the two kinds of
  effect: \<open>Metric c n vs\<close> is \<^verbatim>\<open>c.Add(n, vs...)\<close>, \<open>LogLine\<close> one call of the \<^verbatim>\<open>slog\<close> logger with its
  level, message and attributes.
\<close>

datatype counter_id =
    IngestAccepted | IngestRejected | AuthRejected | TokenReloadFailures | RateLimited
  | ForwardDelivered | ForwardRetries | ForwardDropped | ForwardRefused
  | EnvironmentMismatch | NamespaceMismatch | RedactedLiterals

datatype log_level = LDebug | LInfo | LWarn | LError

text \<open>
  An error value: one that carries only its text, or a sentinel error wrapped with the service
  instance it is about, as \<^verbatim>\<open>fmt.Errorf("%w (%s)", sentinel, owner)\<close> makes it.
\<close>

datatype go_error =
    ErrText string
  | ErrOwner string "string \<times> string \<times> string"

datatype log_value = LStr string | LInt int | LBool bool | LErr go_error

datatype effect =
    Metric counter_id int "string list"
  | LogLine log_level string "(string \<times> log_value) list"

abbreviation Inc :: "counter_id \<Rightarrow> string list \<Rightarrow> effect" where
  "Inc c vs \<equiv> Metric c 1 vs"

text \<open>How often a trace counts one series.\<close>

fun metric_total :: "counter_id \<Rightarrow> string list \<Rightarrow> effect list \<Rightarrow> int" where
  "metric_total c vs [] = 0"
| "metric_total c vs (Metric d n ws # es) =
     (if d = c \<and> ws = vs then n else 0) + metric_total c vs es"
| "metric_total c vs (LogLine l m as # es) = metric_total c vs es"

fun is_metric :: "effect \<Rightarrow> bool" where
  "is_metric (Metric c n vs) = True"
| "is_metric (LogLine l m as) = False"

definition metrics_of :: "effect list \<Rightarrow> effect list" where
  "metrics_of es = filter is_metric es"

section \<open>Lemmas: integers\<close>

lemma wrap64_id [simp]: "in_int64 x \<Longrightarrow> wrap64 x = x"
  by (simp add: wrap64_def in_int64_def)

lemma in_int64_wrap64 [simp]: "in_int64 (wrap64 x)"
  by (simp add: wrap64_def in_int64_def)

lemma wrap64_wrap64_add [simp]: "wrap64 (wrap64 a + b) = wrap64 (a + b)"
  by (simp add: wrap64_def mod_simps algebra_simps)

lemma in_int64_nonneg: "0 \<le> x \<Longrightarrow> x \<le> y \<Longrightarrow> in_int64 y \<Longrightarrow> in_int64 x"
  by (simp add: in_int64_def)

lemma in_int64_sum: "0 \<le> x \<Longrightarrow> x < 2 ^ 62 \<Longrightarrow> 0 \<le> y \<Longrightarrow> y < 2 ^ 62 \<Longrightarrow> in_int64 (x + y)"
  by (simp add: in_int64_def)

section \<open>Lemmas: trimming\<close>

lemma drop_prefix_Some: "drop_prefix p s = Some r \<longleftrightarrow> s = p @ r"
  by (induction p s rule: drop_prefix.induct) auto

lemma drop_prefix_None: "drop_prefix p s = None \<longleftrightarrow> \<not> prefix p s"
  by (induction p s rule: drop_prefix.induct) auto

lemma strip_one_None: "strip_one qs s = None \<longleftrightarrow> (\<forall>q \<in> set qs. \<not> prefix q s)"
  by (induction qs) (auto simp: drop_prefix_None split: option.splits dest: drop_prefix_Some [THEN iffD1])

lemma strip_one_Some: "strip_one qs s = Some r \<Longrightarrow> \<exists>q \<in> set qs. s = q @ r"
  by (induction qs) (auto simp: drop_prefix_Some split: option.splits)

lemma trim_seqs_suffix: "\<exists>p. s = p @ trim_seqs seqs s"
proof (induction seqs s rule: trim_seqs.induct)
  case (1 seqs s)
  show ?case
  proof (cases "strip_one seqs s")
    case None
    then show ?thesis by (simp add: trim_seqs.simps [of seqs s])
  next
    case (Some r)
    obtain q where q: "s = q @ r" using strip_one_Some [OF Some] by blast
    show ?thesis
    proof (cases "length r < length s")
      case True
      with "1.IH" Some obtain p where "r = p @ trim_seqs seqs r" by blast
      moreover have "trim_seqs seqs s = trim_seqs seqs r"
        using Some True by (simp add: trim_seqs.simps [of seqs s])
      ultimately have "s = (q @ p) @ trim_seqs seqs s"
        using q by (metis append_assoc)
      then show ?thesis by blast
    qed (simp add: Some trim_seqs.simps [of seqs s])
  qed
qed

lemma trim_seqs_stuck:
  assumes "[] \<notin> set seqs"
  shows "strip_one seqs (trim_seqs seqs s) = None"
  using assms
proof (induction seqs s rule: trim_seqs.induct)
  case (1 seqs s)
  show ?case
  proof (cases "strip_one seqs s")
    case (Some r)
    then obtain q where "q \<in> set seqs" "s = q @ r" using strip_one_Some by blast
    with "1.prems" have "length r < length s" by (cases q) auto
    with "1" Some show ?thesis by (simp add: trim_seqs.simps [of seqs s])
  qed (simp add: trim_seqs.simps [of seqs s])
qed

lemma trim_seqs_id: "strip_one seqs s = None \<Longrightarrow> trim_seqs seqs s = s"
  by (simp add: trim_seqs.simps)

lemma Nil_notin_space_seqs: "[] \<notin> set space_seqs" "[] \<notin> set (map rev space_seqs)"
  by (auto simp: space_seqs_def)

text \<open>A string that neither starts nor ends with a space is what \<open>trim_space\<close> leaves alone.\<close>

definition trimmed :: "string \<Rightarrow> bool" where
  "trimmed s \<longleftrightarrow> strip_one space_seqs s = None \<and> strip_one (map rev space_seqs) (rev s) = None"

lemma trim_space_trimmed [go_string]: "trimmed (trim_space s)"
proof -
  let ?l = "trim_left s"
  obtain p where p: "rev ?l = p @ trim_seqs (map rev space_seqs) (rev ?l)"
    using trim_seqs_suffix by blast
  then have pre: "prefix (trim_space s) ?l"
    unfolding trim_space_def trim_right_def
    by (metis prefixI rev_append rev_rev_ident)
  have "strip_one space_seqs ?l = None"
    by (simp add: trim_left_def trim_seqs_stuck Nil_notin_space_seqs)
  then have "strip_one space_seqs (trim_space s) = None"
    using pre by (auto simp: strip_one_None)
  moreover have "strip_one (map rev space_seqs) (rev (trim_space s)) = None"
    unfolding trim_space_def trim_right_def
    using trim_seqs_stuck [OF Nil_notin_space_seqs(2)] by simp
  ultimately show ?thesis by (simp add: trimmed_def)
qed

lemma trim_space_id [go_string]: "trimmed s \<Longrightarrow> trim_space s = s"
  by (simp add: trimmed_def trim_space_def trim_left_def trim_right_def trim_seqs_id)

lemma trim_space_idem [simp]: "trim_space (trim_space s) = trim_space s"
  by (rule trim_space_id [OF trim_space_trimmed])

lemma trim_space_infix: "\<exists>p q. s = p @ trim_space s @ q"
proof -
  obtain p where p: "s = p @ trim_left s"
    using trim_seqs_suffix unfolding trim_left_def by blast
  obtain q where "rev (trim_left s) = q @ trim_seqs (map rev space_seqs) (rev (trim_left s))"
    using trim_seqs_suffix by blast
  then have "trim_left s = trim_space s @ rev q"
    unfolding trim_space_def trim_right_def by (metis rev_append rev_rev_ident)
  with p show ?thesis by metis
qed

lemma set_trim_space: "set (trim_space s) \<subseteq> set s"
proof -
  obtain p q where eq: "s = p @ trim_space s @ q" using trim_space_infix by blast
  show ?thesis by (subst (2) eq) auto
qed

lemma trim_space_Nil [simp]: "trim_space [] = []"
  by (rule trim_space_id) (simp add: trimmed_def space_seqs_def)

section \<open>Lemmas: splitting and joining\<close>

lemma split_on_neq_Nil [simp]: "split_on c s \<noteq> []"
  by (induction s) (auto split: list.splits)

lemma split_on_append: "c \<notin> set p \<Longrightarrow> split_on c (p @ c # s) = p # split_on c s"
  by (induction p) auto

lemma split_on_notin: "c \<notin> set p \<Longrightarrow> split_on c p = [p]"
  by (induction p) auto

lemma split_on_parts: "p \<in> set (split_on c s) \<Longrightarrow> c \<notin> set p"
  by (induction s arbitrary: p) (auto split: list.splits if_splits)

lemma join_split_on [go_string]: "join [c] (split_on c s) = s"
proof (induction s)
  case (Cons x xs)
  then show ?case
    by (cases "split_on c xs") (auto split: list.splits, metis join.simps(2,3) list.exhaust append_Cons append_Nil)
qed simp

lemma split_on_join [go_string]:
  "ps \<noteq> [] \<Longrightarrow> \<forall>p \<in> set ps. c \<notin> set p \<Longrightarrow> split_on c (join [c] ps) = ps"
  by (induction "[c]" ps rule: join.induct) (auto simp: split_on_notin split_on_append)

lemma length_split_on: "length (split_on c s) = Suc (count_list s c)"
  by (induction s) (auto split: list.splits)

lemma count_list_join: "vs \<noteq> [] \<Longrightarrow> length vs \<le> Suc (count_list (join [c] vs) c)"
  by (induction "[c]" vs rule: join.induct) auto

lemma join_inject:
  assumes "length vs = length ws"
    and "\<forall>v \<in> set vs. c \<notin> set v" and "\<forall>w \<in> set ws. c \<notin> set w"
    and "join [c] vs = join [c] ws"
  shows "vs = ws"
proof (cases "vs = []")
  case False
  with assms(1) have "ws \<noteq> []" by auto
  with False assms show ?thesis by (metis split_on_join)
qed (use assms in simp)

section \<open>Lemmas: numbers and their decimal strings\<close>

lemma digits_val_snoc: "digits_val (ds @ [c]) = 10 * digits_val ds + digit_val c"
  by (simp add: digits_val_def)

lemma digit_char_props: "d < 10 \<Longrightarrow> is_digit (digit_char d) \<and> digit_val (digit_char d) = d"
proof -
  assume "d < 10"
  then have "d \<in> {0, 1, 2, 3, 4, 5, 6, 7, 8, 9}" by auto
  then show ?thesis by (auto simp: digit_char_def is_digit_def digit_val_def)
qed

lemma utoa_props: "utoa n \<noteq> [] \<and> list_all is_digit (utoa n) \<and> digits_val (utoa n) = n"
proof (induction n rule: utoa.induct)
  case (1 n)
  show ?case
  proof (cases "n < 10")
    case True
    then show ?thesis
      by (simp add: utoa.simps [of n] digit_char_props digits_val_def)
  next
    case False
    with "1.IH" show ?thesis
      by (simp add: utoa.simps [of n] digits_val_snoc digit_char_props)
  qed
qed

lemma parse_digits_utoa [simp]: "parse_digits (utoa n) = Some n"
  by (simp add: parse_digits_def utoa_props)

lemma is_digit_sign: "\<not> is_digit CHR ''-''" "\<not> is_digit CHR ''+''" "\<not> is_digit CHR '':''"
  by (simp_all add: is_digit_def)

lemma digit_in_utoa: "c \<in> set (utoa n) \<Longrightarrow> is_digit c"
  using utoa_props [of n] by (simp add: list_all_iff)

lemma atoi_itoa [go_string]: "in_int64 i \<Longrightarrow> atoi (itoa i) = Some i"
proof (cases "i < 0")
  case True
  assume "in_int64 i"
  with True show ?thesis by (simp add: atoi_def itoa_def)
next
  case False
  assume i: "in_int64 i"
  obtain c ds where u: "utoa (nat i) = c # ds"
    using utoa_props by (cases "utoa (nat i)") auto
  then have "is_digit c" using digit_in_utoa [of c "nat i"] by simp
  then have "c \<noteq> CHR ''-''" "c \<noteq> CHR ''+''" using is_digit_sign by auto
  with u False i parse_digits_utoa [of "nat i"] show ?thesis
    by (simp add: atoi_def itoa_def)
qed

lemma atoi_range: "atoi s = Some v \<Longrightarrow> in_int64 v"
  by (auto simp: atoi_def Let_def split: list.splits option.splits if_splits)

section \<open>Lemmas: lists\<close>

lemma length_filter_update:
  "i < length xs \<Longrightarrow>
   length (filter P (xs[i := y])) + (if P (xs ! i) then 1 else 0) =
   length (filter P xs) + (if P y then 1 else 0)"
proof (induction xs arbitrary: i)
  case (Cons x xs)
  then show ?case by (cases i) fastforce+
qed simp

text \<open>Replacing one element of a list moves a sum over the list by that element's share.\<close>

lemma sum_list_map_update:
  "i < length xs \<Longrightarrow> sum_list (map g (xs[i := y])) + g (xs ! i) = sum_list (map g xs) + (g y :: 'b :: comm_monoid_add)"
proof (induction xs arbitrary: i)
  case (Cons x xs)
  show ?case
  proof (cases i)
    case 0
    then show ?thesis by (simp add: ac_simps)
  next
    case (Suc k)
    with Cons.IH [of k] Cons.prems show ?thesis by (simp add: add.assoc)
  qed
qed simp

lemma take_butlast_le: "n \<le> length xs - 1 \<Longrightarrow> take n (butlast xs) = take n xs"
  by (simp add: butlast_conv_take min_def)

lemma list_all_update: "list_all P xs \<Longrightarrow> P y \<Longrightarrow> list_all P (xs[i := y])"
  using set_update_subset_insert [of xs i y] by (auto simp: list_all_iff)

lemma list_all_nthD: "list_all P xs \<Longrightarrow> i < length xs \<Longrightarrow> P (xs ! i)"
  by (simp add: list_all_length)

lemma sum_list_concat: "sum_list (concat xss) = sum_list (map sum_list xss)" for xss :: "nat list list"
  by (induction xss) auto

section \<open>Lemmas: effects\<close>

lemma metric_total_append [simp, effect_simps]:
  "metric_total c vs (es @ fs) = metric_total c vs es + metric_total c vs fs"
  by (induction c vs es rule: metric_total.induct) auto

lemma metrics_of_append [simp, effect_simps]: "metrics_of (es @ fs) = metrics_of es @ metrics_of fs"
  by (simp add: metrics_of_def)

lemma metrics_of_simps [simp, effect_simps]:
  "metrics_of [] = []"
  "metrics_of (Metric c n vs # es) = Metric c n vs # metrics_of es"
  "metrics_of (LogLine l m as # es) = metrics_of es"
  by (simp_all add: metrics_of_def)

end
