(* ===== verification/Payload.thy ===== *)
theory Payload
  imports Go_Prelude
begin

text \<open>
  The decoded protobuf messages, as the collector sees them. The schema's Go bindings are
  generated elsewhere, so a message is modelled the way \<^verbatim>\<open>protoreflect\<close> presents it: the populated
  fields by name, each a scalar, a message, a list or a map, and the bytes of the fields the
  bindings do not know. The sources read messages through getters, which are safe on a nil
  message and give the zero value for an absent field, and write them through setters.

  A request's message is decoded fresh and nothing else refers to it, so the in-place updates of
  the sources are functional updates here.
\<close>

section \<open>Messages\<close>

text \<open>
  \<^verbatim>\<open>ConditionPartKind\<close>, an open enum: a number the bindings have no name for stays a plain number.
\<close>

datatype part_kind =
    KIND_UNSPECIFIED | CODE | STRING_LITERAL | PLACEHOLDER | KIND_UNKNOWN int

datatype pbscalar = SStr string | SInt int | SBool bool | SKind part_kind

datatype pbmsg =
    PbMsg (pb_fields: "(string \<times> pbvalue) list") (pb_unknown: string)
and pbvalue =
    VScalar pbscalar
  | VMsg pbmsg
  | VScalars "pbscalar list"
  | VMsgs "pbmsg list"
  | VScalarMap "(pbscalar \<times> pbscalar) list"
  | VMsgMap "(pbscalar \<times> pbmsg) list"

definition field :: "string \<Rightarrow> pbmsg \<Rightarrow> pbvalue option" where
  "field f m = map_of (pb_fields m) f"

fun put_field :: "string \<Rightarrow> 'v \<Rightarrow> (string \<times> 'v) list \<Rightarrow> (string \<times> 'v) list" where
  "put_field f v [] = [(f, v)]"
| "put_field f v ((g, w) # fs) = (if g = f then (f, v) # fs else (g, w) # put_field f v fs)"

definition set_field :: "string \<Rightarrow> pbvalue \<Rightarrow> pbmsg \<Rightarrow> pbmsg" where
  "set_field f v m = PbMsg (put_field f v (pb_fields m)) (pb_unknown m)"

section \<open>Getters and setters\<close>

definition get_str :: "string \<Rightarrow> pbmsg option \<Rightarrow> string" where
  "get_str f mo =
     (case mo of
        None \<Rightarrow> []
      | Some m \<Rightarrow> (case field f m of Some (VScalar (SStr s)) \<Rightarrow> s | _ \<Rightarrow> []))"

definition get_int :: "string \<Rightarrow> pbmsg option \<Rightarrow> int" where
  "get_int f mo =
     (case mo of
        None \<Rightarrow> 0
      | Some m \<Rightarrow> (case field f m of Some (VScalar (SInt i)) \<Rightarrow> i | _ \<Rightarrow> 0))"

definition get_bool :: "string \<Rightarrow> pbmsg option \<Rightarrow> bool" where
  "get_bool f mo =
     (case mo of
        None \<Rightarrow> False
      | Some m \<Rightarrow> (case field f m of Some (VScalar (SBool b)) \<Rightarrow> b | _ \<Rightarrow> False))"

definition get_kind :: "string \<Rightarrow> pbmsg option \<Rightarrow> part_kind" where
  "get_kind f mo =
     (case mo of
        None \<Rightarrow> KIND_UNSPECIFIED
      | Some m \<Rightarrow> (case field f m of Some (VScalar (SKind k)) \<Rightarrow> k | _ \<Rightarrow> KIND_UNSPECIFIED))"

definition get_msg :: "string \<Rightarrow> pbmsg \<Rightarrow> pbmsg option" where
  "get_msg f m = (case field f m of Some (VMsg r) \<Rightarrow> Some r | _ \<Rightarrow> None)"

definition get_msgs :: "string \<Rightarrow> pbmsg \<Rightarrow> pbmsg list" where
  "get_msgs f m = (case field f m of Some (VMsgs ms) \<Rightarrow> ms | _ \<Rightarrow> [])"

text \<open>The length of a repeated field of any element type.\<close>

definition len_field :: "string \<Rightarrow> pbmsg \<Rightarrow> int" where
  "len_field f m =
     (case field f m of
        Some (VMsgs ms) \<Rightarrow> int (length ms)
      | Some (VScalars ss) \<Rightarrow> int (length ss)
      | _ \<Rightarrow> 0)"

definition set_str :: "string \<Rightarrow> string \<Rightarrow> pbmsg \<Rightarrow> pbmsg" where
  "set_str f s m = set_field f (VScalar (SStr s)) m"

definition GetResource :: "pbmsg \<Rightarrow> pbmsg option" where
  "GetResource m = get_msg ''resource'' m"

definition GetServiceNamespace :: "pbmsg option \<Rightarrow> string" where
  "GetServiceNamespace res = get_str ''service_namespace'' res"

definition GetServiceName :: "pbmsg option \<Rightarrow> string" where
  "GetServiceName res = get_str ''service_name'' res"

definition GetServiceInstanceId :: "pbmsg option \<Rightarrow> string" where
  "GetServiceInstanceId res = get_str ''service_instance_id'' res"

definition GetRunId :: "pbmsg option \<Rightarrow> string" where
  "GetRunId res = get_str ''run_id'' res"

definition GetEnvironment :: "pbmsg option \<Rightarrow> string" where
  "GetEnvironment res = get_str ''environment'' res"

definition GetTestRun :: "pbmsg option \<Rightarrow> bool" where
  "GetTestRun res = get_bool ''test_run'' res"

text \<open>
  An update of the resource a payload holds, in place: what a processor does through the pointer
  \<^verbatim>\<open>GetResource\<close> returns. A payload without a resource is left alone.
\<close>

definition with_resource :: "(pbmsg \<Rightarrow> pbmsg) \<Rightarrow> pbmsg \<Rightarrow> pbmsg" where
  "with_resource g m =
     (case GetResource m of None \<Rightarrow> m | Some r \<Rightarrow> set_field ''resource'' (VMsg (g r)) m)"

text \<open>
  The loop over the messages of a repeated field: each is updated in place, and the numbers the
  updates return are added up.
\<close>

definition upd_msgs :: "string \<Rightarrow> (pbmsg \<Rightarrow> pbmsg \<times> nat) \<Rightarrow> pbmsg \<Rightarrow> pbmsg \<times> nat" where
  "upd_msgs f g m =
     (case field f m of
        Some (VMsgs ms) \<Rightarrow>
          (set_field f (VMsgs (map (\<lambda>x. fst (g x)) ms)) m, sum_list (map (\<lambda>x. snd (g x)) ms))
      | _ \<Rightarrow> (m, 0))"

section \<open>Lemmas\<close>

lemma map_of_put_field: "map_of (put_field f v fs) k = (if k = f then Some v else map_of fs k)"
  by (induction f v fs rule: put_field.induct) auto

lemma put_field_put_field: "put_field f v (put_field f w fs) = put_field f v fs"
  by (induction f w fs rule: put_field.induct) auto

lemma field_set_field [simp]: "field k (set_field f v m) = (if k = f then Some v else field k m)"
  by (simp add: field_def set_field_def map_of_put_field)

lemma unknown_set_field [simp]: "pb_unknown (set_field f v m) = pb_unknown m"
  by (simp add: set_field_def)

lemma get_str_set_str [simp]:
  "get_str k (Some (set_str f s m)) = (if k = f then s else get_str k (Some m))"
  by (simp add: get_str_def set_str_def)

lemma GetResource_with_resource: "GetResource (with_resource g m) = map_option g (GetResource m)"
  by (simp add: with_resource_def GetResource_def get_msg_def split: option.splits)

lemma field_with_resource: "k \<noteq> ''resource'' \<Longrightarrow> field k (with_resource g m) = field k m"
  by (simp add: with_resource_def split: option.splits)

lemma set_field_set_field [simp]: "set_field f v (set_field f w m) = set_field f v m"
  by (simp add: set_field_def put_field_put_field)

lemma put_field_commute:
  "f \<noteq> g \<Longrightarrow> f \<in> fst ` set fs \<Longrightarrow> g \<in> fst ` set fs \<Longrightarrow>
   put_field f v (put_field g w fs) = put_field g w (put_field f v fs)"
  by (induction fs) (auto, force)

lemma set_field_commute:
  "f \<noteq> g \<Longrightarrow> field f m \<noteq> None \<Longrightarrow> field g m \<noteq> None \<Longrightarrow>
   set_field f v (set_field g w m) = set_field g w (set_field f v m)"
  by (auto simp: set_field_def field_def put_field_commute map_of_eq_None_iff)

lemma get_msgs_set_field [simp]:
  "get_msgs k (set_field f (VMsgs ms) m) = (if k = f then ms else get_msgs k m)"
  by (simp add: get_msgs_def)

lemma get_msgs_upd_msgs:
  "get_msgs k (fst (upd_msgs f g m)) =
     (if k = f then map (\<lambda>x. fst (g x)) (get_msgs f m) else get_msgs k m)"
  by (simp add: upd_msgs_def get_msgs_def split: option.splits pbvalue.splits)

lemma field_upd_msgs: "k \<noteq> f \<Longrightarrow> field k (fst (upd_msgs f g m)) = field k m"
  by (simp add: upd_msgs_def split: option.splits pbvalue.splits)

lemma upd_msgs_cong:
  "(\<And>x. x \<in> set (get_msgs f m) \<Longrightarrow> g x = g' x) \<Longrightarrow> upd_msgs f g m = upd_msgs f g' m"
  by (simp add: upd_msgs_def get_msgs_def cong: map_cong split: option.splits pbvalue.splits)

text \<open>Two passes over one repeated field are one pass with the updates composed.\<close>

lemma upd_msgs_upd_msgs:
  "upd_msgs f g (fst (upd_msgs f h m)) = upd_msgs f (\<lambda>x. g (fst (h x))) m"
  by (simp add: upd_msgs_def comp_def split: option.splits pbvalue.splits)

lemma upd_msgs_commute:
  assumes "f \<noteq> g"
  shows "fst (upd_msgs f a (fst (upd_msgs g b m))) = fst (upd_msgs g b (fst (upd_msgs f a m)))"
    and "snd (upd_msgs f a (fst (upd_msgs g b m))) = snd (upd_msgs f a m)"
  using assms
  by (auto simp: upd_msgs_def split: option.splits pbvalue.splits intro!: set_field_commute)

lemma snd_upd_msgs: "snd (upd_msgs f g m) = sum_list (map (\<lambda>x. snd (g x)) (get_msgs f m))"
  by (simp add: upd_msgs_def get_msgs_def split: option.splits pbvalue.splits)

lemmas resource_getters =
  GetServiceNamespace_def GetServiceName_def GetServiceInstanceId_def GetRunId_def GetEnvironment_def

end
