(* ===== verification/Http.thy ===== *)
theory Http
  imports Go_Prelude
begin

text \<open>
  The part of \<^verbatim>\<open>net/http\<close> and \<^verbatim>\<open>net\<close> the sources use: a request with its headers and the bytes its
  body yields, a response as the handler writes it, \<^verbatim>\<open>http.Error\<close>, header access, and
  \<^verbatim>\<open>net.SplitHostPort\<close>.

  \<open>req_data\<close> are the bytes the body reader yields; \<open>req_fails\<close> says that the reader then fails
  (the client went away) instead of reaching its end. Header names compare without regard to
  case, as the canonical form \<^verbatim>\<open>net/http\<close> stores makes them do.
\<close>

record request =
  req_method :: string
  req_path :: string
  req_headers :: "(string \<times> string) list"
  req_remote :: string
  req_data :: string
  req_fails :: bool

record response =
  resp_status :: int
  resp_headers :: "(string \<times> string) list"
  resp_body :: string

definition header_values :: "string \<Rightarrow> request \<Rightarrow> string list" where
  "header_values name r = map snd (filter (\<lambda>(k, v). equal_fold k name) (req_headers r))"

definition header_get :: "string \<Rightarrow> request \<Rightarrow> string" where
  "header_get name r = (case header_values name r of [] \<Rightarrow> [] | v # vs \<Rightarrow> v)"

definition write_header :: "int \<Rightarrow> (string \<times> string) list \<Rightarrow> response" where
  "write_header code hs = \<lparr>resp_status = code, resp_headers = hs, resp_body = []\<rparr>"

definition http_error :: "string \<Rightarrow> int \<Rightarrow> (string \<times> string) list \<Rightarrow> response" where
  "http_error msg code hs =
     \<lparr>resp_status = code,
      resp_headers = hs @ [(''Content-Type'', ''text/plain; charset=utf-8''), (''X-Content-Type-Options'', ''nosniff'')],
      resp_body = msg @ [CHR 0x0A]\<rparr>"

text \<open>
  What serving a request yields: the response written, if any, the effects, and the new state
  of whatever the handler guards.
\<close>

type_synonym 's served = "response option \<times> effect list \<times> 's"

type_synonym 's http_handler = "request \<Rightarrow> 's \<Rightarrow> 's served"

text \<open>
  \<^verbatim>\<open>net.SplitHostPort\<close>: splits at the last colon, with brackets around an IPv6 host. \<open>None\<close> stands
  for each of its errors (no port, too many colons, a bracket out of place).
\<close>

definition last_index :: "char \<Rightarrow> string \<Rightarrow> nat option" where
  "last_index c s =
     (if c \<in> set s then Some (length s - 1 - length (takeWhile (\<lambda>x. x \<noteq> c) (rev s))) else None)"

definition first_index :: "char \<Rightarrow> string \<Rightarrow> nat option" where
  "first_index c s = (if c \<in> set s then Some (length (takeWhile (\<lambda>x. x \<noteq> c) s)) else None)"

definition SplitHostPort :: "string \<Rightarrow> (string \<times> string) option" where
  "SplitHostPort hostport =
     (case last_index CHR '':'' hostport of
        None \<Rightarrow> None
      | Some i \<Rightarrow>
          (if hostport \<noteq> [] \<and> hd hostport = CHR ''['' then
             (case first_index CHR '']'' hostport of
                None \<Rightarrow> None
              | Some e \<Rightarrow>
                  (if e + 1 \<noteq> i then None
                   else if CHR ''['' \<in> set (drop 1 hostport) \<or> CHR '']'' \<in> set (drop (e + 1) hostport)
                   then None
                   else Some (take (e - 1) (drop 1 hostport), drop (i + 1) hostport)))
           else
             (let host = take i hostport in
              if CHR '':'' \<in> set host then None
              else if CHR ''['' \<in> set hostport \<or> CHR '']'' \<in> set hostport then None
              else Some (host, drop (i + 1) hostport))))"

definition JoinHostPort :: "string \<Rightarrow> string \<Rightarrow> string" where
  "JoinHostPort host port =
     (if CHR '':'' \<in> set host \<or> CHR ''%'' \<in> set host
      then ''['' @ host @ '']:'' @ port
      else host @ '':'' @ port)"

section \<open>Lemmas\<close>

lemma resp_status_simps [simp]:
  "resp_status (write_header c hs) = c" "resp_status (http_error m c hs) = c"
  by (simp_all add: write_header_def http_error_def)

lemma last_index_append:
  "c \<notin> set q \<Longrightarrow> last_index c (p @ c # q) = Some (length p)"
proof -
  assume "c \<notin> set q"
  then have "takeWhile (\<lambda>x. x \<noteq> c) (rev q @ c # rev p) = rev q"
    by (subst takeWhile_append2) auto
  then show ?thesis by (simp add: last_index_def)
qed

lemma first_index_append:
  "c \<notin> set p \<Longrightarrow> first_index c (p @ c # q) = Some (length p)"
proof -
  assume "c \<notin> set p"
  then have "takeWhile (\<lambda>x. x \<noteq> c) (p @ c # q) = p" by (subst takeWhile_append2) auto
  then show ?thesis by (simp add: first_index_def)
qed

text \<open>A host without brackets and a port without colons or brackets survive joining and splitting.\<close>

lemma SplitHostPort_JoinHostPort:
  assumes "CHR ''['' \<notin> set host" "CHR '']'' \<notin> set host"
    and "CHR '':'' \<notin> set port" "CHR ''['' \<notin> set port" "CHR '']'' \<notin> set port"
  shows "SplitHostPort (JoinHostPort host port) = Some (host, port)"
proof (cases "CHR '':'' \<in> set host \<or> CHR ''%'' \<in> set host")
  case True
  then have j: "JoinHostPort host port = (CHR ''['' # host @ [CHR '']'']) @ CHR '':'' # port"
    by (simp add: JoinHostPort_def)
  have last: "last_index CHR '':'' (JoinHostPort host port) = Some (length host + 2)"
    unfolding j using assms(3) by (subst last_index_append) simp_all
  have "first_index CHR '']'' ((CHR ''['' # host) @ CHR '']'' # CHR '':'' # port) =
      Some (length (CHR ''['' # host))"
    by (rule first_index_append) (use assms in simp)
  then have fst: "first_index CHR '']'' (JoinHostPort host port) = Some (length host + 1)"
    by (simp add: j)
  show ?thesis using assms by (simp add: SplitHostPort_def last fst) (simp add: j)
next
  case False
  then have j: "JoinHostPort host port = host @ CHR '':'' # port"
    by (simp add: JoinHostPort_def)
  have last: "last_index CHR '':'' (host @ CHR '':'' # port) = Some (length host)"
    using assms(3) by (rule last_index_append)
  have hd: "hd (host @ CHR '':'' # port) \<noteq> CHR ''[''"
    using assms by (cases host) auto
  show ?thesis using assms False hd by (simp add: SplitHostPort_def j last Let_def)
qed

section \<open>Guards\<close>

text \<open>A guard that is only there when it is configured: \<open>None\<close> leaves the next handler bare.\<close>

definition opt_guard :: "('s http_handler \<Rightarrow> ('g \<times> 's) http_handler) \<Rightarrow> 's http_handler \<Rightarrow> ('g option \<times> 's) http_handler" where
  "opt_guard guard nxt r s =
     (case s of
        (None, st) \<Rightarrow> (case nxt r st of (resp, es, st') \<Rightarrow> (resp, es, (None, st')))
      | (Some g, st) \<Rightarrow> (case guard nxt r (g, st) of (resp, es, (g', st')) \<Rightarrow> (resp, es, (Some g', st'))))"

text \<open>
  What the middlewares of the collector have in common: looking only at the request and at its own state,
  a guard either hands the request on and returns what the next handler does, or answers it itself with its
  own status and counts it once under its own counter, and the next handler never sees it.
\<close>

locale http_guard =
  fixes guard :: "'s http_handler \<Rightarrow> ('g \<times> 's) http_handler" and code :: int and ctr :: counter_id
  assumes decides:
    "\<exists>ok g' resp. resp_status resp = code \<and>
       (\<forall>nxt st. guard nxt r (g, st) =
          (if ok then (case nxt r st of (rs, es, st') \<Rightarrow> (rs, es, (g', st')))
           else (Some resp, [Inc ctr []], (g', st))))"
begin

lemma passed_or_rejected:
  assumes "guard nxt r (g, st) = (resp, es, (g', st'))"
  shows "nxt r st = (resp, es, st') \<or>
    (st' = st \<and> es = [Inc ctr []] \<and> map_option resp_status resp = Some code)"
proof -
  obtain ok g2 rs where d: "resp_status rs = code" "guard nxt r (g, st) =
      (if ok then (case nxt r st of (rs, es, st') \<Rightarrow> (rs, es, (g2, st'))) else (Some rs, [Inc ctr []], (g2, st)))"
    using decides [of r g] by blast
  show ?thesis using assms d by (cases "nxt r st") (auto split: if_splits)
qed

text \<open>Whatever the next handler keeps of its own state, it still keeps behind the guard.\<close>

lemma guard_keeps:
  assumes "guard nxt r (g, st) = (resp, es, (g', st'))" and "I st"
    and "\<And>resp es st'. nxt r st = (resp, es, st') \<Longrightarrow> I st'"
  shows "I st'"
  using passed_or_rejected [OF assms(1)] assms(2,3) by auto

text \<open>An optional guard is a guard.\<close>

lemma opt_guard_guard: "http_guard (opt_guard guard) code ctr"
proof
  fix r and g :: "'g option"
  show "\<exists>ok g' resp. resp_status resp = code \<and>
    (\<forall>nxt st. opt_guard guard nxt r (g, st) =
       (if ok then case nxt r st of (rs, es, st') \<Rightarrow> (rs, es, g', st') else (Some resp, [Inc ctr []], g', st)))"
  proof (cases g)
    case None
    then show ?thesis
      by (intro exI [of _ True] exI [of _ None] exI [of _ "write_header code []"]) (simp add: opt_guard_def)
  next
    case (Some g0)
    obtain ok g' resp where d: "resp_status resp = code" "\<And>nxt st. guard nxt r (g0, st) =
        (if ok then (case nxt r st of (rs, es, st') \<Rightarrow> (rs, es, (g', st'))) else (Some resp, [Inc ctr []], (g', st)))"
      using decides [of r g0] by blast
    show ?thesis
      by (intro exI [of _ ok] exI [of _ "Some g'"] exI [of _ resp])
        (auto simp: opt_guard_def Some d split: prod.splits)
  qed
qed

end

end
