(* ===== verification/Metrics.thy ===== *)
theory Metrics
  imports Go_Prelude "HOL-Library.Multiset"
begin

text \<open>
  The package \<^verbatim>\<open>metrics\<close> (\<^verbatim>\<open>metrics/metrics.go\<close>, \<^verbatim>\<open>metrics/counters.go\<close>): counters split by labels,
  the process-wide registry, and the Prometheus text rendering.

  A \<^verbatim>\<open>Counter\<close> is a record. Its map from series key to \<^verbatim>\<open>atomic.Int64\<close> is an association list with
  distinct keys, in creation order; nothing below depends on that order. A Go \<^verbatim>\<open>panic\<close> is a
  value of \<open>metrics_panic\<close>. The mutexes make each operation atomic, so each one is a function
  on the counter. \<open>run_effects\<close> replays a trace of effects on a registry: it is what ties the
  effects the components return to the counters.
\<close>

section \<open>Counters and the registry\<close>

record counter =
  c_name :: string
  c_help :: string
  c_labels :: "string list"
  c_series :: "(string \<times> int) list"

datatype metrics_panic =
    RegisteredTwice string
  | WrongLabels string nat nat
  | NoSuchCounter counter_id

type_synonym registry = "counter list"

definition NUL :: char where
  "NUL = CHR 0x00"

definition series_key :: "string list \<Rightarrow> string" where
  "series_key values = join [NUL] values"

text \<open>\<^verbatim>\<open>get\<close> creates the series at 0 when it is missing.\<close>

definition get_series :: "counter \<Rightarrow> string list \<Rightarrow> counter" where
  "get_series c values =
     (let key = series_key values in
      case map_of (c_series c) key of
        Some v \<Rightarrow> c
      | None \<Rightarrow> c\<lparr>c_series := c_series c @ [(key, 0)]\<rparr>)"

text \<open>\<^verbatim>\<open>newCounter\<close>: a counter without labels shows at 0 from creation.\<close>

definition new_counter :: "string \<Rightarrow> string \<Rightarrow> string list \<Rightarrow> counter" where
  "new_counter name help labels =
     (let c = \<lparr>c_name = name, c_help = help, c_labels = labels, c_series = []\<rparr>
      in if length labels = 0 then get_series c [] else c)"

text \<open>\<^verbatim>\<open>NewCounter\<close>: registers the counter, or panics on a repeated name.\<close>

definition NewCounter ::
  "string \<Rightarrow> string \<Rightarrow> string list \<Rightarrow> registry \<Rightarrow> metrics_panic + registry" where
  "NewCounter name help labels reg =
     (let c = new_counter name help labels in
      if list_ex (\<lambda>existing. c_name existing = name) reg then Inl (RegisteredTwice name)
      else Inr (reg @ [c]))"

definition bump :: "string \<Rightarrow> int \<Rightarrow> (string \<times> int) list \<Rightarrow> (string \<times> int) list" where
  "bump key n series = map (\<lambda>(k, v). if k = key then (k, wrap64 (v + n)) else (k, v)) series"

definition Add :: "int \<Rightarrow> string list \<Rightarrow> counter \<Rightarrow> metrics_panic + counter" where
  "Add n values c =
     (if length values \<noteq> length (c_labels c)
      then Inl (WrongLabels (c_name c) (length (c_labels c)) (length values))
      else (let c' = get_series c values
            in Inr (c'\<lparr>c_series := bump (series_key values) n (c_series c')\<rparr>)))"

definition Inc_counter :: "string list \<Rightarrow> counter \<Rightarrow> metrics_panic + counter" where
  "Inc_counter values c = Add 1 values c"

definition Value :: "string list \<Rightarrow> counter \<Rightarrow> metrics_panic + int" where
  "Value values c =
     (if length values \<noteq> length (c_labels c)
      then Inl (WrongLabels (c_name c) (length (c_labels c)) (length values))
      else Inr (case map_of (c_series c) (series_key values) of Some v \<Rightarrow> v | None \<Rightarrow> 0))"

section \<open>The collector's counters\<close>

fun counter_spec :: "counter_id \<Rightarrow> string \<times> string \<times> string list" where
  "counter_spec IngestAccepted = (''otherlode_collector_ingest_accepted_total'',
     ''Payloads decoded, validated, and handed to the sink.'', [''payload''])"
| "counter_spec IngestRejected = (''otherlode_collector_ingest_rejected_total'',
     ''Requests rejected before or by the sink.'', [''payload'', ''reason''])"
| "counter_spec AuthRejected = (''otherlode_collector_auth_rejected_total'',
     ''Requests refused for a missing or wrong bearer token.'', [])"
| "counter_spec TokenReloadFailures = (''otherlode_collector_token_reload_failures_total'',
     ''Token file re-reads that failed or found no usable token, so the last good value stayed.'',
     [''file''])"
| "counter_spec RateLimited = (''otherlode_collector_rate_limited_total'',
     ''Requests refused because the client'' @ [CHR 0x27] @ ''s rate limit was exceeded.'', [])"
| "counter_spec ForwardDelivered = (''otherlode_collector_forward_delivered_total'',
     ''Payloads the backend accepted.'', [''payload''])"
| "counter_spec ForwardRetries = (''otherlode_collector_forward_retries_total'',
     ''Delivery attempts made after a retryable failure.'', [''payload''])"
| "counter_spec ForwardDropped = (''otherlode_collector_forward_dropped_total'',
     ''Payloads discarded without a successful delivery.'', [''payload'', ''reason''])"
| "counter_spec ForwardRefused = (''otherlode_collector_forward_refused_total'',
     ''Payloads the forwarder did not take, answered 503 so the sender sends them again.'',
     [''payload'', ''reason''])"
| "counter_spec EnvironmentMismatch = (''otherlode_collector_environment_mismatch_total'',
     ''Payloads whose agent-set environment differs from the collector'' @ [CHR 0x27] @
     ''s configured one.'', [''payload''])"
| "counter_spec NamespaceMismatch = (''otherlode_collector_namespace_mismatch_total'',
     ''Payloads whose agent-set service namespace differs from the collector'' @ [CHR 0x27] @
     ''s configured one.'', [''payload''])"
| "counter_spec RedactedLiterals = (''otherlode_collector_redacted_literals_total'',
     ''String literal parts replaced by the redaction processor.'', [''payload''])"

definition counter_ids :: "counter_id list" where
  "counter_ids =
     [IngestAccepted, IngestRejected, AuthRejected, TokenReloadFailures, RateLimited,
      ForwardDelivered, ForwardRetries, ForwardDropped, ForwardRefused,
      EnvironmentMismatch, NamespaceMismatch, RedactedLiterals]"

fun register_all :: "counter_id list \<Rightarrow> registry \<Rightarrow> metrics_panic + registry" where
  "register_all [] reg = Inr reg"
| "register_all (i # is) reg =
     (case counter_spec i of (name, help, labels) \<Rightarrow>
        (case NewCounter name help labels reg of
           Inl p \<Rightarrow> Inl p
         | Inr reg' \<Rightarrow> register_all is reg'))"

text \<open>The registry after package initialisation.\<close>

definition init_registry :: "metrics_panic + registry" where
  "init_registry = register_all counter_ids []"

definition counter_name :: "counter_id \<Rightarrow> string" where
  "counter_name i = fst (counter_spec i)"

definition counter_labels :: "counter_id \<Rightarrow> string list" where
  "counter_labels i = snd (snd (counter_spec i))"

section \<open>Replaying effects\<close>

fun add_named :: "string \<Rightarrow> counter_id \<Rightarrow> int \<Rightarrow> string list \<Rightarrow> registry \<Rightarrow> metrics_panic + registry" where
  "add_named name i n vs [] = Inl (NoSuchCounter i)"
| "add_named name i n vs (c # cs) =
     (if c_name c = name
      then (case Add n vs c of Inl p \<Rightarrow> Inl p | Inr c' \<Rightarrow> Inr (c' # cs))
      else (case add_named name i n vs cs of Inl p \<Rightarrow> Inl p | Inr cs' \<Rightarrow> Inr (c # cs')))"

fun run_effects :: "effect list \<Rightarrow> registry \<Rightarrow> metrics_panic + registry" where
  "run_effects [] reg = Inr reg"
| "run_effects (Metric i n vs # es) reg =
     (case add_named (counter_name i) i n vs reg of Inl p \<Rightarrow> Inl p | Inr reg' \<Rightarrow> run_effects es reg')"
| "run_effects (LogLine l m as # es) reg = run_effects es reg"

text \<open>The count of one series as the registry holds it, 0 when the series does not exist.\<close>

definition series_count :: "registry \<Rightarrow> counter_id \<Rightarrow> string list \<Rightarrow> int" where
  "series_count reg i vs =
     (case find (\<lambda>c. c_name c = counter_name i) reg of
        None \<Rightarrow> 0
      | Some c \<Rightarrow> (case map_of (c_series c) (series_key vs) of Some v \<Rightarrow> v | None \<Rightarrow> 0))"

text \<open>
  What every component promises of its effects: a counter update carries as many label values
  as the counter has labels, and no label value holds a NUL byte.
\<close>

fun effect_ok :: "effect \<Rightarrow> bool" where
  "effect_ok (Metric i n vs) \<longleftrightarrow>
     length vs = length (counter_labels i) \<and> list_all (\<lambda>v. NUL \<notin> set v) vs"
| "effect_ok (LogLine l m as) \<longleftrightarrow> True"

abbreviation effects_ok :: "effect list \<Rightarrow> bool" where
  "effects_ok es \<equiv> list_all effect_ok es"

section \<open>Rendering\<close>

definition NL :: char where
  "NL = CHR 0x0A"

definition escape_help_char :: "char \<Rightarrow> string" where
  "escape_help_char c =
     (if c = CHR 0x5C then [CHR 0x5C, CHR 0x5C]
      else if c = NL then [CHR 0x5C, CHR ''n'']
      else [c])"

definition escapeHelp :: "string \<Rightarrow> string" where
  "escapeHelp s = concat (map escape_help_char s)"

definition escape_label_char :: "char \<Rightarrow> string" where
  "escape_label_char c =
     (if c = CHR 0x5C then [CHR 0x5C, CHR 0x5C]
      else if c = CHR 0x22 then [CHR 0x5C, CHR 0x22]
      else if c = NL then [CHR 0x5C, CHR ''n'']
      else [c])"

definition escapeLabelValue :: "string \<Rightarrow> string" where
  "escapeLabelValue s = concat (map escape_label_char s)"

definition render_label :: "string \<times> string \<Rightarrow> string" where
  "render_label lv = fst lv @ ''='' @ [CHR 0x22] @ escapeLabelValue (snd lv) @ [CHR 0x22]"

text \<open>One line per series. \<^verbatim>\<open>values[i]\<close> is in range for every key \<open>Add\<close> makes (see \<open>series_ok\<close>).\<close>

definition render_series :: "counter \<Rightarrow> string \<Rightarrow> string" where
  "render_series c k =
     (let values = split_on NUL k in
      c_name c @
      (if length (c_labels c) > 0
       then ''{'' @ join '','' (map render_label (zip (c_labels c) values)) @ ''}''
       else []) @
      '' '' @ itoa (case map_of (c_series c) k of Some v \<Rightarrow> v | None \<Rightarrow> 0) @ [NL])"

definition render :: "counter \<Rightarrow> string" where
  "render c =
     ''# HELP '' @ c_name c @ '' '' @ escapeHelp (c_help c) @ [NL] @
     ''# TYPE '' @ c_name c @ '' counter'' @ [NL] @
     concat (map (render_series c) (sort (map fst (c_series c))))"

definition Render :: "registry \<Rightarrow> string" where
  "Render reg = concat (map render (sort_key c_name reg))"

section \<open>Lemmas: counters\<close>

definition series_ok :: "counter \<Rightarrow> bool" where
  "series_ok c \<longleftrightarrow>
     distinct (map fst (c_series c)) \<and>
     list_all (\<lambda>(k, v). in_int64 v \<and> length (c_labels c) \<le> length (split_on NUL k)) (c_series c)"

text \<open>What \<open>Add\<close> does when the label count matches.\<close>

definition added :: "int \<Rightarrow> string list \<Rightarrow> counter \<Rightarrow> counter" where
  "added n vs c =
     (let c' = get_series c vs in c'\<lparr>c_series := bump (series_key vs) n (c_series c')\<rparr>)"

lemma Add_added: "length vs = length (c_labels c) \<Longrightarrow> Add n vs c = Inr (added n vs c)"
  by (simp add: Add_def added_def Let_def)

lemma added_frame [simp]: "c_name (added n vs c) = c_name c" "c_labels (added n vs c) = c_labels c"
  by (simp_all add: added_def get_series_def Let_def split: option.splits)

lemma map_of_bump: "map_of (bump key n s) k = map_option (\<lambda>v. if k = key then wrap64 (v + n) else v) (map_of s k)"
  unfolding bump_def by (induction s) auto

lemma fst_bump [simp]: "map fst (bump key n s) = map fst s"
  unfolding bump_def by (induction s) auto

definition count_of :: "counter \<Rightarrow> string list \<Rightarrow> int" where
  "count_of c vs = (case map_of (c_series c) (series_key vs) of Some v \<Rightarrow> v | None \<Rightarrow> 0)"

lemma count_of_added:
  "count_of (added n vs c) ws =
     (if series_key ws = series_key vs then wrap64 (count_of c ws + n) else count_of c ws)"
  by (auto simp: count_of_def added_def get_series_def Let_def map_of_bump map_add_def
      split: option.splits)

lemma key_parts: "length vs \<le> length (split_on NUL (series_key vs))"
  by (cases "vs = []") (simp_all add: series_key_def length_split_on count_list_join)

lemma series_ok_added: "series_ok c \<Longrightarrow> length vs = length (c_labels c) \<Longrightarrow> series_ok (added n vs c)"
proof -
  assume ok: "series_ok c" and len: "length vs = length (c_labels c)"
  have get: "series_ok (get_series c vs)"
  proof (cases "map_of (c_series c) (series_key vs)")
    case None
    then have "series_key vs \<notin> fst ` set (c_series c)" by (simp add: map_of_eq_None_iff)
    with ok len key_parts [of vs] None show ?thesis
      by (auto simp: series_ok_def get_series_def Let_def in_int64_def)
  qed (use ok in \<open>simp add: get_series_def Let_def\<close>)
  have labels: "c_labels (get_series c vs) = c_labels c"
    by (simp add: get_series_def Let_def split: option.splits)
  show ?thesis
    using get unfolding added_def Let_def series_ok_def
    by (auto simp: list_all_iff labels) (auto simp: bump_def labels split: if_splits)
qed

lemma count_of_in_int64: "series_ok c \<Longrightarrow> in_int64 (count_of c vs)"
  by (auto simp: count_of_def series_ok_def list_all_iff in_int64_def split: option.splits
      dest!: map_of_SomeD)

lemma series_key_inject:
  "length vs = length ws \<Longrightarrow> list_all (\<lambda>v. NUL \<notin> set v) vs \<Longrightarrow> list_all (\<lambda>v. NUL \<notin> set v) ws \<Longrightarrow>
   series_key vs = series_key ws \<Longrightarrow> vs = ws"
  unfolding series_key_def by (rule join_inject) (auto simp: list_all_iff)

lemma series_ok_new_counter: "series_ok (new_counter name help labels)"
  by (simp add: series_ok_def new_counter_def get_series_def Let_def in_int64_def)

section \<open>Lemmas: the registry\<close>

lemma counter_labels_simps [simp]:
  "counter_labels IngestAccepted = [''payload'']"
  "counter_labels IngestRejected = [''payload'', ''reason'']"
  "counter_labels AuthRejected = []"
  "counter_labels TokenReloadFailures = [''file'']"
  "counter_labels RateLimited = []"
  "counter_labels ForwardDelivered = [''payload'']"
  "counter_labels ForwardRetries = [''payload'']"
  "counter_labels ForwardDropped = [''payload'', ''reason'']"
  "counter_labels ForwardRefused = [''payload'', ''reason'']"
  "counter_labels EnvironmentMismatch = [''payload'']"
  "counter_labels NamespaceMismatch = [''payload'']"
  "counter_labels RedactedLiterals = [''payload'']"
  by (simp_all add: counter_labels_def)

definition registry_ok :: "registry \<Rightarrow> bool" where
  "registry_ok reg \<longleftrightarrow>
     map (\<lambda>c. (c_name c, c_labels c)) reg =
       map (\<lambda>i. (counter_name i, counter_labels i)) counter_ids \<and>
     list_all series_ok reg"

lemma set_counter_ids: "set counter_ids = UNIV"
proof
  show "UNIV \<subseteq> set counter_ids"
  proof
    fix i show "i \<in> set counter_ids" by (cases i) (simp_all add: counter_ids_def)
  qed
qed simp

lemma distinct_counter_names: "distinct (map counter_name counter_ids)"
  by code_simp

lemma counter_name_inject [simp]: "counter_name i = counter_name j \<longleftrightarrow> i = j"
  using distinct_counter_names by (auto simp: distinct_map set_counter_ids dest: injD)

lemma registry_ok_names:
  assumes "registry_ok reg"
  shows "distinct (map c_name reg)"
    and "\<exists>c \<in> set reg. c_name c = counter_name i \<and> c_labels c = counter_labels i"
proof -
  let ?f = "\<lambda>c. (c_name c, c_labels c)" and ?g = "\<lambda>i. (counter_name i, counter_labels i)"
  have eq: "map ?f reg = map ?g counter_ids" using assms by (simp add: registry_ok_def)
  then have "map fst (map ?f reg) = map fst (map ?g counter_ids)" by (rule arg_cong)
  then have "map c_name reg = map counter_name counter_ids"
    by (simp only: map_map comp_def fst_conv)
  then show "distinct (map c_name reg)"
    by (simp only: distinct_counter_names)
  have "?g i \<in> set (map ?g counter_ids)" by (simp add: set_counter_ids)
  then have "?g i \<in> set (map ?f reg)" using eq by metis
  then show "\<exists>c \<in> set reg. c_name c = counter_name i \<and> c_labels c = counter_labels i" by auto
qed

lemma registry_ok_labels:
  assumes "registry_ok reg" and "c \<in> set reg" and "c_name c = counter_name i"
  shows "c_labels c = counter_labels i"
proof -
  obtain d where d: "d \<in> set reg" "c_name d = counter_name i" "c_labels d = counter_labels i"
    using registry_ok_names(2) [OF assms(1)] by blast
  have "inj_on c_name (set reg)" using registry_ok_names(1) [OF assms(1)] by (simp add: distinct_map)
  then have "c = d" by (rule inj_onD) (simp_all add: assms d)
  with d show ?thesis by simp
qed

lemma map_upd_notin: "name \<notin> c_name ` set reg \<Longrightarrow> map (\<lambda>c. if c_name c = name then g c else c) reg = reg"
  by (induction reg) auto

lemma add_named_added:
  assumes "distinct (map c_name reg)" and "c \<in> set reg" and "c_name c = name"
    and "length vs = length (c_labels c)"
  shows "add_named name i n vs reg =
           Inr (map (\<lambda>c. if c_name c = name then added n vs c else c) reg)"
  using assms
proof (induction reg)
  case (Cons d reg)
  show ?case
  proof (cases "c_name d = name")
    case True
    with Cons.prems have "d = c" by (auto simp: image_iff)
    moreover have "name \<notin> c_name ` set reg" using Cons.prems True by auto
    ultimately show ?thesis
      using Cons.prems True by (simp add: Add_added map_upd_notin)
  next
    case False
    with Cons.prems have "c \<in> set reg" by auto
    with Cons False show ?thesis by auto
  qed
qed simp

lemma find_map_frame:
  "(\<And>c. c_name (f c) = c_name c) \<Longrightarrow>
   find (\<lambda>c. c_name c = name) (map f reg) = map_option f (find (\<lambda>c. c_name c = name) reg)"
  by (induction reg) auto

lemma found_named:
  "\<exists>c \<in> set reg. c_name c = name \<and> P c \<Longrightarrow> \<exists>d. find (\<lambda>c. c_name c = name) reg = Some d \<and> c_name d = name"
  by (induction reg) auto

lemma series_count_alt:
  "series_count reg i vs = (case find (\<lambda>c. c_name c = counter_name i) reg of None \<Rightarrow> 0 | Some c \<Rightarrow> count_of c vs)"
  by (simp add: series_count_def count_of_def split: option.splits)

lemma step_effect:
  assumes ok: "registry_ok reg" and eff: "effect_ok (Metric i n vs)"
  obtains reg' where "add_named (counter_name i) i n vs reg = Inr reg'" and "registry_ok reg'"
    and "\<And>j ws. length ws = length (counter_labels j) \<Longrightarrow> list_all (\<lambda>v. NUL \<notin> set v) ws \<Longrightarrow>
           series_count reg' j ws =
             (if j = i \<and> ws = vs then wrap64 (series_count reg j ws + n) else series_count reg j ws)"
proof -
  let ?f = "\<lambda>c. if c_name c = counter_name i then added n vs c else c"
  let ?reg' = "map ?f reg"
  obtain c where c: "c \<in> set reg" "c_name c = counter_name i" "c_labels c = counter_labels i"
    using registry_ok_names(2) [OF ok] by blast
  have add: "add_named (counter_name i) i n vs reg = Inr ?reg'"
    using add_named_added [OF registry_ok_names(1) [OF ok] c(1,2)] c(3) eff by simp
  have frame: "(\<lambda>c. (c_name (?f c), c_labels (?f c))) = (\<lambda>c. (c_name c, c_labels c))"
    by auto
  have "list_all series_ok ?reg'"
    using ok eff registry_ok_labels [OF ok]
    by (auto simp: list_all_iff registry_ok_def intro: series_ok_added)
  then have reg': "registry_ok ?reg'"
    using ok by (simp add: registry_ok_def comp_def frame)
  have "series_count ?reg' j ws =
          (if j = i \<and> ws = vs then wrap64 (series_count reg j ws + n) else series_count reg j ws)"
    if ws: "length ws = length (counter_labels j)" "list_all (\<lambda>v. NUL \<notin> set v) ws" for j ws
  proof -
    obtain d where d: "find (\<lambda>c. c_name c = counter_name j) reg = Some d" "c_name d = counter_name j"
      using found_named [OF registry_ok_names(2) [OF ok, of j]] by blast
    have "find (\<lambda>c. c_name c = counter_name j) ?reg' = Some (?f d)"
      using find_map_frame [of ?f "counter_name j" reg] d by simp
    then have eq: "series_count ?reg' j ws = count_of (?f d) ws" "series_count reg j ws = count_of d ws"
      using d by (simp_all add: series_count_alt)
    show ?thesis
    proof (cases "j = i")
      case True
      then have "series_key ws = series_key vs \<longleftrightarrow> ws = vs"
        using ws eff series_key_inject [of ws vs] by auto
      with True d(2) show ?thesis unfolding eq by (simp add: count_of_added)
    qed (unfold eq, simp add: d(2))
  qed
  with add reg' that show thesis by blast
qed

lemma series_count_in_int64: "registry_ok reg \<Longrightarrow> in_int64 (series_count reg i vs)"
proof -
  assume ok: "registry_ok reg"
  show ?thesis
  proof (cases "find (\<lambda>c. c_name c = counter_name i) reg")
    case (Some c)
    then have "c \<in> set reg" by (auto simp: find_Some_iff)
    with ok have "series_ok c" by (simp add: registry_ok_def list_all_iff)
    with Some show ?thesis by (simp add: series_count_alt count_of_in_int64)
  qed (simp add: series_count_alt in_int64_def)
qed

lemma run_effects_ok:
  assumes "registry_ok reg" and "effects_ok es"
  shows "\<exists>reg'. run_effects es reg = Inr reg' \<and> registry_ok reg' \<and>
    (\<forall>i vs. length vs = length (counter_labels i) \<longrightarrow> list_all (\<lambda>v. NUL \<notin> set v) vs \<longrightarrow>
       series_count reg' i vs = wrap64 (series_count reg i vs + metric_total i vs es))"
  using assms
proof (induction es arbitrary: reg)
  case Nil
  then show ?case by (simp add: series_count_in_int64)
next
  case (Cons e es)
  show ?case
  proof (cases e)
    case (LogLine l m as)
    with Cons show ?thesis by simp
  next
    case (Metric i n vs)
    with Cons.prems have "effect_ok (Metric i n vs)" "effects_ok es" by simp_all
    then obtain reg1 where r1: "add_named (counter_name i) i n vs reg = Inr reg1" "registry_ok reg1"
      and c1: "\<And>j ws. length ws = length (counter_labels j) \<Longrightarrow> list_all (\<lambda>v. NUL \<notin> set v) ws \<Longrightarrow>
           series_count reg1 j ws =
             (if j = i \<and> ws = vs then wrap64 (series_count reg j ws + n) else series_count reg j ws)"
      using step_effect [OF Cons.prems(1)] by metis
    from Cons.IH [OF r1(2) \<open>effects_ok es\<close>] show ?thesis
      using r1(1) c1 Metric by (auto simp: add.assoc)
  qed
qed

section \<open>Lemmas: rendering\<close>

text \<open>
  How a scraper reads a quoted label value: up to the closing quote, undoing the three escapes.
  This is the reader's side of the exposition format, the specification the escaping has to meet.
\<close>

fun read_quoted :: "string \<Rightarrow> (string \<times> string) option" where
  "read_quoted [] = None"
| "read_quoted (c # cs) =
     (if c = CHR 0x22 then Some ([], cs)
      else if c = NL then None
      else if c = CHR 0x5C then
        (case cs of
           [] \<Rightarrow> None
         | d # ds \<Rightarrow>
             (if d = CHR 0x5C \<or> d = CHR 0x22 then map_option (apfst (Cons d)) (read_quoted ds)
              else if d = CHR ''n'' then map_option (apfst (Cons NL)) (read_quoted ds)
              else None))
      else map_option (apfst (Cons c)) (read_quoted cs))"

lemma read_quoted_escaped:
  "read_quoted (escapeLabelValue v @ CHR 0x22 # rest) = Some (v, rest)"
  by (induction v) (auto simp: escapeLabelValue_def escape_label_char_def NL_def)

lemma NL_notin_escaped: "NL \<notin> set (escapeLabelValue s)" "NL \<notin> set (escapeHelp s)"
  by (auto simp: escapeLabelValue_def escape_label_char_def escapeHelp_def escape_help_char_def NL_def
      split: if_splits)

lemma render_cong:
  assumes "mset (c_series c) = mset s" and "distinct (map fst (c_series c))"
  shows "render (c\<lparr>c_series := s\<rparr>) = render c"
proof -
  have "mset (map fst s) = mset (map fst (c_series c))" using assms(1) by (metis mset_map)
  then have keys: "sort (map fst s) = sort (map fst (c_series c))"
    by (metis mset_sort properties_for_sort sorted_sort)
  have "distinct (map fst s)"
    using assms \<open>mset (map fst s) = _\<close> by (metis mset_eq_imp_distinct_iff)
  moreover have "set s = set (c_series c)" using assms(1) by (metis mset_eq_setD)
  ultimately have "map_of s = map_of (c_series c)"
    using assms(2) by (metis map_of_inject_set)
  then have "render_series (c\<lparr>c_series := s\<rparr>) = render_series c"
    by (auto simp: render_series_def Let_def fun_eq_iff)
  with keys show ?thesis by (simp add: render_def)
qed

lemma insort_key_map_frame:
  "(\<And>x. k (f x) = k x) \<Longrightarrow> insort_key k (f x) (map f xs) = map f (insort_key k x xs)"
  by (induction xs) auto

lemma sort_key_map_frame: "(\<And>x. k (f x) = k x) \<Longrightarrow> sort_key k (map f xs) = map f (sort_key k xs)"
  by (induction xs) (auto simp: insort_key_map_frame)

section \<open>Lemmas: the initial registry\<close>

definition initial_registry :: registry where
  "initial_registry = map (\<lambda>i. case counter_spec i of (n, h, l) \<Rightarrow> new_counter n h l) counter_ids"

lemma init_registry_eq: "init_registry = Inr initial_registry"
  by code_simp

lemma initial_registry_ok: "registry_ok initial_registry"
proof -
  have shape: "c_name (new_counter n h l) = n" "c_labels (new_counter n h l) = l" for n h l
    by (auto simp: new_counter_def get_series_def Let_def)
  show ?thesis
    by (simp add: registry_ok_def initial_registry_def comp_def shape counter_name_def counter_labels_def
        series_ok_new_counter list_all_iff split_beta)
qed

lemma initial_registry_zero: "series_count initial_registry i vs = 0"
proof -
  have zero: "count_of c vs = 0" if "c \<in> set initial_registry" for c
    using that by (auto simp: initial_registry_def new_counter_def get_series_def count_of_def Let_def split_beta)
  show ?thesis
  proof (cases "find (\<lambda>c. c_name c = counter_name i) initial_registry")
    case (Some c)
    then have "c \<in> set initial_registry" by (auto simp: find_Some_iff)
    with Some zero show ?thesis by (simp add: series_count_alt)
  qed (simp add: series_count_alt)
qed

section \<open>Properties\<close>

text \<open>
  Package initialisation never panics. Registering the twelve counters of
  \<^verbatim>\<open>metrics/counters.go\<close> succeeds, every counter holds the labels the sources give it, and every
  series starts at 0.
\<close>

theorem init_registry_total:
  "\<exists>reg. init_registry = Inr reg \<and> registry_ok reg \<and> (\<forall>i vs. series_count reg i vs = 0)"
  using init_registry_eq initial_registry_ok initial_registry_zero by blast

text \<open>
  The counters hold what the components did. Replaying a trace whose updates carry the right
  number of label values never panics, keeps the registry well formed, and moves every series
  by exactly the amount the trace adds to it, modulo the 64-bit wrap-around.
\<close>

theorem replay_exact:
  assumes "registry_ok reg" and "effects_ok es"
    and "length vs = length (counter_labels i)" and "list_all (\<lambda>v. NUL \<notin> set v) vs"
  shows "\<exists>reg'. run_effects es reg = Inr reg' \<and> registry_ok reg' \<and>
           series_count reg' i vs = wrap64 (series_count reg i vs + metric_total i vs es)"
  using run_effects_ok [OF assms(1,2)] assms(3,4) by blast

theorem replay_exact_witness:
  "\<exists>reg'. run_effects [Inc IngestAccepted [''deltas''], Inc IngestAccepted [''deltas'']] initial_registry = Inr reg' \<and>
     registry_ok reg' \<and> series_count reg' IngestAccepted [''deltas''] = 2"
proof -
  have "\<exists>reg'. run_effects [Inc IngestAccepted [''deltas''], Inc IngestAccepted [''deltas'']] initial_registry = Inr reg' \<and>
     registry_ok reg' \<and> series_count reg' IngestAccepted [''deltas''] =
       wrap64 (series_count initial_registry IngestAccepted [''deltas''] +
         metric_total IngestAccepted [''deltas''] [Inc IngestAccepted [''deltas''], Inc IngestAccepted [''deltas'']])"
    by (rule replay_exact) (simp_all add: initial_registry_ok NUL_def)
  then show ?thesis by (simp add: initial_registry_zero wrap64_def)
qed

text \<open>
  A label value survives the exposition format. A scraper that reads a rendered label value
  up to its closing quote gets back the value, and the value never breaks the line.
\<close>

theorem label_value_roundtrip:
  "read_quoted (escapeLabelValue v @ CHR 0x22 # rest) = Some (v, rest) \<and> NL \<notin> set (escapeLabelValue v)"
  by (simp add: read_quoted_escaped NL_notin_escaped)

text \<open>
  The output of \<^verbatim>\<open>Render\<close> does not depend on the order in which counters were registered or
  series were created (Go iterates a map in random order).
\<close>

theorem Render_stable:
  assumes "registry_ok reg" and "mset reg' = mset reg"
    and "\<forall>c \<in> set reg. mset (perm c) = mset (c_series c)"
  shows "Render (map (\<lambda>c. c\<lparr>c_series := perm c\<rparr>) reg') = Render reg"
proof -
  let ?p = "\<lambda>c. c\<lparr>c_series := perm c\<rparr>"
  have set: "set reg' = set reg" using assms(2) by (metis mset_eq_setD)
  have inj: "inj_on c_name (set reg')"
    using registry_ok_names(1) [OF assms(1)] by (simp add: set distinct_map)
  have sorted: "sort_key c_name reg' = sort_key c_name reg"
    by (rule sort_key_inj_key_eq) (use assms(2) inj in simp_all)
  have "render (?p c) = render c" if "c \<in> set reg" for c
    by (rule render_cong)
      (use assms(1,3) that in \<open>simp_all add: registry_ok_def list_all_iff series_ok_def\<close>)
  then have "map (\<lambda>c. render (?p c)) (sort_key c_name reg') = map render (sort_key c_name reg)"
    by (simp add: sorted)
  moreover have "sort_key c_name (map ?p reg') = map ?p (sort_key c_name reg')"
    by (rule sort_key_map_frame) simp
  ultimately show ?thesis by (simp add: Render_def comp_def)
qed

theorem Render_stable_witness:
  "Render (map (\<lambda>c. c\<lparr>c_series := rev (c_series c)\<rparr>) (rev initial_registry)) = Render initial_registry"
  by (rule Render_stable) (simp_all add: initial_registry_ok)

end
