(* ===== verification/Ingest.thy ===== *)
theory Ingest
  imports Payload Http Metrics
begin

text \<open>
  The package \<^verbatim>\<open>ingest\<close> (\<^verbatim>\<open>ingest/handler.go\<close>, \<^verbatim>\<open>ingest/logsink.go\<close>): the \<^verbatim>\<open>Sink\<close> interface, the
  validators, the generic \<^verbatim>\<open>handle\<close> with its decode slots, and \<^verbatim>\<open>LogSink\<close>.

  A \<^verbatim>\<open>Sink\<close> over a state is a record of its three methods; a method returns its error (\<open>None\<close> is
  Go's nil), its effects and the new state. \<open>codec\<close> holds what \<^verbatim>\<open>handle\<close> takes from packages that
  are not part of the repository: \<^verbatim>\<open>proto.Unmarshal\<close> for each payload kind, and the media type
  \<^verbatim>\<open>mime.ParseMediaType\<close> finds (\<open>None\<close> is its error).

  The decode slots are a counting semaphore. One request is the function \<open>handle\<close>, with the
  scheduler's choice in \<^verbatim>\<open>acquire\<close>'s \<^verbatim>\<open>select\<close> as an argument; the interleaving of many requests is
  the step relation \<open>ingest_step\<close>.
\<close>

section \<open>Constants\<close>

definition maxBodyBytes :: nat where
  "maxBodyBytes = 16 * 2 ^ 20"

definition contentType :: string where
  "contentType = ''application/x-protobuf''"

definition DeltaBatchPath :: string where
  "DeltaBatchPath = ''/v1/otherlode/deltas''"

definition ManifestPath :: string where
  "ManifestPath = ''/v1/otherlode/manifest''"

definition StaticBaselinePath :: string where
  "StaticBaselinePath = ''/v1/otherlode/static-baseline''"

record payload_kind =
  pk_label :: string
  pk_name :: string

definition deltaBatchKind :: payload_kind where
  "deltaBatchKind = \<lparr>pk_label = ''deltas'', pk_name = ''delta batch''\<rparr>"

definition manifestKind :: payload_kind where
  "manifestKind = \<lparr>pk_label = ''manifest'', pk_name = ''manifest''\<rparr>"

definition staticBaselineKind :: payload_kind where
  "staticBaselineKind = \<lparr>pk_label = ''static_baseline'', pk_name = ''static baseline''\<rparr>"

definition PayloadLabel :: "string \<Rightarrow> string" where
  "PayloadLabel path =
     (if path = ManifestPath then pk_label manifestKind
      else if path = StaticBaselinePath then pk_label staticBaselineKind
      else pk_label deltaBatchKind)"

section \<open>The sink interface\<close>

type_synonym 's accepting = "go_error option \<times> effect list \<times> 's"

record 's sink =
  AcceptDeltaBatch :: "pbmsg \<Rightarrow> 's \<Rightarrow> 's accepting"
  AcceptManifest :: "pbmsg \<Rightarrow> 's \<Rightarrow> 's accepting"
  AcceptStaticBaseline :: "pbmsg \<Rightarrow> 's \<Rightarrow> 's accepting"

record codec =
  unmarshal_msg :: "payload_kind \<Rightarrow> string \<Rightarrow> go_error + pbmsg"
  parse_media_type :: "string \<Rightarrow> string option"

text \<open>\<^verbatim>\<open>Handler\<close>: \<open>h_slots\<close> is the capacity of the semaphore, \<open>None\<close> when decodes are not capped.\<close>

record handler =
  h_slots :: "nat option"
  h_slot_wait :: int

definition maxSlotWait :: int where
  "maxSlotWait = 5 * 10 ^ 9"

definition WithMaxConcurrentDecodes :: "int \<Rightarrow> handler \<Rightarrow> handler" where
  "WithMaxConcurrentDecodes n h = (if n > 0 then h\<lparr>h_slots := Some (nat n)\<rparr> else h)"

definition NewHandler :: "(handler \<Rightarrow> handler) list \<Rightarrow> handler" where
  "NewHandler opts = foldl (\<lambda>h opt. opt h) \<lparr>h_slots = None, h_slot_wait = maxSlotWait\<rparr> opts"

section \<open>Validation\<close>

text \<open>A validator returns the text of its error, \<open>None\<close> for nil.\<close>

definition isDotSegment :: "string \<Rightarrow> bool" where
  "isDotSegment v \<longleftrightarrow> v = ''.'' \<or> v = ''..''"

text \<open>\<^verbatim>\<open>%q\<close> of a string that needs no escape, as \<^verbatim>\<open>"."\<close> and \<^verbatim>\<open>".."\<close> are.\<close>

definition quote_plain :: "string \<Rightarrow> string" where
  "quote_plain s = [CHR 0x22] @ s @ [CHR 0x22]"

definition validateResource :: "pbmsg option \<Rightarrow> string option" where
  "validateResource res =
     (if res = None then Some ''missing resource''
      else
        (let name = trim_space (GetServiceName res);
             namespace = trim_space (GetServiceNamespace res)
         in if name = [] then Some ''resource.service_name is empty''
            else if isDotSegment name then
              Some (''resource.service_name is '' @ quote_plain name @ '', which no URL path can name'')
            else if isDotSegment namespace then
              Some (''resource.service_namespace is '' @ quote_plain namespace @ '', which no URL path can name'')
            else if GetServiceInstanceId res = [] then
              Some ''resource.service_instance_id is empty''
            else if GetRunId res = [] then Some ''resource.run_id is empty''
            else None))"

definition validateDeltaBatch :: "pbmsg \<Rightarrow> string option" where
  "validateDeltaBatch batch = validateResource (GetResource batch)"

definition validateManifest :: "pbmsg \<Rightarrow> string option" where
  "validateManifest manifest = validateResource (GetResource manifest)"

definition validateStaticBaseline :: "pbmsg \<Rightarrow> string option" where
  "validateStaticBaseline baseline =
     (case validateResource (GetResource baseline) of
        Some err \<Rightarrow> Some err
      | None \<Rightarrow>
          (if get_int ''scanned_at'' (Some baseline) \<le> 0 then Some ''scanned_at is not set''
           else if get_int ''chunk_count'' (Some baseline) < 1 then
             Some ''chunk_count must be at least 1''
           else if get_int ''chunk_index'' (Some baseline) < 0 then Some ''chunk_index is negative''
           else if get_int ''chunk_index'' (Some baseline) \<ge> get_int ''chunk_count'' (Some baseline) then
             Some ''chunk_index is out of range for chunk_count''
           else None))"

section \<open>Answering\<close>

definition reject :: "payload_kind \<Rightarrow> string \<Rightarrow> response \<times> effect list" where
  "reject kind err =
     (http_error (''invalid '' @ pk_name kind @ '': '' @ err) 400 [],
      [LogLine LWarn (''rejecting invalid '' @ pk_name kind) [(''error'', LErr (ErrText err))],
       Inc IngestRejected [pk_label kind, ''invalid'']])"

definition sinkFailed :: "payload_kind \<Rightarrow> go_error \<Rightarrow> response \<times> effect list" where
  "sinkFailed kind err =
     (write_header 503 [],
      [LogLine LError (''sink rejected '' @ pk_name kind) [(''error'', LErr err)],
       Inc IngestRejected [pk_label kind, ''sink'']])"

text \<open>\<^verbatim>\<open>checkContentType\<close>: the response it writes when it turns the request away.\<close>

definition encoding_ok :: "string \<Rightarrow> bool" where
  "encoding_ok enc \<longleftrightarrow> trim_space enc = [] \<or> equal_fold (trim_space enc) ''identity''"

definition checkContentType :: "codec \<Rightarrow> request \<Rightarrow> response option" where
  "checkContentType cd r =
     (if \<not> list_all encoding_ok (split_on CHR '','' (join '','' (header_values ''Content-Encoding'' r)))
      then Some (http_error ''unsupported content encoding'' 415 [])
      else if parse_media_type cd (header_get ''Content-Type'' r) \<noteq> Some contentType
      then Some (http_error ''unsupported content type'' 415 [])
      else None)"

text \<open>\<^verbatim>\<open>readBody\<close>: the body, or the response and the metrics reason.\<close>

definition readBody :: "request \<Rightarrow> (response \<times> string) + string" where
  "readBody r =
     (if length (req_data r) > maxBodyBytes
      then Inl (http_error ''request body too large'' 413 [], ''too_large'')
      else if req_fails r then Inl (http_error ''failed to read body'' 400 [], ''read'')
      else Inr (req_data r))"

definition readRequest :: "codec \<Rightarrow> payload_kind \<Rightarrow> request \<Rightarrow> (response \<times> effect list) + string" where
  "readRequest cd kind r =
     (case checkContentType cd r of
        Some resp \<Rightarrow> Inl (resp, [Inc IngestRejected [pk_label kind, ''content_type'']])
      | None \<Rightarrow>
          (case readBody r of
             Inl (resp, reason) \<Rightarrow> Inl (resp, [Inc IngestRejected [pk_label kind, reason]])
           | Inr body \<Rightarrow> Inr body))"

text \<open>
  \<^verbatim>\<open>acquire\<close> waits in a \<^verbatim>\<open>select\<close> for a slot, the request's context and a timer. \<open>slot_event\<close> is the
  case the scheduler takes; taking a slot needs a free one, otherwise the request stays blocked.
\<close>

datatype slot_event = TakeSlot | CtxDone | TimerFired

datatype slot_result =
    SlotHeld
  | SlotFailed "response option" "effect list"
  | SlotBlocked

definition acquire :: "handler \<Rightarrow> payload_kind \<Rightarrow> slot_event \<Rightarrow> nat \<Rightarrow> slot_result \<times> nat" where
  "acquire h kind ev used =
     (case h_slots h of
        None \<Rightarrow> (SlotHeld, used)
      | Some cap \<Rightarrow>
          (case ev of
             TakeSlot \<Rightarrow> (if used < cap then (SlotHeld, used + 1) else (SlotBlocked, used))
           | CtxDone \<Rightarrow> (SlotFailed None [Inc IngestRejected [pk_label kind, ''canceled'']], used)
           | TimerFired \<Rightarrow>
               (SlotFailed (Some (write_header 503 [(''Retry-After'', ''1'')]))
                  [Inc IngestRejected [pk_label kind, ''busy'']], used)))"

definition release_slot :: "handler \<Rightarrow> nat \<Rightarrow> nat" where
  "release_slot h used = (case h_slots h of None \<Rightarrow> used | Some cap \<Rightarrow> used - 1)"

definition unmarshal :: "codec \<Rightarrow> payload_kind \<Rightarrow> string \<Rightarrow> (response \<times> effect list) + pbmsg" where
  "unmarshal cd kind body =
     (case unmarshal_msg cd kind body of
        Inr msg \<Rightarrow> Inr msg
      | Inl err \<Rightarrow>
          Inl (http_error (''malformed '' @ pk_name kind) 400 [],
               [LogLine LWarn (''rejecting malformed '' @ pk_name kind) [(''error'', LErr err)],
                Inc IngestRejected [pk_label kind, ''malformed'']]))"

text \<open>The part of \<^verbatim>\<open>handle\<close> that runs while the slot is held.\<close>

definition decode_and_accept ::
  "codec \<Rightarrow> payload_kind \<Rightarrow> (pbmsg \<Rightarrow> string option) \<Rightarrow> (pbmsg \<Rightarrow> 's \<Rightarrow> 's accepting) \<Rightarrow>
   string \<Rightarrow> 's \<Rightarrow> response \<times> effect list \<times> 's" where
  "decode_and_accept cd kind validate accept body st =
     (case unmarshal cd kind body of
        Inl (resp, es) \<Rightarrow> (resp, es, st)
      | Inr msg \<Rightarrow>
          (case validate msg of
             Some err \<Rightarrow> (let (resp, es) = reject kind err in (resp, es, st))
           | None \<Rightarrow>
               (case accept msg st of
                  (Some err, es, st') \<Rightarrow>
                    (let (resp, es') = sinkFailed kind err in (resp, es @ es', st'))
                | (None, es, st') \<Rightarrow>
                    (write_header 202 [], es @ [Inc IngestAccepted [pk_label kind]], st'))))"

text \<open>
  \<^verbatim>\<open>handle\<close> for one request: \<open>None\<close> while it is blocked on a slot. The number of slots in use is the
  same after it as before, since the deferred release runs on every path that took one.
\<close>

definition handle ::
  "codec \<Rightarrow> handler \<Rightarrow> payload_kind \<Rightarrow> (pbmsg \<Rightarrow> string option) \<Rightarrow> (pbmsg \<Rightarrow> 's \<Rightarrow> 's accepting) \<Rightarrow>
   request \<Rightarrow> slot_event \<Rightarrow> nat \<Rightarrow> 's \<Rightarrow> ('s served \<times> nat) option" where
  "handle cd h kind validate accept r ev used st =
     (case readRequest cd kind r of
        Inl (resp, es) \<Rightarrow> Some ((Some resp, es, st), used)
      | Inr body \<Rightarrow>
          (case acquire h kind ev used of
             (SlotBlocked, used') \<Rightarrow> None
           | (SlotFailed resp es, used') \<Rightarrow> Some ((resp, es, st), used')
           | (SlotHeld, used') \<Rightarrow>
               (let (resp, es, st') = decode_and_accept cd kind validate accept body st
                in Some ((Some resp, es, st'), release_slot h used'))))"

datatype payload = DeltaBatch | Manifest | StaticBaseline

fun kind_of :: "payload \<Rightarrow> payload_kind" where
  "kind_of DeltaBatch = deltaBatchKind"
| "kind_of Manifest = manifestKind"
| "kind_of StaticBaseline = staticBaselineKind"

fun validator_of :: "payload \<Rightarrow> pbmsg \<Rightarrow> string option" where
  "validator_of DeltaBatch = validateDeltaBatch"
| "validator_of Manifest = validateManifest"
| "validator_of StaticBaseline = validateStaticBaseline"

fun accept_of :: "'s sink \<Rightarrow> payload \<Rightarrow> pbmsg \<Rightarrow> 's \<Rightarrow> 's accepting" where
  "accept_of snk DeltaBatch = AcceptDeltaBatch snk"
| "accept_of snk Manifest = AcceptManifest snk"
| "accept_of snk StaticBaseline = AcceptStaticBaseline snk"

text \<open>\<^verbatim>\<open>handleDeltaBatch\<close>, \<^verbatim>\<open>handleManifest\<close> and \<^verbatim>\<open>handleStaticBaseline\<close>.\<close>

definition handle_payload ::
  "codec \<Rightarrow> handler \<Rightarrow> 's sink \<Rightarrow> payload \<Rightarrow> request \<Rightarrow> slot_event \<Rightarrow> nat \<Rightarrow> 's \<Rightarrow> ('s served \<times> nat) option" where
  "handle_payload cd h snk p = handle cd h (kind_of p) (validator_of p) (accept_of snk p)"

section \<open>LogSink\<close>

definition identity_attrs :: "pbmsg option \<Rightarrow> (string \<times> log_value) list" where
  "identity_attrs res =
     [(''namespace'', LStr (GetServiceNamespace res)),
      (''service'', LStr (GetServiceName res)),
      (''instance'', LStr (GetServiceInstanceId res)),
      (''run'', LStr (GetRunId res)),
      (''environment'', LStr (GetEnvironment res)),
      (''test_run'', LBool (GetTestRun res))]"

definition len_attr :: "string \<Rightarrow> pbmsg \<Rightarrow> string \<times> log_value" where
  "len_attr f m = (f, LInt (len_field f m))"

definition callEdgeCount :: "pbmsg list \<Rightarrow> int" where
  "callEdgeCount probes = sum_list (map (len_field ''calls'') probes)"

definition declaredCallEdgeCount :: "pbmsg list \<Rightarrow> int" where
  "declaredCallEdgeCount classes =
     sum_list (map (\<lambda>c. sum_list (map (len_field ''calls'') (get_msgs ''methods'' c))) classes)"

definition referencedClassCount :: "pbmsg list \<Rightarrow> int" where
  "referencedClassCount probes = sum_list (map (len_field ''referenced_classes'') probes)"

definition declaredReferencedClassCount :: "pbmsg list \<Rightarrow> int" where
  "declaredReferencedClassCount classes =
     sum_list (map (\<lambda>c. len_field ''referenced_classes'' c +
       sum_list (map (len_field ''referenced_classes'') (get_msgs ''methods'' c))) classes)"

definition LogSink_AcceptDeltaBatch :: "pbmsg \<Rightarrow> 's \<Rightarrow> 's accepting" where
  "LogSink_AcceptDeltaBatch batch st =
     (None,
      [LogLine LInfo ''received delta batch''
         (identity_attrs (GetResource batch) @
          [len_attr ''deltas'' batch, len_attr ''endpoint_deltas'' batch,
           len_attr ''dependency_deltas'' batch])],
      st)"

definition LogSink_AcceptManifest :: "pbmsg \<Rightarrow> 's \<Rightarrow> 's accepting" where
  "LogSink_AcceptManifest manifest st =
     (None,
      [LogLine LInfo ''received probe manifest''
         (identity_attrs (GetResource manifest) @
          [len_attr ''probes'' manifest,
           (''call_edges'', LInt (callEdgeCount (get_msgs ''probes'' manifest))),
           len_attr ''class_locations'' manifest, len_attr ''skipped_classes'' manifest,
           len_attr ''endpoints'' manifest, len_attr ''disabled_endpoint_modules'' manifest,
           len_attr ''dependencies'' manifest,
           (''referenced_classes'', LInt (referencedClassCount (get_msgs ''probes'' manifest))),
           len_attr ''class_references'' manifest, len_attr ''external_classes'' manifest,
           (''references_recorded'', LBool (get_bool ''references_recorded'' (Some manifest))),
           (''dependencies_listed'', LBool (get_bool ''dependencies_listed'' (Some manifest)))])],
      st)"

definition LogSink_AcceptStaticBaseline :: "pbmsg \<Rightarrow> 's \<Rightarrow> 's accepting" where
  "LogSink_AcceptStaticBaseline baseline st =
     (None,
      [LogLine LInfo ''received static baseline''
         (identity_attrs (GetResource baseline) @
          [(''scanned_at'', LInt (get_int ''scanned_at'' (Some baseline))),
           (''chunk'', LInt (get_int ''chunk_index'' (Some baseline))),
           (''chunk_count'', LInt (get_int ''chunk_count'' (Some baseline))),
           len_attr ''declared_classes'' baseline,
           (''declared_call_edges'',
              LInt (declaredCallEdgeCount (get_msgs ''declared_classes'' baseline))),
           (''declared_referenced_classes'',
              LInt (declaredReferencedClassCount (get_msgs ''declared_classes'' baseline))),
           len_attr ''statically_unsafe_classes'' baseline, len_attr ''unreadable_classes'' baseline,
           len_attr ''unprobed_classes'' baseline])],
      st)"

definition LogSink :: "'s sink" where
  "LogSink =
     \<lparr>AcceptDeltaBatch = LogSink_AcceptDeltaBatch,
      AcceptManifest = LogSink_AcceptManifest,
      AcceptStaticBaseline = LogSink_AcceptStaticBaseline\<rparr>"

section \<open>Many requests at once\<close>

text \<open>
  Each request goes through \<^verbatim>\<open>handle\<close> on its own goroutine. \<open>Holding\<close> and \<open>Replied\<close> are the phases in
  which it holds a decode slot: decoding and handing over, and between the answer and the
  deferred release. A step is one request moving.
\<close>

datatype phase =
    Reading payload request
  | Waiting payload string
  | Holding payload string
  | Replied "response option"
  | Finished "response option"

fun holds_slot :: "phase \<Rightarrow> bool" where
  "holds_slot (Holding p body) = True"
| "holds_slot (Replied resp) = True"
| "holds_slot _ = False"

fun answered :: "phase \<Rightarrow> bool" where
  "answered (Replied resp) = True"
| "answered (Finished resp) = True"
| "answered _ = False"

record 's ingest_sys =
  sys_used :: nat
  sys_reqs :: "phase list"
  sys_state :: 's
  sys_trace :: "effect list"

definition ingest_init :: "'s \<Rightarrow> 's ingest_sys" where
  "ingest_init st = \<lparr>sys_used = 0, sys_reqs = [], sys_state = st, sys_trace = []\<rparr>"

definition move :: "nat \<Rightarrow> phase \<Rightarrow> effect list \<Rightarrow> 's ingest_sys \<Rightarrow> 's ingest_sys" where
  "move i ph es s = s\<lparr>sys_reqs := (sys_reqs s)[i := ph], sys_trace := sys_trace s @ es\<rparr>"

inductive ingest_step :: "codec \<Rightarrow> handler \<Rightarrow> 's sink \<Rightarrow> 's ingest_sys \<Rightarrow> 's ingest_sys \<Rightarrow> bool"
  for cd :: codec and h :: handler and snk :: "'s sink" where
  arrive:
    "ingest_step cd h snk s (s\<lparr>sys_reqs := sys_reqs s @ [Reading p r]\<rparr>)"
| read_rejected:
    "i < length (sys_reqs s) \<Longrightarrow> sys_reqs s ! i = Reading p r \<Longrightarrow>
     readRequest cd (kind_of p) r = Inl (resp, es) \<Longrightarrow>
     ingest_step cd h snk s (move i (Finished (Some resp)) es s)"
| read_done:
    "i < length (sys_reqs s) \<Longrightarrow> sys_reqs s ! i = Reading p r \<Longrightarrow>
     readRequest cd (kind_of p) r = Inr body \<Longrightarrow>
     ingest_step cd h snk s (move i (Waiting p body) [] s)"
| slot_taken:
    "i < length (sys_reqs s) \<Longrightarrow> sys_reqs s ! i = Waiting p body \<Longrightarrow>
     acquire h (kind_of p) ev (sys_used s) = (SlotHeld, used') \<Longrightarrow>
     ingest_step cd h snk s ((move i (Holding p body) [] s)\<lparr>sys_used := used'\<rparr>)"
| slot_failed:
    "i < length (sys_reqs s) \<Longrightarrow> sys_reqs s ! i = Waiting p body \<Longrightarrow>
     acquire h (kind_of p) ev (sys_used s) = (SlotFailed resp es, used') \<Longrightarrow>
     ingest_step cd h snk s ((move i (Finished resp) es s)\<lparr>sys_used := used'\<rparr>)"
| work:
    "i < length (sys_reqs s) \<Longrightarrow> sys_reqs s ! i = Holding p body \<Longrightarrow>
     decode_and_accept cd (kind_of p) (validator_of p) (accept_of snk p) body (sys_state s) = (resp, es, st') \<Longrightarrow>
     ingest_step cd h snk s ((move i (Replied (Some resp)) es s)\<lparr>sys_state := st'\<rparr>)"
| finish:
    "i < length (sys_reqs s) \<Longrightarrow> sys_reqs s ! i = Replied resp \<Longrightarrow>
     ingest_step cd h snk s
       ((move i (Finished resp) [] s)\<lparr>sys_used := release_slot h (sys_used s)\<rparr>)"

inductive ingest_reach :: "codec \<Rightarrow> handler \<Rightarrow> 's sink \<Rightarrow> 's \<Rightarrow> 's ingest_sys \<Rightarrow> bool"
  for cd :: codec and h :: handler and snk :: "'s sink" and st0 :: 's where
  start: "ingest_reach cd h snk st0 (ingest_init st0)"
| step: "ingest_reach cd h snk st0 s \<Longrightarrow> ingest_step cd h snk s t \<Longrightarrow> ingest_reach cd h snk st0 t"

definition count_phases :: "(phase \<Rightarrow> bool) \<Rightarrow> 's ingest_sys \<Rightarrow> nat" where
  "count_phases P s = length (filter P (sys_reqs s))"

fun is_ingest :: "effect \<Rightarrow> bool" where
  "is_ingest (Metric c n vs) \<longleftrightarrow> c = IngestAccepted \<or> c = IngestRejected"
| "is_ingest (LogLine l m as) \<longleftrightarrow> False"

text \<open>How many requests a trace has counted as accepted or rejected.\<close>

definition ingest_events :: "effect list \<Rightarrow> nat" where
  "ingest_events es = length (filter is_ingest es)"

section \<open>Lemmas: validation\<close>

lemma validateResource_None:
  "validateResource res = None \<longleftrightarrow>
     res \<noteq> None \<and> trim_space (GetServiceName res) \<noteq> [] \<and>
     \<not> isDotSegment (trim_space (GetServiceName res)) \<and>
     \<not> isDotSegment (trim_space (GetServiceNamespace res)) \<and>
     GetServiceInstanceId res \<noteq> [] \<and> GetRunId res \<noteq> []"
  by (simp add: validateResource_def Let_def)

lemma validator_resource: "validator_of p m = None \<Longrightarrow> validateResource (GetResource m) = None"
  by (cases p)
    (simp_all add: validateDeltaBatch_def validateManifest_def validateStaticBaseline_def split: option.splits)

text \<open>A change that keeps the resource valid and the three chunk fields keeps a payload valid.\<close>

lemma validator_cong:
  assumes "validator_of p m = None" and "validateResource (GetResource m') = None"
    and "\<And>f. f \<in> {''scanned_at'', ''chunk_count'', ''chunk_index''} \<Longrightarrow>
           get_int f (Some m') = get_int f (Some m)"
  shows "validator_of p m' = None"
  using assms
  by (cases p)
    (simp_all add: validateDeltaBatch_def validateManifest_def validateStaticBaseline_def
      split: option.splits if_splits)

section \<open>Lemmas: one request\<close>

lemma ingest_events_simps [simp, effect_simps]:
  "ingest_events [] = 0"
  "ingest_events (es @ fs) = ingest_events es + ingest_events fs"
  "ingest_events (e # es) = (if is_ingest e then Suc (ingest_events es) else ingest_events es)"
  by (simp_all add: ingest_events_def)

lemma pk_labels: "pk_label (kind_of p) \<in> {''deltas'', ''manifest'', ''static_baseline''}"
  by (cases p) (simp_all add: deltaBatchKind_def manifestKind_def staticBaselineKind_def)

lemma NUL_notin_label [simp]: "CHR 0x00 \<notin> set (pk_label (kind_of p))"
  using pk_labels [of p] by auto

lemmas answer_defs = reject_def sinkFailed_def write_header_def http_error_def

lemma readRequest_rejected:
  assumes "readRequest cd (kind_of p) r = Inl (resp, es)"
  shows "effects_ok es \<and> ingest_events es = 1 \<and> resp_status resp \<in> {400, 413, 415}"
  using assms
  by (auto simp: readRequest_def checkContentType_def readBody_def NUL_def
      split: option.splits sum.splits if_splits)

lemma acquire_failed:
  assumes "acquire h (kind_of p) ev used = (SlotFailed resp es, used')"
  shows "effects_ok es \<and> ingest_events es = 1 \<and> used' = used \<and>
         (resp = None \<or> (\<exists>rs. resp = Some rs \<and> resp_status rs = 503))"
  using assms
  by (auto simp: acquire_def NUL_def split: option.splits slot_event.splits if_splits)

lemma acquire_held:
  "acquire h kind ev used = (SlotHeld, used') \<Longrightarrow>
   used' = (case h_slots h of None \<Rightarrow> used | Some n \<Rightarrow> Suc used) \<and> (\<forall>n. h_slots h = Some n \<longrightarrow> used < n)"
  by (auto simp: acquire_def split: option.splits slot_event.splits if_splits)

lemma release_acquired: "acquire h kind ev used = (SlotHeld, used') \<Longrightarrow> release_slot h used' = used"
  by (auto dest!: acquire_held simp: release_slot_def split: option.splits)

text \<open>The ways \<open>decode_and_accept\<close> can go.\<close>

lemma decode_and_accept_cases:
  assumes "decode_and_accept cd kind validate accept body st = (resp, es, st')"
  obtains
    (malformed) err where "unmarshal_msg cd kind body = Inl err" "resp_status resp = 400" "st' = st"
      "es = [LogLine LWarn (''rejecting malformed '' @ pk_name kind) [(''error'', LErr err)],
             Inc IngestRejected [pk_label kind, ''malformed'']]"
  | (invalid) msg err where "unmarshal_msg cd kind body = Inr msg" "validate msg = Some err"
      "resp_status resp = 400" "st' = st"
      "es = [LogLine LWarn (''rejecting invalid '' @ pk_name kind) [(''error'', LErr (ErrText err))],
             Inc IngestRejected [pk_label kind, ''invalid'']]"
  | (sink_failed) msg err es0 where "unmarshal_msg cd kind body = Inr msg" "validate msg = None"
      "accept msg st = (Some err, es0, st')" "resp_status resp = 503"
      "es = es0 @ [LogLine LError (''sink rejected '' @ pk_name kind) [(''error'', LErr err)],
             Inc IngestRejected [pk_label kind, ''sink'']]"
  | (taken) msg es0 where "unmarshal_msg cd kind body = Inr msg" "validate msg = None"
      "accept msg st = (None, es0, st')" "resp_status resp = 202"
      "es = es0 @ [Inc IngestAccepted [pk_label kind]]"
proof (cases "unmarshal_msg cd kind body")
  case (Inl err)
  show thesis
    by (rule malformed [OF Inl]) (use assms Inl in \<open>auto simp: decode_and_accept_def unmarshal_def\<close>)
next
  case (Inr msg)
  show thesis
  proof (cases "validate msg")
    case (Some err)
    show thesis
      by (rule invalid [OF Inr Some])
        (use assms Inr Some in \<open>auto simp: decode_and_accept_def unmarshal_def reject_def\<close>)
  next
    case None
    obtain e es0 st0 where acc: "accept msg st = (e, es0, st0)" by (metis prod_cases3)
    show thesis
    proof (cases e)
      case e: None
      show thesis
        by (rule taken [OF Inr None])
          (use assms Inr None acc e in \<open>auto simp: decode_and_accept_def unmarshal_def\<close>)
    next
      case e: (Some err)
      show thesis
        by (rule sink_failed [OF Inr None])
          (use assms Inr None acc e in \<open>auto simp: decode_and_accept_def unmarshal_def sinkFailed_def\<close>)
    qed
  qed
qed

text \<open>The ways \<open>handle\<close> can go.\<close>

lemma handle_cases:
  assumes "handle cd h kind validate accept r ev used st = Some ((resp, es, st'), used')"
  obtains
    (unread) rs where "readRequest cd kind r = Inl (rs, es)" "resp = Some rs" "st' = st" "used' = used"
  | (no_slot) body u where "readRequest cd kind r = Inr body"
      "acquire h kind ev used = (SlotFailed resp es, u)" "st' = st" "used' = u"
  | (held) body u rs where "readRequest cd kind r = Inr body" "acquire h kind ev used = (SlotHeld, u)"
      "decode_and_accept cd kind validate accept body st = (rs, es, st')" "resp = Some rs" "used' = used"
  using assms
  by (auto simp: handle_def release_acquired split: sum.splits slot_result.splits prod.splits)

lemma count_move:
  "i < length (sys_reqs s) \<Longrightarrow>
   count_phases P (move i ph es s) + (if P (sys_reqs s ! i) then 1 else 0) =
   count_phases P s + (if P ph then 1 else 0)"
  unfolding count_phases_def move_def by (simp add: length_filter_update)

section \<open>The contract of a sink\<close>

text \<open>
  What the handler relies on when it hands a payload that passed validation to its sink: the sink
  keeps its own invariant, its counter updates are well formed, and it leaves the two ingest
  counters to the handler. The handler's accounting lemmas are proved once, for every such sink.
\<close>

locale sink_contract =
  fixes snk :: "'s sink" and I :: "'s \<Rightarrow> bool"
  assumes accept_inv:
      "I st \<Longrightarrow> validator_of p m = None \<Longrightarrow> accept_of snk p m st = (e, es, st') \<Longrightarrow> I st'"
    and accept_effects:
      "I st \<Longrightarrow> validator_of p m = None \<Longrightarrow> accept_of snk p m st = (e, es, st') \<Longrightarrow>
       effects_ok es \<and> ingest_events es = 0"
begin

lemma work_ok:
  assumes "I st"
    and "decode_and_accept cd (kind_of p) (validator_of p) (accept_of snk p) body st = (resp, es, st')"
  shows "I st' \<and> effects_ok es \<and> ingest_events es = 1"
  using assms(2)
proof (cases rule: decode_and_accept_cases)
  case (sink_failed msg err es0)
  then show ?thesis
    using accept_inv [OF assms(1)] accept_effects [OF assms(1)] by (auto simp: NUL_def)
next
  case (taken msg es0)
  then show ?thesis
    using accept_inv [OF assms(1)] accept_effects [OF assms(1)] by (auto simp: NUL_def)
qed (use assms(1) in \<open>auto simp: NUL_def\<close>)

lemma handle_ok:
  assumes "I st" and "handle_payload cd h snk p r ev used st = Some ((resp, es, st'), used')"
  shows "I st' \<and> effects_ok es \<and> ingest_events es = 1 \<and> used' = used"
  using assms(2) unfolding handle_payload_def
proof (cases rule: handle_cases)
  case (unread rs)
  then show ?thesis using assms(1) readRequest_rejected by simp
next
  case (no_slot body u)
  then show ?thesis using assms(1) acquire_failed by simp
next
  case (held body u rs)
  then show ?thesis using work_ok [OF assms(1)] by simp
qed

lemma reach_accounted:
  assumes "ingest_reach cd h snk st0 s" and "I st0"
  shows "I (sys_state s) \<and> effects_ok (sys_trace s) \<and>
         ingest_events (sys_trace s) = count_phases answered s"
  using assms(1)
proof (induction rule: ingest_reach.induct)
  case start
  then show ?case by (simp add: ingest_init_def count_phases_def assms(2))
next
  case (step s t)
  from step.hyps(2) step.IH show ?case
  proof (cases rule: ingest_step.cases)
    case (read_rejected i p r resp es)
    then show ?thesis
      using step.IH readRequest_rejected [of cd p r resp es] count_move [of i s answered "Finished (Some resp)" es]
      by (simp add: move_def count_phases_def)
  next
    case (slot_failed i p body ev resp es used')
    then show ?thesis
      using step.IH acquire_failed [of h p ev "sys_used s" resp es used'] count_move [of i s answered "Finished resp" es]
      by (simp add: move_def count_phases_def)
  next
    case (work i p body resp es st')
    then show ?thesis
      using step.IH work_ok [of "sys_state s" cd p body resp es st'] count_move [of i s answered "Replied (Some resp)" es]
      by (simp add: move_def count_phases_def)
  next
    case (read_done i p r body)
    then show ?thesis
      using step.IH count_move [of i s answered "Waiting p body" "[]"] by (simp add: move_def count_phases_def)
  next
    case (slot_taken i p body ev used')
    then show ?thesis
      using step.IH count_move [of i s answered "Holding p body" "[]"] by (simp add: move_def count_phases_def)
  next
    case (finish i resp)
    then show ?thesis
      using step.IH count_move [of i s answered "Finished resp" "[]"] by (simp add: move_def count_phases_def)
  next
    case (arrive p r)
    then show ?thesis using step.IH by (simp add: count_phases_def)
  qed
qed

end

lemma LogSink_logs:
  "accept_of LogSink p m st = (e, es, st') \<Longrightarrow> e = None \<and> st' = st \<and> (\<exists>msg as. es = [LogLine LInfo msg as])"
  by (cases p)
    (auto simp: LogSink_def LogSink_AcceptDeltaBatch_def LogSink_AcceptManifest_def
      LogSink_AcceptStaticBaseline_def)

interpretation logsink: sink_contract LogSink "\<lambda>st. True"
  by unfold_locales (auto dest!: LogSink_logs)

section \<open>Lemmas: the decode slots\<close>

definition slots_inv :: "handler \<Rightarrow> 's ingest_sys \<Rightarrow> bool" where
  "slots_inv h s \<longleftrightarrow>
     (\<forall>n. h_slots h = Some n \<longrightarrow> sys_used s = count_phases holds_slot s \<and> sys_used s \<le> n)"

lemma slots_step:
  assumes "ingest_step cd h snk s t" and "slots_inv h s"
  shows "slots_inv h t"
  using assms(1)
proof (cases rule: ingest_step.cases)
  case (slot_taken i p body ev used')
  then show ?thesis
    using assms(2) acquire_held [OF slot_taken(4)] count_move [of i s holds_slot "Holding p body" "[]"]
    by (auto simp: slots_inv_def move_def count_phases_def)
next
  case (slot_failed i p body ev resp es used')
  then show ?thesis
    using assms(2) acquire_failed [OF slot_failed(4)] count_move [of i s holds_slot "Finished resp" es]
    by (auto simp: slots_inv_def move_def count_phases_def)
next
  case (work i p body resp es st')
  then show ?thesis
    using assms(2) count_move [of i s holds_slot "Replied (Some resp)" es]
    by (auto simp: slots_inv_def move_def count_phases_def)
next
  case (finish i resp)
  then show ?thesis
    using assms(2) count_move [of i s holds_slot "Finished resp" "[]"]
    by (auto simp: slots_inv_def move_def count_phases_def release_slot_def)
next
  case (read_rejected i p r resp es)
  then show ?thesis
    using assms(2) count_move [of i s holds_slot "Finished (Some resp)" es]
    by (auto simp: slots_inv_def move_def count_phases_def)
next
  case (read_done i p r body)
  then show ?thesis
    using assms(2) count_move [of i s holds_slot "Waiting p body" "[]"]
    by (auto simp: slots_inv_def move_def count_phases_def)
next
  case (arrive p r)
  then show ?thesis using assms(2) by (auto simp: slots_inv_def count_phases_def)
qed

lemma slots_reach: "ingest_reach cd h snk st0 s \<Longrightarrow> slots_inv h s"
proof (induction rule: ingest_reach.induct)
  case start
  then show ?case by (simp add: slots_inv_def ingest_init_def count_phases_def)
next
  case (step s t)
  then show ?case by (blast intro: slots_step)
qed

section \<open>A concrete request\<close>

text \<open>
  The delta batch of the README's example: service \<^verbatim>\<open>demo\<close>, instance \<^verbatim>\<open>i1\<close>, run \<^verbatim>\<open>r1\<close>, no deltas. The
  codec decodes one body to it and refuses every other one. The witnesses evaluate on these.
\<close>

definition demo_resource :: pbmsg where
  "demo_resource =
     PbMsg [(''service_name'', VScalar (SStr ''demo'')),
            (''service_instance_id'', VScalar (SStr ''i1'')),
            (''run_id'', VScalar (SStr ''r1''))] []"

definition demo_batch :: pbmsg where
  "demo_batch = PbMsg [(''resource'', VMsg demo_resource)] []"

definition demo_codec :: codec where
  "demo_codec =
     \<lparr>unmarshal_msg = (\<lambda>k body. if body = ''batch'' then Inr demo_batch else Inl (ErrText ''bad'')),
      parse_media_type = Some\<rparr>"

definition demo_request :: request where
  "demo_request =
     \<lparr>req_method = ''POST'', req_path = DeltaBatchPath,
      req_headers = [(''Content-Type'', ''application/x-protobuf'')],
      req_remote = ''10.0.0.1:5000'', req_data = ''batch'', req_fails = False\<rparr>"

lemma demo_fields:
  "GetResource demo_batch = Some demo_resource"
  "GetServiceName (Some demo_resource) = ''demo''"
  "GetServiceNamespace (Some demo_resource) = []"
  "GetServiceInstanceId (Some demo_resource) = ''i1''"
  "GetRunId (Some demo_resource) = ''r1''"
  "GetEnvironment (Some demo_resource) = []"
  by (simp_all add: GetResource_def get_msg_def field_def demo_batch_def demo_resource_def
      resource_getters get_str_def)

lemma trim_demo: "trim_space ''demo'' = ''demo''"
  by code_simp

lemma demo_valid: "validateDeltaBatch demo_batch = None"
  by (simp add: validateDeltaBatch_def validateResource_None demo_fields trim_demo isDotSegment_def)

lemma demo_read: "readRequest demo_codec (kind_of p) demo_request = Inr ''batch''"
  by (simp add: readRequest_def checkContentType_def readBody_def demo_request_def demo_codec_def
      header_values_def header_get_def encoding_ok_def equal_fold_def lower_char_def contentType_def maxBodyBytes_def)

section \<open>Properties\<close>

text \<open>
  C20: the agent is told 202 exactly when the sink took its payload. A request is answered 202 if and
  only if its body was read, a decode slot was held, the body decoded, the payload passed
  validation, and the sink's accept method returned no error.
\<close>

theorem ack_iff_taken:
  assumes "handle_payload cd h snk p r ev used st = Some ((resp, es, st'), used')"
  shows "map_option resp_status resp = Some 202 \<longleftrightarrow>
    (\<exists>body msg es0. readRequest cd (kind_of p) r = Inr body \<and>
       fst (acquire h (kind_of p) ev used) = SlotHeld \<and>
       unmarshal_msg cd (kind_of p) body = Inr msg \<and> validator_of p msg = None \<and>
       accept_of snk p msg st = (None, es0, st'))"
  using assms unfolding handle_payload_def
proof (cases rule: handle_cases)
  case (unread rs)
  then show ?thesis using readRequest_rejected [OF unread(1)] by auto
next
  case (no_slot body u)
  then show ?thesis using acquire_failed [OF no_slot(2)] by auto
next
  case (held body u rs)
  from held(3) show ?thesis
    by (cases rule: decode_and_accept_cases) (use held in auto)
qed

theorem ack_iff_taken_witness:
  "map_option resp_status (Some (write_header 202 [])) = Some 202 \<longleftrightarrow>
    (\<exists>body msg es0. readRequest demo_codec (kind_of DeltaBatch) demo_request = Inr body \<and>
       fst (acquire (NewHandler [WithMaxConcurrentDecodes 1]) (kind_of DeltaBatch) TakeSlot 0) = SlotHeld \<and>
       unmarshal_msg demo_codec (kind_of DeltaBatch) body = Inr msg \<and> validator_of DeltaBatch msg = None \<and>
       accept_of LogSink DeltaBatch msg () = (None, es0, ()))"
proof -
  obtain es where "handle_payload demo_codec (NewHandler [WithMaxConcurrentDecodes 1]) LogSink DeltaBatch
      demo_request TakeSlot 0 () = Some ((Some (write_header 202 []), es, ()), 0)"
    unfolding handle_payload_def handle_def demo_read
    by (simp add: NewHandler_def WithMaxConcurrentDecodes_def acquire_def release_slot_def
        decode_and_accept_def unmarshal_def demo_codec_def demo_valid LogSink_def LogSink_AcceptDeltaBatch_def)
  then show ?thesis by (rule ack_iff_taken)
qed

text \<open>
  No invalid payload reaches the sink. Two sinks that agree on the payloads that pass
  validation are indistinguishable behind the handler.
\<close>

theorem sink_sees_only_valid:
  assumes "\<forall>m st. validator_of p m = None \<longrightarrow> accept_of snk p m st = accept_of snk' p m st"
  shows "handle_payload cd h snk p r ev used st = handle_payload cd h snk' p r ev used st"
proof -
  have eq: "decode_and_accept cd (kind_of p) (validator_of p) (accept_of snk p) body st =
        decode_and_accept cd (kind_of p) (validator_of p) (accept_of snk' p) body st" for body
    using assms by (auto simp: decode_and_accept_def split: sum.splits option.splits)
  show ?thesis unfolding handle_payload_def handle_def eq ..
qed

theorem sink_sees_only_valid_witness:
  "handle_payload demo_codec (NewHandler []) LogSink DeltaBatch demo_request TakeSlot 0 () =
   handle_payload demo_codec (NewHandler [])
     (LogSink\<lparr>AcceptDeltaBatch := (\<lambda>m st. if validateDeltaBatch m = None then AcceptDeltaBatch LogSink m st
                                           else (Some (ErrText ''never''), [], st))\<rparr>)
     DeltaBatch demo_request TakeSlot 0 ()"
  by (rule sink_sees_only_valid) simp

text \<open>
  C30: at most as many requests as there are slots decode at one time, in every interleaving, and the
  slot count is exact: no request leaks its slot.
\<close>

theorem decode_cap:
  assumes "ingest_reach cd h snk st0 s" and "h_slots h = Some n"
  shows "count_phases holds_slot s \<le> n \<and> sys_used s = count_phases holds_slot s"
  using slots_reach [OF assms(1)] assms(2) by (simp add: slots_inv_def)

theorem decode_cap_witness:
  "\<exists>s :: unit ingest_sys. sys_reqs s = [Holding DeltaBatch ''batch''] \<and>
     count_phases holds_slot s \<le> 1 \<and> sys_used s = count_phases holds_slot s"
proof -
  let ?h = "NewHandler [WithMaxConcurrentDecodes 1]"
  let ?s0 = "ingest_init () :: unit ingest_sys"
  let ?s1 = "?s0\<lparr>sys_reqs := sys_reqs ?s0 @ [Reading DeltaBatch demo_request]\<rparr>"
  let ?s2 = "move 0 (Waiting DeltaBatch ''batch'') [] ?s1"
  let ?s3 = "(move 0 (Holding DeltaBatch ''batch'') [] ?s2)\<lparr>sys_used := 1\<rparr>"
  have "ingest_step demo_codec ?h LogSink ?s0 ?s1" by (rule ingest_step.arrive)
  moreover have "ingest_step demo_codec ?h LogSink ?s1 ?s2"
    by (rule ingest_step.read_done [OF _ _ demo_read]) (simp_all add: ingest_init_def)
  moreover have "ingest_step demo_codec ?h LogSink ?s2 ?s3"
    by (rule ingest_step.slot_taken [where ev = TakeSlot])
      (simp_all add: ingest_init_def move_def NewHandler_def WithMaxConcurrentDecodes_def acquire_def)
  ultimately have "ingest_reach demo_codec ?h LogSink () ?s3"
    by (meson ingest_reach.intros)
  from decode_cap [OF this, of 1] show ?thesis
    by (intro exI [of _ ?s3]) (simp add: ingest_init_def move_def NewHandler_def WithMaxConcurrentDecodes_def)
qed

text \<open>
  A static baseline chunk is taken only when it can be attributed and placed: its resource names
  a service (neither blank nor a dot segment), an instance and a run, its scan time is set, and its
  index lies within its chunk count. Nothing else is rejected.
\<close>

theorem static_baseline_valid:
  "validateStaticBaseline b = None \<longleftrightarrow>
     (\<exists>res. GetResource b = Some res \<and>
        trim_space (GetServiceName (Some res)) \<notin> {[], ''.'', ''..''} \<and>
        trim_space (GetServiceNamespace (Some res)) \<notin> {''.'', ''..''} \<and>
        GetServiceInstanceId (Some res) \<noteq> [] \<and> GetRunId (Some res) \<noteq> []) \<and>
     0 < get_int ''scanned_at'' (Some b) \<and>
     0 \<le> get_int ''chunk_index'' (Some b) \<and>
     get_int ''chunk_index'' (Some b) < get_int ''chunk_count'' (Some b)"
  using validateResource_None [of "GetResource b"]
  by (auto simp: validateStaticBaseline_def isDotSegment_def split: option.splits if_splits)

end
