(* ===== verification/Float64.thy ===== *)
theory Float64
  imports Go_Prelude
begin

text \<open>
  Go's \<^verbatim>\<open>float64\<close>, as far as durations need it. A finite float is a pair \<open>(m, k)\<close> that stands for
  \<open>m / 2 ^ k\<close>, and every operation rounds its exact result to 53 significant bits, to the nearest and
  to the even one on a tie. Durations are far from the exponent limits of a float64, so neither overflow
  nor subnormal numbers occur.
\<close>

section \<open>Floating point\<close>

type_synonym f64 = "int \<times> nat"

fun bit_len :: "int \<Rightarrow> nat" where
  "bit_len n = (if n \<le> 0 then 0 else Suc (bit_len (n div 2)))"

declare bit_len.simps [simp del]

text \<open>A non-negative integer rounded to 53 significant bits, ties to even.\<close>

definition round53 :: "int \<Rightarrow> int" where
  "round53 n =
     (if bit_len n \<le> 53 then n
      else
        (let sh = bit_len n - 53;
             q = n div 2 ^ sh;
             r = n mod 2 ^ sh;
             half = 2 ^ (sh - 1)
         in (if r > half \<or> (r = half \<and> odd q) then q + 1 else q) * 2 ^ sh))"

definition f64_round :: "f64 \<Rightarrow> f64" where
  "f64_round x = (case x of (m, k) \<Rightarrow> (sgn m * round53 \<bar>m\<bar>, k))"

definition f64_of_int :: "int \<Rightarrow> f64" where
  "f64_of_int i = f64_round (i, 0)"

definition f64_mul :: "f64 \<Rightarrow> f64 \<Rightarrow> f64" where
  "f64_mul x y = (case (x, y) of ((a, i), (b, j)) \<Rightarrow> f64_round (a * b, i + j))"

definition f64_add :: "f64 \<Rightarrow> f64 \<Rightarrow> f64" where
  "f64_add x y = (case (x, y) of ((a, i), (b, j)) \<Rightarrow> f64_round (a * 2 ^ j + b * 2 ^ i, i + j))"

definition f64_sub :: "f64 \<Rightarrow> f64 \<Rightarrow> f64" where
  "f64_sub x y = (case y of (b, j) \<Rightarrow> f64_add x (- b, j))"

text \<open>
  The conversion \<^verbatim>\<open>time.Duration(x)\<close> truncates towards zero. For a value outside the range of an
  \<^verbatim>\<open>int64\<close> the language leaves the result to the implementation; the model has what amd64 gives.
\<close>

definition f64_to_int64 :: "f64 \<Rightarrow> int" where
  "f64_to_int64 x =
     (case x of (m, k) \<Rightarrow>
        (let t = sgn m * (\<bar>m\<bar> div 2 ^ k) in if in_int64 t then t else - (2 ^ 63)))"

text \<open>
  The quotient of two positive integers that are floats themselves: 120 fractional bits of it and one bit that says
  whether anything is left decide the rounding to 53 bits.
\<close>

definition f64_div :: "int \<Rightarrow> int \<Rightarrow> f64" where
  "f64_div a b =
     f64_round (2 * (a * 2 ^ 120 div b) + (if a * 2 ^ 120 mod b = 0 then 0 else 1), 121)"

definition f64_ceil :: "f64 \<Rightarrow> int" where
  "f64_ceil x = (case x of (m, k) \<Rightarrow> - ((- m) div 2 ^ k))"

section \<open>Lemmas: rounding\<close>

lemma bit_len_0 [simp]: "n \<le> 0 \<Longrightarrow> bit_len n = 0"
  by (simp add: bit_len.simps)

lemma bit_len_bounds: "0 < n \<Longrightarrow> 2 ^ (bit_len n - 1) \<le> n \<and> n < 2 ^ bit_len n \<and> 0 < bit_len n"
proof (induction n rule: bit_len.induct)
  case (1 n)
  show ?case
  proof (cases "n = 1")
    case False
    with "1.prems" have "0 < n div 2" by simp
    with "1" have IH: "2 ^ (bit_len (n div 2) - 1) \<le> n div 2" "n div 2 < 2 ^ bit_len (n div 2)"
      "0 < bit_len (n div 2)" by simp_all
    have step: "bit_len n = Suc (bit_len (n div 2))" using "1.prems" by (simp add: bit_len.simps [of n])
    have "2 * 2 ^ (bit_len (n div 2) - 1) = (2 :: int) ^ bit_len (n div 2)"
      using IH(3) by (cases "bit_len (n div 2)") simp_all
    then have "2 ^ bit_len (n div 2) \<le> n" "n < 2 * 2 ^ bit_len (n div 2)"
      using IH(1,2) by linarith+
    then show ?thesis using step by simp
  qed (simp add: bit_len.simps)
qed

lemma bit_len_unique:
  assumes "0 < n" and "2 ^ k \<le> n" and "n < 2 ^ Suc k"
  shows "bit_len n = Suc k"
proof -
  have b: "2 ^ (bit_len n - 1) \<le> n" "n < 2 ^ bit_len n" "0 < bit_len n"
    using bit_len_bounds [OF assms(1)] by simp_all
  have "(2::int) ^ k < 2 ^ bit_len n" using assms(2) b(2) by linarith
  then have "k < bit_len n" by simp
  moreover have "(2::int) ^ (bit_len n - 1) < 2 ^ Suc k" using assms(3) b(1) by linarith
  then have "bit_len n - 1 < Suc k" by (simp only: power_strict_increasing_iff)
  ultimately show ?thesis by simp
qed

lemma bit_len_mono: "m \<le> n \<Longrightarrow> bit_len m \<le> bit_len n"
proof (cases "0 < m")
  case True
  assume "m \<le> n"
  with True have m: "2 ^ (bit_len m - 1) \<le> m" "0 < bit_len m" and n: "n < 2 ^ bit_len n"
    using bit_len_bounds [of m] bit_len_bounds [of n] by simp_all
  then have "(2::int) ^ (bit_len m - 1) < 2 ^ bit_len n" using \<open>m \<le> n\<close> by linarith
  then have "bit_len m - 1 < bit_len n" by simp
  with m(2) show ?thesis by simp
qed simp

lemma bit_len_shift: "0 < a \<Longrightarrow> bit_len (a * 2 ^ e) = bit_len a + e"
proof -
  assume a: "0 < a"
  then obtain k where k: "bit_len a = Suc k" using bit_len_bounds [of a] by (cases "bit_len a") auto
  have b: "2 ^ k \<le> a" "a < 2 ^ Suc k" using bit_len_bounds [OF a] k by simp_all
  have "bit_len (a * 2 ^ e) = Suc (k + e)"
  proof (rule bit_len_unique)
    show "2 ^ (k + e) \<le> a * 2 ^ e" using b(1) by (simp add: power_add)
    have "a * 2 ^ e < 2 ^ Suc k * 2 ^ e" using b(2) by (intro mult_strict_right_mono) simp_all
    then show "a * 2 ^ e < 2 ^ Suc (k + e)" by (simp add: power_add)
  qed (use a in simp)
  with k show ?thesis by simp
qed

lemma round53_dvd: "2 ^ (bit_len n - 53) dvd n \<Longrightarrow> round53 n = n"
  by (auto simp: round53_def Let_def)

lemma round53_exact:
  assumes "0 \<le> a" and "a < 2 ^ 53"
  shows "round53 (a * 2 ^ e) = a * 2 ^ e"
proof (cases "a = 0")
  case False
  with assms(1) have a: "0 < a" by simp
  then have "(2::int) ^ (bit_len a - 1) < 2 ^ 53" using bit_len_bounds [OF a] assms(2) by linarith
  then have "bit_len a - 1 < 53" by (rule power_less_imp_less_exp [rotated]) simp
  then have "bit_len a \<le> 53" by simp
  then have "bit_len (a * 2 ^ e) - 53 \<le> e" using bit_len_shift [OF a, of e] by simp
  then have "(2::int) ^ (bit_len (a * 2 ^ e) - 53) dvd 2 ^ e" by (rule le_imp_power_dvd)
  then show ?thesis by (intro round53_dvd) (simp add: dvd_mult)
qed (simp add: round53_def)

lemma round53_id: "0 \<le> a \<Longrightarrow> a < 2 ^ 53 \<Longrightarrow> round53 a = a"
  using round53_exact [of a 0] by simp

text \<open>The shape of a rounded number that needs rounding: its leading bits, possibly plus one.\<close>

lemma round53_shape:
  assumes "0 < n" and "53 < bit_len n"
  obtains q r sh where "sh = bit_len n - 53" "n = q * 2 ^ sh + r" "0 \<le> r" "r < 2 ^ sh"
    "2 ^ 52 \<le> q" "q < 2 ^ 53"
    "round53 n = (if r > 2 ^ (sh - 1) \<or> (r = 2 ^ (sh - 1) \<and> odd q) then q + 1 else q) * 2 ^ sh"
proof -
  define sh where "sh = bit_len n - 53"
  define q where "q = n div 2 ^ sh"
  define r where "r = n mod 2 ^ sh"
  have b: "2 ^ (52 + sh) \<le> n" "n < 2 ^ (53 + sh)"
    using bit_len_bounds [OF assms(1)] assms(2) by (simp_all add: sh_def)
  have n: "n = q * 2 ^ sh + r" "0 \<le> r" "r < 2 ^ sh"
    using div_mult_mod_eq [of n "2 ^ sh"] by (simp_all add: q_def r_def)
  have "2 ^ 52 * 2 ^ sh \<le> n" using b(1) by (simp add: power_add)
  then have "2 ^ 52 * 2 ^ sh < (q + 1) * 2 ^ sh" using n unfolding distrib_right by linarith
  then have "2 ^ 52 < q + 1" by (rule mult_right_less_imp_less) simp
  then have q1: "2 ^ 52 \<le> q" by simp
  have "n < 2 ^ 53 * 2 ^ sh" using b(2) by (simp add: power_add)
  then have "q * 2 ^ sh < 2 ^ 53 * 2 ^ sh" using n by linarith
  then have q2: "q < 2 ^ 53" by (rule mult_right_less_imp_less) simp
  have "round53 n = (if r > 2 ^ (sh - 1) \<or> (r = 2 ^ (sh - 1) \<and> odd q) then q + 1 else q) * 2 ^ sh"
    using assms(2) by (simp add: round53_def Let_def q_def r_def sh_def)
  with that [OF sh_def n q1 q2] show thesis by blast
qed

lemma round53_range:
  assumes "0 < n"
  shows "2 ^ (bit_len n - 1) \<le> round53 n \<and> round53 n \<le> 2 ^ bit_len n"
proof (cases "53 < bit_len n")
  case True
  obtain q r :: int and sh where
    sh: "sh = bit_len n - 53" and q: "2 ^ 52 \<le> q" "q < 2 ^ 53"
    and rd: "round53 n = (if r > 2 ^ (sh - 1) \<or> (r = 2 ^ (sh - 1) \<and> odd q) then q + 1 else q) * 2 ^ sh"
    by (rule round53_shape [OF assms True])
  define c where "c = (if r > 2 ^ (sh - 1) \<or> (r = 2 ^ (sh - 1) \<and> odd q) then q + 1 else q)"
  have c: "2 ^ 52 \<le> c" "c \<le> 2 ^ 53" using q by (auto simp: c_def)
  have "2 ^ 52 * 2 ^ sh \<le> c * 2 ^ sh" "c * 2 ^ sh \<le> 2 ^ 53 * 2 ^ sh"
    using c by (intro mult_right_mono; simp)+
  moreover have "(2::int) ^ (bit_len n - 1) = 2 ^ 52 * 2 ^ sh" "(2::int) ^ bit_len n = 2 ^ 53 * 2 ^ sh"
  proof -
    have "bit_len n - 1 = 52 + sh" "bit_len n = 53 + sh" using True sh by simp_all
    then show "(2::int) ^ (bit_len n - 1) = 2 ^ 52 * 2 ^ sh" "(2::int) ^ bit_len n = 2 ^ 53 * 2 ^ sh"
      by (simp_all only: power_add)
  qed
  ultimately show ?thesis using rd by (simp add: c_def)
next
  case False
  then have "round53 n = n" by (simp add: round53_def)
  then show ?thesis using bit_len_bounds [OF assms] by auto
qed

lemma round53_mono:
  assumes "0 \<le> m" and "m \<le> n"
  shows "round53 m \<le> round53 n"
proof (cases "m = 0")
  case True
  then show ?thesis using assms round53_range [of n] round53_id [of 0]
    by (cases "n = 0") (auto intro: order_trans [of _ "2 ^ (bit_len n - 1)"])
next
  case False
  with assms have pos: "0 < m" "0 < n" by simp_all
  consider "bit_len m < bit_len n" | "bit_len m = bit_len n" using bit_len_mono [OF assms(2)] by linarith
  then show ?thesis
  proof cases
    case 1
    then have "(2::int) ^ bit_len m \<le> 2 ^ (bit_len n - 1)" by (intro power_increasing) simp_all
    then show ?thesis using round53_range [OF pos(1)] round53_range [OF pos(2)] by linarith
  next
    case same: 2
    show ?thesis
    proof (cases "53 < bit_len m")
      case True
      obtain q r :: int and sh where m: "sh = bit_len m - 53" "m = q * 2 ^ sh + r" "0 \<le> r" "r < 2 ^ sh"
        "round53 m = (if r > 2 ^ (sh - 1) \<or> (r = 2 ^ (sh - 1) \<and> odd q) then q + 1 else q) * 2 ^ sh"
        by (rule round53_shape [OF pos(1) True])
      obtain q' r' :: int and sh' where n': "sh' = bit_len n - 53" "n = q' * 2 ^ sh' + r'" "0 \<le> r'" "r' < 2 ^ sh'"
        "round53 n = (if r' > 2 ^ (sh' - 1) \<or> (r' = 2 ^ (sh' - 1) \<and> odd q') then q' + 1 else q') * 2 ^ sh'"
        by (rule round53_shape [OF pos(2) True [unfolded same]])
      have sh': "sh' = sh" using m(1) n'(1) same by simp
      note n = n'(2-5) [unfolded sh']
      have "q * 2 ^ sh < (q' + 1) * 2 ^ sh"
        using assms(2) m(2,3) n(1,3) unfolding distrib_right by linarith
      then have "q < q' + 1" by (rule mult_right_less_imp_less) simp
      then have "q \<le> q'" by simp
      moreover have "r \<le> r'" if "q = q'" using that assms(2) m(2) n(1) by simp
      ultimately have "(if r > 2 ^ (sh - 1) \<or> (r = 2 ^ (sh - 1) \<and> odd q) then q + 1 else q)
          \<le> (if r' > 2 ^ (sh - 1) \<or> (r' = 2 ^ (sh - 1) \<and> odd q') then q' + 1 else q')"
        by (cases "q = q'") auto
      then show ?thesis unfolding m(5) n(4) by (intro mult_right_mono) simp_all
    qed (use same assms in \<open>simp add: round53_def\<close>)
  qed
qed

lemma f64_round_nonneg: "0 \<le> m \<Longrightarrow> f64_round (m, k) = (round53 m, k)"
  by (cases "m = 0") (simp_all add: f64_round_def round53_def sgn_if)

lemma f64_round_exact:
  assumes "\<bar>a\<bar> < 2 ^ 53"
  shows "f64_round (a * 2 ^ e, k) = (a * 2 ^ e, k)"
proof -
  have "round53 (\<bar>a\<bar> * 2 ^ e) = \<bar>a\<bar> * 2 ^ e" using assms by (intro round53_exact) simp_all
  moreover have "sgn (a * 2 ^ e) = sgn a" by (simp add: sgn_mult)
  moreover have "sgn a * \<bar>a\<bar> = a" by (rule sgn_mult_abs)
  ultimately show ?thesis by (simp add: f64_round_def abs_mult flip: mult.assoc)
qed

end
