(* ===== verification/Backoff.thy ===== *)
theory Backoff
  imports Float64
begin

text \<open>
  \<^verbatim>\<open>internal/forward/backoff.go\<close>: the retry backoff and the \<^verbatim>\<open>Retry-After\<close> header.

  Times and durations are nanoseconds as \<^typ>\<open>int\<close>, with Go's 64-bit wrap-around written out. The
  two places that compute in \<^verbatim>\<open>float64\<close> are modelled exactly, with the operations of \<open>Float64\<close>. The
  injected clock and random source of \<^verbatim>\<open>backoff\<close> are arguments: the current time, and the numerator \<open>j\<close> of the random value \<open>j / 2 ^ 53\<close>.
\<close>

section \<open>The backoff\<close>

definition backoffMultiplier :: f64 where
  "backoffMultiplier = (3, 1)"

definition jitterFactor :: f64 where
  "jitterFactor = (1, 1)"

record backoff =
  bo_interval :: int
  bo_max :: int
  bo_max_elapsed :: int
  bo_start :: int

definition newBackoff :: "int \<Rightarrow> int \<Rightarrow> int \<Rightarrow> int \<Rightarrow> backoff" where
  "newBackoff initial maxInterval maxElapsed now =
     \<lparr>bo_interval = (if initial > maxInterval then maxInterval else initial),
      bo_max = maxInterval, bo_max_elapsed = maxElapsed, bo_start = now\<rparr>"

text \<open>\<^verbatim>\<open>time.Time.Sub\<close> saturates at the ends of the \<^verbatim>\<open>int64\<close> range.\<close>

definition time_sub :: "int \<Rightarrow> int \<Rightarrow> int" where
  "time_sub t u = max (- (2 ^ 63)) (min (2 ^ 63 - 1) (t - u))"

definition spread :: "int \<Rightarrow> f64" where
  "spread j =
     f64_add (1, 0)
       (f64_mul jitterFactor (f64_sub (f64_mul (2, 0) (j, 53)) (1, 0)))"

definition jittered :: "int \<Rightarrow> int \<Rightarrow> int" where
  "jittered j d = f64_to_int64 (f64_mul (f64_of_int d) (spread j))"

text \<open>\<^verbatim>\<open>next\<close>: the wait, or \<open>None\<close> once the budget is spent, and the backoff after the call.\<close>

definition backoff_next :: "int \<Rightarrow> int \<Rightarrow> int \<Rightarrow> backoff \<Rightarrow> int option \<times> backoff" where
  "backoff_next now j hint b =
     (let elapsed = time_sub now (bo_start b) in
      if elapsed \<ge> bo_max_elapsed b then (None, b)
      else
        (let wait0 = jittered j (bo_interval b);
             wait1 = (if hint > wait0 then hint else wait0);
             wait2 = (if wrap64 (elapsed + wait1) > bo_max_elapsed b
                      then wrap64 (bo_max_elapsed b - elapsed) else wait1);
             interval1 = f64_to_int64 (f64_mul (f64_of_int (bo_interval b)) backoffMultiplier);
             interval2 = (if interval1 > bo_max b then bo_max b else interval1)
         in (Some wait2, b\<lparr>bo_interval := interval2\<rparr>)))"

text \<open>
  \<^verbatim>\<open>parseRetryAfter\<close> on the header's value. \<open>parse_time\<close> is \<^verbatim>\<open>http.ParseTime\<close>: the time an HTTP date
  names, \<open>None\<close> for anything else.
\<close>

definition parseRetryAfter :: "(string \<Rightarrow> int option) \<Rightarrow> string \<Rightarrow> int \<Rightarrow> int" where
  "parseRetryAfter parse_time v now =
     (if v = [] then 0
      else
        (case atoi v of
           Some secs \<Rightarrow> (if secs \<le> 0 then 0 else wrap64 (secs * 10 ^ 9))
         | None \<Rightarrow>
             (case parse_time v of
                Some at \<Rightarrow> (let d = time_sub at now in if d > 0 then d else 0)
              | None \<Rightarrow> 0)))"

section \<open>Lemmas: jitter and growth\<close>

lemma spread_eq:
  assumes "0 \<le> j" and "j < 2 ^ 53"
  shows "spread j = (round53 (2 ^ 53 + 2 * j), 54)"
proof -
  have double: "f64_mul (2, 0) (j, 53) = (2 * j, 53)"
    using f64_round_exact [of j 1 53] assms by (simp add: f64_mul_def mult.commute)
  have "f64_round ((j - 2 ^ 52) * 2 ^ 1, k) = ((j - 2 ^ 52) * 2 ^ 1, k)" for k
    by (rule f64_round_exact) (use assms in simp)
  then have r: "f64_round (2 * j - 2 ^ 53, k) = (2 * j - 2 ^ 53, k)" for k
    by (simp add: algebra_simps)
  have centred: "f64_sub (2 * j, 53) (1, 0) = (2 * j - 2 ^ 53, 53)"
    using r [of 53] by (simp add: f64_sub_def f64_add_def)
  have halved: "f64_mul jitterFactor (2 * j - 2 ^ 53, 53) = (2 * j - 2 ^ 53, 54)"
    using r [of 54] by (simp add: f64_mul_def jitterFactor_def)
  have "f64_add (1, 0) (2 * j - 2 ^ 53, 54) = f64_round (2 ^ 53 + 2 * j, 54)"
    by (simp add: f64_add_def algebra_simps)
  then show ?thesis
    unfolding spread_def double centred halved using assms by (simp add: f64_round_nonneg)
qed

lemma spread_range:
  assumes "0 \<le> j" and "j < 2 ^ 53"
  shows "2 ^ 53 \<le> fst (spread j) \<and> fst (spread j) \<le> 3 * 2 ^ 53"
proof -
  have "round53 (1 * 2 ^ 53) = 1 * 2 ^ 53" "round53 (3 * 2 ^ 53) = 3 * 2 ^ 53"
    by (rule round53_exact; simp)+
  moreover have "round53 (2 ^ 53) \<le> round53 (2 ^ 53 + 2 * j)" "round53 (2 ^ 53 + 2 * j) \<le> round53 (3 * 2 ^ 53)"
    using assms by (intro round53_mono; simp)+
  ultimately show ?thesis using assms by (simp add: spread_eq)
qed

lemma jittered_eq:
  assumes "0 \<le> j" "j < 2 ^ 53" "0 \<le> d" "d < 2 ^ 51"
  shows "jittered j d = round53 (d * fst (spread j)) div 2 ^ 54"
    and "d div 2 \<le> round53 (d * fst (spread j)) div 2 ^ 54"
    and "round53 (d * fst (spread j)) div 2 ^ 54 \<le> 3 * d div 2"
proof -
  let ?s = "fst (spread j)" and ?p = "round53 (d * fst (spread j))"
  have s: "2 ^ 53 \<le> ?s" "?s \<le> 3 * 2 ^ 53" and sp: "spread j = (?s, 54)"
    using spread_range [OF assms(1,2)] spread_eq [OF assms(1,2)] by simp_all
  have "d * 2 ^ 53 \<le> d * ?s" "d * ?s \<le> 3 * d * 2 ^ 53"
    using s assms(3) mult_left_mono [of "2 ^ 53" ?s d] mult_left_mono [of ?s "3 * 2 ^ 53" d] by simp_all
  then have "round53 (d * 2 ^ 53) \<le> ?p" "?p \<le> round53 (3 * d * 2 ^ 53)"
    using assms(3) by (intro round53_mono; simp)+
  moreover have "round53 (d * 2 ^ 53) = d * 2 ^ 53" "round53 (3 * d * 2 ^ 53) = 3 * d * 2 ^ 53"
    using assms(3,4) by (intro round53_exact; simp)+
  ultimately have lo: "d * 2 ^ 53 \<le> ?p" and hi: "?p \<le> 3 * d * 2 ^ 53" by simp_all
  have "d * 2 ^ 53 div 2 ^ 54 = d div 2" "3 * d * 2 ^ 53 div 2 ^ 54 = 3 * d div 2" by simp_all
  with zdiv_mono1 [OF lo, of "2 ^ 54"] zdiv_mono1 [OF hi, of "2 ^ 54"]
  show bounds: "d div 2 \<le> ?p div 2 ^ 54" "?p div 2 ^ 54 \<le> 3 * d div 2" by simp_all
  have "f64_of_int d = (d, 0)"
    using assms(3,4) by (simp add: f64_of_int_def f64_round_nonneg round53_id)
  then have "f64_mul (f64_of_int d) (spread j) = (?p, 54)"
    using assms(3) s(1) by (subst sp) (simp add: f64_mul_def f64_round_nonneg)
  moreover have "0 \<le> ?p"
  proof (rule order_trans [OF _ lo])
    show "0 \<le> d * 2 ^ 53" using assms(3) by simp
  qed
  moreover have "in_int64 (?p div 2 ^ 54)"
    using bounds assms(3,4) by (auto simp: in_int64_def)
  ultimately show "jittered j d = ?p div 2 ^ 54"
    unfolding jittered_def by (cases "?p = 0") (simp_all add: f64_to_int64_def sgn_if)
qed

lemma jittered_bounds:
  assumes "0 \<le> j" "j < 2 ^ 53" "0 \<le> d" "d < 2 ^ 51"
  shows "d div 2 \<le> jittered j d" "jittered j d \<le> 3 * d div 2"
  using jittered_eq [OF assms] by simp_all

lemma grown_interval:
  assumes "0 \<le> d" "d < 2 ^ 51"
  shows "f64_to_int64 (f64_mul (f64_of_int d) backoffMultiplier) = 3 * d div 2"
proof -
  have "f64_of_int d = (d, 0)" using assms by (simp add: f64_of_int_def f64_round_nonneg round53_id)
  moreover have "f64_round (d * 3, 1) = (d * 3, 1)" using f64_round_exact [of "d * 3" 0 1] assms by simp
  moreover have "in_int64 (d * 3 div 2)" using assms by (auto simp: in_int64_def)
  ultimately show ?thesis
    using assms
    by (cases "d = 0")
      (simp_all add: f64_mul_def backoffMultiplier_def f64_to_int64_def sgn_if mult.commute in_int64_def)
qed

text \<open>What a backoff keeps: an interval between 0 and the cap, both below 26 days, a budget below a year.\<close>

definition backoff_ok :: "backoff \<Rightarrow> bool" where
  "backoff_ok b \<longleftrightarrow>
     0 \<le> bo_interval b \<and> bo_interval b \<le> bo_max b \<and> bo_max b < 2 ^ 51 \<and>
     0 < bo_max_elapsed b \<and> bo_max_elapsed b < 2 ^ 55"

lemma backoff_ok_new:
  "0 < initial \<Longrightarrow> 0 < mx \<Longrightarrow> mx < 2 ^ 51 \<Longrightarrow> 0 < me \<Longrightarrow> me < 2 ^ 55 \<Longrightarrow> backoff_ok (newBackoff initial mx me now)"
  by (simp add: backoff_ok_def newBackoff_def)

lemma time_sub_id: "in_int64 (t - u) \<Longrightarrow> time_sub t u = t - u"
  by (simp add: time_sub_def in_int64_def)

lemma clipped_wait:
  "w = min (max h x) rest \<Longrightarrow> 0 \<le> x \<Longrightarrow> lo \<le> x \<Longrightarrow> 0 < rest \<Longrightarrow>
   0 \<le> w \<and> w \<le> rest \<and> (h \<le> w \<or> w = rest) \<and> (lo \<le> w \<or> w = rest)" for w :: int
  by (auto simp: min_def max_def)

text \<open>
  \<^verbatim>\<open>next\<close> for every hint. The sum of the elapsed time and the wait is taken in 64 bits: when it overflows, the wait is
  not cut.
\<close>

lemma backoff_next_any:
  assumes "backoff_ok b" "0 \<le> j" "j < 2 ^ 53" "bo_start b \<le> now" "hint < 2 ^ 63"
    and "backoff_next now j hint b = (w, b')"
  shows "backoff_ok b' \<and> bo_interval b \<le> bo_interval b' \<and> bo_start b' = bo_start b \<and>
    bo_max b' = bo_max b \<and> bo_max_elapsed b' = bo_max_elapsed b \<and>
    (w = None \<longleftrightarrow> bo_max_elapsed b \<le> now - bo_start b) \<and>
    (\<forall>wait. w = Some wait \<longrightarrow>
       wait = (if now - bo_start b + hint < 2 ^ 63
               then min (max hint (jittered j (bo_interval b))) (bo_max_elapsed b - (now - bo_start b)) else hint))"
proof -
  let ?e = "now - bo_start b" and ?i = "bo_interval b" and ?M = "bo_max_elapsed b"
  have i: "0 \<le> ?i" "?i < 2 ^ 51" and M: "0 < ?M" "?M < 2 ^ 55" using assms(1) by (simp_all add: backoff_ok_def)
  show ?thesis
  proof (cases "?M \<le> ?e")
    case True
    then have "?M \<le> time_sub now (bo_start b)" using M by (simp add: time_sub_def)
    then show ?thesis using True assms(1,6) by (auto simp: backoff_next_def)
  next
    case False
    have e: "time_sub now (bo_start b) = ?e" using assms(4) False M by (intro time_sub_id) (simp add: in_int64_def)
    let ?m = "max hint (jittered j ?i)"
    note jit = jittered_bounds [OF assms(2,3) i]
    have jr: "0 \<le> jittered j ?i" "jittered j ?i < 2 ^ 52" using jit i by simp_all
    have m: "(if hint > jittered j ?i then hint else jittered j ?i) = ?m" by simp
    have over: "?e + ?m < 2 ^ 63 \<longleftrightarrow> ?e + hint < 2 ^ 63" "?e + hint \<ge> 2 ^ 63 \<Longrightarrow> ?m = hint"
      using jr assms(4) False M by (auto simp: max_def)
    have cut: "(if wrap64 (?e + ?m) > ?M then wrap64 (?M - ?e) else ?m) = (if ?e + hint < 2 ^ 63 then min ?m (?M - ?e) else hint)"
    proof (cases "?e + hint < 2 ^ 63")
      case True
      have "wrap64 (?e + ?m) = ?e + ?m" using True over(1) jr assms(4) by (intro wrap64_id) (simp add: in_int64_def)
      moreover have "wrap64 (?M - ?e) = ?M - ?e" using assms(4) False M by (intro wrap64_id) (simp add: in_int64_def)
      ultimately show ?thesis using True by auto
    next
      case wraps: False
      let ?y = "?e + hint - 2 ^ 63"
      have "(?y + 2 ^ 64) mod 2 ^ 64 = ?y mod 2 ^ 64" by (rule mod_add_self2)
      also have "\<dots> = ?y" using wraps assms(5) False M by (intro mod_pos_pos_trivial) simp_all
      finally have "wrap64 (?e + hint) < 0" using assms(5) False M by (simp add: wrap64_def algebra_simps)
      then show ?thesis using wraps over(2) M(1) by simp
    qed
    have grow: "?i \<le> 3 * ?i div 2" using i(1) by simp
    have "backoff_next now j hint b =
        (Some (if ?e + hint < 2 ^ 63 then min ?m (?M - ?e) else hint), b\<lparr>bo_interval := min (3 * ?i div 2) (bo_max b)\<rparr>)"
      using False unfolding backoff_next_def Let_def e m cut grown_interval [OF i] by (simp add: min_def [of "3 * ?i div 2"])
    then show ?thesis using assms(1,6) grow i False by (auto simp: backoff_ok_def)
  qed
qed

lemma backoff_next_ok:
  assumes "backoff_ok b" "0 \<le> j" "j < 2 ^ 53" "bo_start b \<le> now" "now < bo_start b + 2 ^ 62" "hint < 2 ^ 62"
    and "backoff_next now j hint b = (w, b')"
  shows "backoff_ok b' \<and> bo_interval b \<le> bo_interval b' \<and> bo_start b' = bo_start b \<and>
    bo_max b' = bo_max b \<and> bo_max_elapsed b' = bo_max_elapsed b \<and>
    (w = None \<longleftrightarrow> bo_max_elapsed b \<le> now - bo_start b) \<and>
    (\<forall>wait. w = Some wait \<longrightarrow>
       wait = min (max hint (jittered j (bo_interval b))) (bo_max_elapsed b - (now - bo_start b)))"
proof -
  have "hint < 2 ^ 63" "now - bo_start b + hint < 2 ^ 63" using assms(5,6) by simp_all
  then show ?thesis using backoff_next_any [OF assms(1-4) _ assms(7)] by simp
qed

section \<open>Properties\<close>

text \<open>
  C35: the retry budget is kept, but for one overflow. For every hint of the server, a call of \<^verbatim>\<open>next\<close> gives up exactly
  when the budget is spent. While the elapsed time plus the hint is below \<open>2 ^ 63\<close> nanoseconds, the wait it returns
  is the larger of the hint and the jittered interval, cut to what is left of the budget, so that waiting it out
  never passes the budget; from there on the sum overflows, and the wait is the whole hint, which does pass it.
  The interval grows and stays below its cap. \<open>backoff_ok\<close> takes intervals below 26 days and a budget below 416.
\<close>

theorem backoff_budget:
  assumes "backoff_ok b" "0 \<le> j" "j < 2 ^ 53" "bo_start b \<le> now" "hint < 2 ^ 63"
    and "backoff_next now j hint b = (w, b')"
  shows "(w = None \<longleftrightarrow> bo_max_elapsed b \<le> now - bo_start b) \<and>
    (\<forall>wait. w = Some wait \<longrightarrow>
       0 \<le> wait \<and>
       (now - bo_start b + hint < 2 ^ 63 \<longrightarrow>
          (now + wait) - bo_start b \<le> bo_max_elapsed b \<and>
          (hint \<le> wait \<or> (now + wait) - bo_start b = bo_max_elapsed b) \<and>
          (bo_interval b div 2 \<le> wait \<or> (now + wait) - bo_start b = bo_max_elapsed b)) \<and>
       (2 ^ 63 \<le> now - bo_start b + hint \<longrightarrow> wait = hint \<and> bo_max_elapsed b < (now + wait) - bo_start b)) \<and>
    bo_interval b \<le> bo_interval b' \<and> bo_interval b' \<le> bo_max b \<and> backoff_ok b'"
proof -
  let ?x = "jittered j (bo_interval b)" and ?rest = "bo_max_elapsed b - (now - bo_start b)"
  note n = backoff_next_any [OF assms]
  have i: "0 \<le> bo_interval b" "bo_interval b < 2 ^ 51" and M: "bo_max_elapsed b < 2 ^ 55"
    using assms(1) by (simp_all add: backoff_ok_def)
  have x: "0 \<le> ?x" "bo_interval b div 2 \<le> ?x" using jittered_bounds(1) [OF assms(2,3) i] i(1) by simp_all
  have mx: "bo_interval b' \<le> bo_max b" using n by (auto simp: backoff_ok_def)
  have waits: "0 \<le> wait \<and>
       (now - bo_start b + hint < 2 ^ 63 \<longrightarrow>
          (now + wait) - bo_start b \<le> bo_max_elapsed b \<and>
          (hint \<le> wait \<or> (now + wait) - bo_start b = bo_max_elapsed b) \<and>
          (bo_interval b div 2 \<le> wait \<or> (now + wait) - bo_start b = bo_max_elapsed b)) \<and>
       (2 ^ 63 \<le> now - bo_start b + hint \<longrightarrow> wait = hint \<and> bo_max_elapsed b < (now + wait) - bo_start b)"
    if w: "w = Some wait" for wait
  proof -
    have rest: "0 < ?rest" and eq: "wait = (if now - bo_start b + hint < 2 ^ 63 then min (max hint ?x) ?rest else hint)"
      using n w by simp_all
    show ?thesis
    proof (cases "now - bo_start b + hint < 2 ^ 63")
      case True
      then show ?thesis using clipped_wait [of wait hint ?x ?rest "bo_interval b div 2"] eq rest x by auto
    next
      case False
      then show ?thesis using eq rest M assms(4) by simp
    qed
  qed
  show ?thesis using n mx waits by blast
qed

theorem backoff_budget_witness:
  "\<exists>wait b'. backoff_next (3 * 10 ^ 9) 0 (20 * 10 ^ 9) (newBackoff (5 * 10 ^ 9) (30 * 10 ^ 9) (10 * 10 ^ 9) 0) =
     (Some wait, b') \<and> wait = 7 * 10 ^ 9"
proof -
  let ?b = "newBackoff (5 * 10 ^ 9) (30 * 10 ^ 9) (10 * 10 ^ 9) 0"
  obtain w b' where n: "backoff_next (3 * 10 ^ 9) 0 (20 * 10 ^ 9) ?b = (w, b')" by (metis prod.exhaust)
  have "(w = None \<longleftrightarrow> bo_max_elapsed ?b \<le> 3 * 10 ^ 9 - bo_start ?b) \<and>
    (\<forall>wait. w = Some wait \<longrightarrow>
       0 \<le> wait \<and>
       (3 * 10 ^ 9 - bo_start ?b + 20 * 10 ^ 9 < 2 ^ 63 \<longrightarrow>
          (3 * 10 ^ 9 + wait) - bo_start ?b \<le> bo_max_elapsed ?b \<and>
          (20 * 10 ^ 9 \<le> wait \<or> (3 * 10 ^ 9 + wait) - bo_start ?b = bo_max_elapsed ?b) \<and>
          (bo_interval ?b div 2 \<le> wait \<or> (3 * 10 ^ 9 + wait) - bo_start ?b = bo_max_elapsed ?b)) \<and>
       (2 ^ 63 \<le> 3 * 10 ^ 9 - bo_start ?b + 20 * 10 ^ 9 \<longrightarrow> wait = 20 * 10 ^ 9 \<and> bo_max_elapsed ?b < (3 * 10 ^ 9 + wait) - bo_start ?b)) \<and>
    bo_interval ?b \<le> bo_interval b' \<and> bo_interval b' \<le> bo_max ?b \<and> backoff_ok b'"
    by (rule backoff_budget [OF _ _ _ _ _ n]) (simp_all add: newBackoff_def backoff_ok_def)
  then show ?thesis using n by (cases w) (auto simp: newBackoff_def)
qed

text \<open>
  C39: the jitter stays in its band. For an interval below 26 days the wait lies between half the
  interval and one and a half times the interval, both rounded down, whatever the random source
  returns.
\<close>

theorem jitter_band:
  assumes "0 \<le> j" "j < 2 ^ 53" "0 \<le> d" "d < 2 ^ 51"
  shows "d div 2 \<le> jittered j d \<and> jittered j d \<le> 3 * d div 2"
  using jittered_bounds [OF assms] by simp

theorem jitter_band_witness: "(5 * 10 ^ 9) div 2 \<le> jittered (2 ^ 53 - 1) (5 * 10 ^ 9) \<and> jittered (2 ^ 53 - 1) (5 * 10 ^ 9) \<le> 3 * (5 * 10 ^ 9) div 2"
  by (rule jitter_band) simp_all

text \<open>
  The jitter reaches the upper end of its band. The comment in the source says the band excludes
  it, but the largest random value rounds the factor up to exactly 1.5.
\<close>

theorem jitter_reaches_top: "jittered (2 ^ 53 - 1) (5 * 10 ^ 9) = 75 * 10 ^ 8"
  by code_simp

text \<open>
  C40: which \<^verbatim>\<open>Retry-After\<close> dates break the budget. A retry that is still within its budget and is given a date waits
  past the budget exactly when the elapsed time plus the time up to that date, which \<^verbatim>\<open>time.Sub\<close> saturates, is
  \<open>2 ^ 63\<close> nanoseconds or more; it then waits for the whole of that time. A date more than 292 years ahead does
  it once any time has passed since the first attempt.
\<close>

theorem far_future_hint_overruns:
  assumes "v \<noteq> []" "atoi v = None" "parse_time v = Some at"
    and "backoff_ok b" "0 \<le> j" "j < 2 ^ 53" "bo_start b \<le> now'" "now' - bo_start b < bo_max_elapsed b"
  shows "\<exists>wait. fst (backoff_next now' j (parseRetryAfter parse_time v now) b) = Some wait \<and>
    (bo_max_elapsed b < (now' + wait) - bo_start b \<longleftrightarrow> 2 ^ 63 \<le> (now' - bo_start b) + min (2 ^ 63 - 1) (at - now)) \<and>
    (bo_max_elapsed b < (now' + wait) - bo_start b \<longrightarrow> wait = min (2 ^ 63 - 1) (at - now)) \<and>
    (now + 2 ^ 63 \<le> at \<and> bo_start b < now' \<longrightarrow> wait = 2 ^ 63 - 1 \<and> bo_max_elapsed b < (now' + wait) - bo_start b)"
proof -
  let ?d = "min (2 ^ 63 - 1) (at - now)" and ?hint = "parseRetryAfter parse_time v now"
  have M: "bo_max_elapsed b < 2 ^ 55" using assms(4) by (simp add: backoff_ok_def)
  have hint: "?hint = max 0 ?d" using assms(1-3) by (auto simp: parseRetryAfter_def time_sub_def Let_def)
  obtain w b' where step: "backoff_next now' j ?hint b = (w, b')" by fastforce
  have bound: "?hint < 2 ^ 63" unfolding hint by simp
  note n = backoff_next_any [OF assms(4-7) bound step]
  obtain wait where wait: "w = Some wait"
    "wait = (if now' - bo_start b + ?hint < 2 ^ 63
             then min (max ?hint (jittered j (bo_interval b))) (bo_max_elapsed b - (now' - bo_start b)) else ?hint)"
    using n assms(8) by (cases w) auto
  have wraps: "(2 ^ 63 \<le> now' - bo_start b + ?hint \<longleftrightarrow> 2 ^ 63 \<le> (now' - bo_start b) + ?d) \<and>
      (2 ^ 63 \<le> now' - bo_start b + ?hint \<longrightarrow> ?hint = ?d)"
  proof (cases "0 \<le> ?d")
    case True
    then show ?thesis unfolding hint by (simp only: max_absorb2) simp
  next
    case False
    then have "?hint = 0" unfolding hint by (intro max_absorb1) simp
    moreover have early: "now' - bo_start b < 2 ^ 63" using assms(8) M by simp
    moreover have "now' - bo_start b + ?d < 2 ^ 63" using False early unfolding not_le by linarith
    ultimately show ?thesis by simp
  qed
  let ?over = "bo_max_elapsed b < (now' + wait) - bo_start b"
  have over: "?over \<longleftrightarrow> 2 ^ 63 \<le> (now' - bo_start b) + ?d"
    unfolding wraps [THEN conjunct1, symmetric] using wait(2) M by (auto split: if_splits)
  have whole: "?over \<Longrightarrow> wait = ?d"
    unfolding over wraps [THEN conjunct1, symmetric] using wait(2) wraps by simp
  have far: "?d = 2 ^ 63 - 1 \<and> 2 ^ 63 \<le> (now' - bo_start b) + ?d" if "now + 2 ^ 63 \<le> at" "bo_start b < now'"
    using that by simp
  have "fst (backoff_next now' j ?hint b) = Some wait" using step wait(1) by simp
  then show ?thesis using over whole far by metis
qed

text \<open>The last second of the year 9999, asked for at the start of 2026, a second into a budget of 300 seconds.\<close>

theorem far_future_hint_overruns_witness:
  "fst (backoff_next (1767225601 * 10 ^ 9) 0
     (parseRetryAfter (\<lambda>v. Some (253402300799 * 10 ^ 9)) ''Fri, 31 Dec 9999 23:59:59 GMT'' (1767225601 * 10 ^ 9))
     (newBackoff (5 * 10 ^ 9) (30 * 10 ^ 9) (300 * 10 ^ 9) (1767225600 * 10 ^ 9))) = Some (2 ^ 63 - 1)"
proof -
  let ?b = "newBackoff (5 * 10 ^ 9) (30 * 10 ^ 9) (300 * 10 ^ 9) (1767225600 * 10 ^ 9)"
  have "atoi ''Fri, 31 Dec 9999 23:59:59 GMT'' = None" by code_simp
  moreover have "backoff_ok ?b" "bo_start ?b < 1767225601 * 10 ^ 9" "1767225601 * 10 ^ 9 - bo_start ?b < bo_max_elapsed ?b"
    by (simp_all add: newBackoff_def backoff_ok_def)
  ultimately show ?thesis
    using far_future_hint_overruns [of "''Fri, 31 Dec 9999 23:59:59 GMT''" "\<lambda>v. Some (253402300799 * 10 ^ 9)" "253402300799 * 10 ^ 9"
        ?b 0 "1767225601 * 10 ^ 9" "1767225601 * 10 ^ 9"] by auto
qed

text \<open>
  A \<^verbatim>\<open>Retry-After\<close> of delay seconds is read exactly up to the largest duration, and one second more
  wraps around to a negative wait, which the documentation rules out.
\<close>

theorem retry_after_seconds:
  assumes "0 \<le> n" "n \<le> 9223372036"
  shows "parseRetryAfter pt (itoa n) now = n * 10 ^ 9 \<and> parseRetryAfter pt (itoa 9223372037) now < 0"
proof -
  have "itoa i \<noteq> []" for i using utoa_props by (simp add: itoa_def)
  then show ?thesis
    using assms by (simp add: parseRetryAfter_def atoi_itoa in_int64_def wrap64_def)
qed

theorem retry_after_seconds_witness:
  "parseRetryAfter (\<lambda>v. None) (itoa 120) 0 = 120 * 10 ^ 9 \<and> parseRetryAfter (\<lambda>v. None) (itoa 9223372037) 0 < 0"
  by (rule retry_after_seconds) simp_all

end
