(* ===== verification/Forward.thy ===== *)
theory Forward
  imports Ingest Backoff "HOL-Library.Word"
begin

unbundle bit_operations_syntax

text \<open>
  The package \<^verbatim>\<open>internal/forward\<close> (\<^verbatim>\<open>forward.go\<close>): the configuration, the shard key and index, the byte
  accounting of a shard, \<^verbatim>\<open>enqueue\<close>, one HTTP attempt, the retry loop \<^verbatim>\<open>deliver\<close>, the drain, and
  \<^verbatim>\<open>ForwardingSink\<close> as a sink of the package \<^verbatim>\<open>ingest\<close>. The goroutines around these operations are the
  theory \<open>Forward_Machine\<close>.

  Parameters that stand for code outside the repository: \<^verbatim>\<open>url.Parse\<close> (\<open>url_parse\<close>), \<^verbatim>\<open>strconv.Quote\<close>
  (\<open>quote\<close>), \<^verbatim>\<open>proto.Marshal\<close> (\<open>marshal\<close>), \<^verbatim>\<open>http.ParseTime\<close>, \<^verbatim>\<open>http.NewRequest\<close> and the client's \<^verbatim>\<open>Do\<close>
  (the \<open>exchange\<close> of an attempt). A token source reads a state of type \<open>'k\<close>, the contents of the token
  file at the time of the call.
\<close>

section \<open>Configuration\<close>

definition defaultShards :: int where "defaultShards = 8"
definition defaultQueueSize :: int where "defaultQueueSize = 64"
definition defaultQueueBytes :: int where "defaultQueueBytes = 64 * 2 ^ 20"
definition defaultRequestTimeout :: int where "defaultRequestTimeout = 10 * 10 ^ 9"
definition defaultRetryInitialInterval :: int where "defaultRetryInitialInterval = 5 * 10 ^ 9"
definition defaultRetryMaxInterval :: int where "defaultRetryMaxInterval = 30 * 10 ^ 9"
definition defaultRetryMaxElapsedTime :: int where "defaultRetryMaxElapsedTime = 300 * 10 ^ 9"

text \<open>The settings of an HTTP client that the package chooses; \<^verbatim>\<open>http.DefaultTransport\<close> keeps 100 idle connections.\<close>

record http_client =
  cl_max_idle_per_host :: int
  cl_max_idle :: int
  cl_follow_redirects :: bool

definition newHTTPClient :: "int \<Rightarrow> http_client" where
  "newHTTPClient shards =
     \<lparr>cl_max_idle_per_host = shards,
      cl_max_idle = (if 100 < shards then shards else 100),
      cl_follow_redirects = False\<rparr>"

type_synonym 'k token_source = "'k \<Rightarrow> string"

definition StaticToken :: "string \<Rightarrow> 'k token_source" where
  "StaticToken t = (\<lambda>k. t)"

record 'k config =
  cf_URL :: string
  cf_AuthToken :: "'k token_source option"
  cf_Shards :: int
  cf_QueueSize :: int
  cf_QueueBytes :: int
  cf_HTTPClient :: "http_client option"
  cf_RequestTimeout :: int
  cf_RetryInitialInterval :: int
  cf_RetryMaxInterval :: int
  cf_RetryMaxElapsedTime :: int

definition authToken :: "'k config \<Rightarrow> 'k \<Rightarrow> string" where
  "authToken cfg k = (case cf_AuthToken cfg of None \<Rightarrow> [] | Some src \<Rightarrow> src k)"

definition or_default :: "int \<Rightarrow> int \<Rightarrow> int" where
  "or_default d x = (if x \<le> 0 then d else x)"

definition withDefaults :: "'k config \<Rightarrow> 'k config" where
  "withDefaults c =
     (let shards = or_default defaultShards (cf_Shards c) in
      c\<lparr>cf_Shards := shards,
        cf_QueueSize := or_default defaultQueueSize (cf_QueueSize c),
        cf_QueueBytes := or_default defaultQueueBytes (cf_QueueBytes c),
        cf_HTTPClient := (case cf_HTTPClient c of None \<Rightarrow> Some (newHTTPClient shards) | Some cl \<Rightarrow> Some cl),
        cf_RequestTimeout := or_default defaultRequestTimeout (cf_RequestTimeout c),
        cf_RetryInitialInterval := or_default defaultRetryInitialInterval (cf_RetryInitialInterval c),
        cf_RetryMaxInterval := or_default defaultRetryMaxInterval (cf_RetryMaxInterval c),
        cf_RetryMaxElapsedTime := or_default defaultRetryMaxElapsedTime (cf_RetryMaxElapsedTime c)\<rparr>)"

text \<open>The fields of \<^verbatim>\<open>url.URL\<close> that \<^verbatim>\<open>validateURL\<close> reads. \<open>url_user\<close> says that user info is present.\<close>

record url =
  url_scheme :: string
  url_host :: string
  url_user :: bool
  url_raw_query :: string
  url_force_query :: bool
  url_fragment :: string

definition validateURL ::
  "(string \<Rightarrow> string) \<Rightarrow> (string \<Rightarrow> string + url) \<Rightarrow> string \<Rightarrow> string + (string \<times> string)" where
  "validateURL quote url_parse raw =
     (if raw = [] then Inl ''forward URL is empty''
      else
        (case url_parse raw of
           Inl err \<Rightarrow> Inl (''forward URL '' @ quote raw @ '': '' @ err)
         | Inr u \<Rightarrow>
             if url_scheme u \<noteq> ''http'' \<and> url_scheme u \<noteq> ''https'' then
               Inl (''forward URL '' @ quote raw @ '': scheme must be http or https'')
             else if url_host u = [] then Inl (''forward URL '' @ quote raw @ '': missing host'')
             else if url_user u then Inl ''forward URL must not contain user info''
             else if url_raw_query u \<noteq> [] \<or> url_force_query u then
               Inl ''forward URL must not contain a query''
             else if url_fragment u \<noteq> [] \<or> CHR ''#'' \<in> set raw then
               Inl ''forward URL must not contain a fragment''
             else Inr (trim_right_byte CHR ''/'' raw, url_scheme u)))"

section \<open>Instances and shards\<close>

record service_instance =
  inst_namespace :: string
  inst_service :: string
  inst_id :: string

definition instanceOf :: "pbmsg option \<Rightarrow> service_instance" where
  "instanceOf res =
     \<lparr>inst_namespace = trim_space (GetServiceNamespace res),
      inst_service = trim_space (GetServiceName res),
      inst_id = GetServiceInstanceId res\<rparr>"

definition key_part :: "string \<Rightarrow> string" where
  "key_part part = itoa (int (length part)) @ [CHR '':''] @ part"

definition shardKey :: "service_instance \<Rightarrow> string" where
  "shardKey i = concat (map key_part [inst_namespace i, inst_service i, inst_id i])"

definition instance_String :: "(string \<Rightarrow> string) \<Rightarrow> service_instance \<Rightarrow> string" where
  "instance_String quote i =
     (if inst_namespace i = []
      then ''service '' @ quote (inst_service i) @ '' instance '' @ quote (inst_id i)
      else ''namespace '' @ quote (inst_namespace i) @ '' service '' @ quote (inst_service i) @
           '' instance '' @ quote (inst_id i))"

text \<open>
  \<^verbatim>\<open>fnv.New32a\<close>: each byte is xored into the hash, which is then multiplied by the prime, on 32 bits.
\<close>

definition fnv32a :: "string \<Rightarrow> 32 word" where
  "fnv32a key = foldl (\<lambda>h c. (h XOR of_nat (of_char c)) * 16777619) 2166136261 key"

text \<open>
  \<^verbatim>\<open>shardIndex\<close>: \<^verbatim>\<open>uint32(numShards)\<close> cuts to 32 bits; \<open>None\<close> is the panic of a division by zero.
\<close>

definition shardIndex :: "string \<Rightarrow> int \<Rightarrow> nat option" where
  "shardIndex key numShards =
     (let d = (of_int numShards :: 32 word)
      in if d = 0 then None else Some (unat (fnv32a key mod d)))"

record queuedItem =
  it_owner :: service_instance
  it_path :: string
  it_body :: string

record shard =
  sh_queue :: "queuedItem list"
  sh_bytes :: int

definition reserve :: "int \<Rightarrow> int \<Rightarrow> shard \<Rightarrow> bool \<times> shard" where
  "reserve n limit sh =
     (if sh_bytes sh > 0 \<and> wrap64 (sh_bytes sh + n) > limit then (False, sh)
      else (True, sh\<lparr>sh_bytes := wrap64 (sh_bytes sh + n)\<rparr>))"

definition release :: "int \<Rightarrow> shard \<Rightarrow> shard" where
  "release n sh = sh\<lparr>sh_bytes := wrap64 (sh_bytes sh - n)\<rparr>"

definition heldBytes :: "shard \<Rightarrow> int" where
  "heldBytes sh = sh_bytes sh"

definition body_len :: "queuedItem \<Rightarrow> int" where
  "body_len item = int (length (it_body item))"

text \<open>The non-blocking send on a shard's channel, whose capacity is \<^verbatim>\<open>cfg.QueueSize\<close>.\<close>

definition try_send :: "int \<Rightarrow> queuedItem \<Rightarrow> shard \<Rightarrow> bool \<times> shard" where
  "try_send cap item sh =
     (if int (length (sh_queue sh)) < cap then (True, sh\<lparr>sh_queue := sh_queue sh @ [item]\<rparr>)
      else (False, sh))"

section \<open>Accepting\<close>

definition ErrQueueFull :: string where
  "ErrQueueFull = ''forward: shard queue is full''"

definition ErrShuttingDown :: string where
  "ErrShuttingDown = ''forward: sink is shutting down''"

text \<open>\<^verbatim>\<open>fmt.Errorf("%w (%s)", sentinel, owner)\<close>.\<close>

definition owner_error :: "string \<Rightarrow> queuedItem \<Rightarrow> go_error" where
  "owner_error sentinel item =
     ErrOwner sentinel
       (inst_namespace (it_owner item), inst_service (it_owner item), inst_id (it_owner item))"

record fsink =
  fs_shards :: "shard list"
  fs_closed :: bool

definition refused :: "queuedItem \<Rightarrow> string \<Rightarrow> effect list" where
  "refused item reason = [Inc ForwardRefused [PayloadLabel (it_path item), reason]]"

text \<open>
  \<^verbatim>\<open>enqueue\<close>, run without another goroutine in between. A panic in \<^verbatim>\<open>shardIndex\<close> ends the call before
  anything changed; it is given as an error with the panic's text.
\<close>

definition enqueue :: "'k config \<Rightarrow> queuedItem \<Rightarrow> fsink \<Rightarrow> fsink accepting" where
  "enqueue cfg item s =
     (if fs_closed s then (Some (owner_error ErrShuttingDown item), refused item ''shutting_down'', s)
      else
        (case shardIndex (shardKey (it_owner item)) (int (length (fs_shards s))) of
           None \<Rightarrow> (Some (ErrText ''runtime error: integer divide by zero''), [], s)
         | Some i \<Rightarrow>
             (case reserve (body_len item) (cf_QueueBytes cfg) (fs_shards s ! i) of
                (False, sh) \<Rightarrow> (Some (owner_error ErrQueueFull item), refused item ''queue_full'', s)
              | (True, sh) \<Rightarrow>
                  (case try_send (cf_QueueSize cfg) item sh of
                     (True, sh') \<Rightarrow> (None, [], s\<lparr>fs_shards := (fs_shards s)[i := sh']\<rparr>)
                   | (False, sh') \<Rightarrow>
                       (Some (owner_error ErrQueueFull item), refused item ''queue_full'',
                        s\<lparr>fs_shards := (fs_shards s)[i := release (body_len item) sh']\<rparr>)))))"

definition marshalAndEnqueue ::
  "'k config \<Rightarrow> (pbmsg \<Rightarrow> go_error + string) \<Rightarrow> pbmsg \<Rightarrow> service_instance \<Rightarrow> string \<Rightarrow> fsink \<Rightarrow> fsink accepting" where
  "marshalAndEnqueue cfg marshal msg owner path s =
     (let payload = PayloadLabel path in
      case marshal msg of
        Inl err \<Rightarrow>
          (None,
           [LogLine LWarn ''dropping payload: marshal failed'' [(''payload'', LStr payload), (''error'', LErr err)],
            Inc ForwardDropped [payload, ''marshal'']],
           s)
      | Inr body \<Rightarrow> enqueue cfg \<lparr>it_owner = owner, it_path = path, it_body = body\<rparr> s)"

definition ForwardingSink :: "'k config \<Rightarrow> (pbmsg \<Rightarrow> go_error + string) \<Rightarrow> fsink sink" where
  "ForwardingSink cfg marshal =
     \<lparr>AcceptDeltaBatch = (\<lambda>batch. marshalAndEnqueue cfg marshal batch (instanceOf (GetResource batch)) DeltaBatchPath),
      AcceptManifest = (\<lambda>manifest. marshalAndEnqueue cfg marshal manifest (instanceOf (GetResource manifest)) ManifestPath),
      AcceptStaticBaseline = (\<lambda>baseline. marshalAndEnqueue cfg marshal baseline (instanceOf (GetResource baseline)) StaticBaselinePath)\<rparr>"

text \<open>
  Go's \<^verbatim>\<open>make\<close> panics for a length below 0 or one whose memory is larger than a process can address: \<open>2 ^ 48\<close> bytes on
  64-bit Linux, where a channel also holds a header of 112 bytes (\<^verbatim>\<open>runtime.makeslice\<close>, \<^verbatim>\<open>runtime.makechan\<close>). A pointer
  to a shard takes 8 bytes, and a \<^verbatim>\<open>queuedItem\<close>, of four strings and a slice, 88.
\<close>

definition max_alloc :: int where
  "max_alloc = 2 ^ 48"

definition make_slice_fits :: "int \<Rightarrow> int \<Rightarrow> bool" where
  "make_slice_fits elem_size n \<longleftrightarrow> 0 \<le> n \<and> n * elem_size \<le> max_alloc"

definition make_chan_fits :: "int \<Rightarrow> int \<Rightarrow> bool" where
  "make_chan_fits elem_size n \<longleftrightarrow> 0 \<le> n \<and> n * elem_size \<le> max_alloc - 112"

definition make_shards :: "'k config \<Rightarrow> fsink option" where
  "make_shards cfg =
     (if \<not> make_slice_fits 8 (cf_Shards cfg) then None
      else if cf_Shards cfg \<noteq> 0 \<and> \<not> make_chan_fits 88 (cf_QueueSize cfg) then None
      else Some \<lparr>fs_shards = replicate (nat (cf_Shards cfg)) \<lparr>sh_queue = [], sh_bytes = 0\<rparr>, fs_closed = False\<rparr>)"

text \<open>The result is \<open>None\<close> when a \<^verbatim>\<open>make\<close> panics, and an error or the sink otherwise.\<close>

definition NewForwardingSink ::
  "(string \<Rightarrow> string) \<Rightarrow> (string \<Rightarrow> string + url) \<Rightarrow> 'k \<Rightarrow> 'k config \<Rightarrow>
   effect list \<times> (string + ('k config \<times> fsink)) option" where
  "NewForwardingSink quote url_parse k cfg0 =
     (let cfg1 = withDefaults cfg0 in
      case validateURL quote url_parse (cf_URL cfg1) of
        Inl err \<Rightarrow> ([], Some (Inl err))
      | Inr (baseURL, scheme) \<Rightarrow>
          (let cfg2 = cfg1\<lparr>cf_URL := baseURL\<rparr>;
               es = (if scheme = ''http'' \<and> authToken cfg2 k \<noteq> []
                     then [LogLine LWarn ''forward URL uses plain http; the backend auth token is sent unencrypted''
                             [(''url'', LStr baseURL)]]
                     else [])
           in (es, (case make_shards cfg2 of None \<Rightarrow> None | Some s \<Rightarrow> Some (Inr (cfg2, s))))))"

section \<open>Delivering\<close>

definition dropReasons :: "string \<Rightarrow> string" where
  "dropReasons reason =
     (if reason = ''permanent'' then ''permanent failure''
      else if reason = ''retry_exhausted'' then ''retry budget exhausted''
      else if reason = ''shutdown_deadline'' then ''shutdown deadline exceeded''
      else if reason = ''shutdown_attempt_failed'' then ''shutdown drain attempt failed''
      else [])"

definition dropped :: "queuedItem \<Rightarrow> string \<Rightarrow> go_error option \<Rightarrow> effect list" where
  "dropped item reason err =
     [LogLine LWarn (''dropping payload: '' @ dropReasons reason)
        ([(''namespace'', LStr (inst_namespace (it_owner item))),
          (''service'', LStr (inst_service (it_owner item))),
          (''instance'', LStr (inst_id (it_owner item))),
          (''path'', LStr (it_path item))] @
         (case err of None \<Rightarrow> [] | Some e \<Rightarrow> [(''error'', LErr e)])),
      Inc ForwardDropped [PayloadLabel (it_path item), reason]]"

definition isRetryableStatus :: "int \<Rightarrow> bool" where
  "isRetryableStatus code \<longleftrightarrow> code = 429 \<or> code = 502 \<or> code = 503 \<or> code = 504"

text \<open>
  The request an attempt sends and what the world answers: \<open>ex_new_request\<close> is the error of
  \<^verbatim>\<open>http.NewRequestWithContext\<close> for a URL, \<open>ex_do\<close> the client's \<^verbatim>\<open>Do\<close>, \<open>ex_keys\<close> the state the token
  source reads, \<open>ex_now\<close> the clock when the \<^verbatim>\<open>Retry-After\<close> header is read.
\<close>

record out_request =
  out_url :: string
  out_headers :: "(string \<times> string) list"
  out_body :: string
  out_timeout :: int

record backend_response =
  br_code :: int
  br_status :: string
  br_retry_after :: string

record 'k exchange =
  ex_new_request :: "string \<Rightarrow> go_error option"
  ex_do :: "out_request \<Rightarrow> go_error + backend_response"
  ex_keys :: 'k
  ex_now :: int

definition attempt_request :: "'k config \<Rightarrow> 'k \<Rightarrow> queuedItem \<Rightarrow> out_request" where
  "attempt_request cfg k item =
     \<lparr>out_url = cf_URL cfg @ it_path item,
      out_headers = [(''Content-Type'', ''application/x-protobuf'')] @
        (let token = authToken cfg k
         in if token \<noteq> [] then [(''Authorization'', ''Bearer '' @ token)] else []),
      out_body = it_body item,
      out_timeout = cf_RequestTimeout cfg\<rparr>"

text \<open>\<^verbatim>\<open>attempt\<close>: whether the failure is retryable, the wait asked for, and the error.\<close>

definition attempt ::
  "'k config \<Rightarrow> (string \<Rightarrow> int option) \<Rightarrow> 'k exchange \<Rightarrow> queuedItem \<Rightarrow> bool \<times> int \<times> go_error option" where
  "attempt cfg parse_time ex item =
     (case ex_new_request ex (cf_URL cfg @ it_path item) of
        Some err \<Rightarrow> (False, 0, Some err)
      | None \<Rightarrow>
          (case ex_do ex (attempt_request cfg (ex_keys ex) item) of
             Inl err \<Rightarrow> (True, 0, Some err)
           | Inr resp \<Rightarrow>
               (if 200 \<le> br_code resp \<and> br_code resp < 300 then (False, 0, None)
                else
                  (let err = ErrText (''backend returned '' @ br_status resp) in
                   if \<not> isRetryableStatus (br_code resp) then (False, 0, Some err)
                   else (True, parseRetryAfter parse_time (br_retry_after resp) (ex_now ex), Some err)))))"

definition finalDeliveryAttempt ::
  "'k config \<Rightarrow> (string \<Rightarrow> int option) \<Rightarrow> bool \<Rightarrow> 'k exchange \<Rightarrow> queuedItem \<Rightarrow> effect list" where
  "finalDeliveryAttempt cfg parse_time ctx_done ex item =
     (if ctx_done then dropped item ''shutdown_deadline'' None
      else
        (case attempt cfg parse_time ex item of
           (_, _, Some err) \<Rightarrow> dropped item ''shutdown_attempt_failed'' (Some err)
         | (_, _, None) \<Rightarrow> [Inc ForwardDelivered [PayloadLabel (it_path item)]]))"

text \<open>
  One turn of the loop in \<^verbatim>\<open>deliver\<close>, as the world plays it: the exchange of the attempt, whether
  \<^verbatim>\<open>stopping\<close> is closed right after it, the clock and the random value \<^verbatim>\<open>next\<close> reads, whether \<^verbatim>\<open>stopping\<close>
  closes during the wait, and, for a final attempt, whether the context has ended and its exchange.
\<close>

record 'k turn =
  tn_exchange :: "'k exchange"
  tn_stop_after :: bool
  tn_now :: int
  tn_rand :: int
  tn_stop_wait :: bool
  tn_ctx_done :: bool
  tn_final :: "'k exchange"

partial_function (option) deliver_loop ::
  "'k config \<Rightarrow> (string \<Rightarrow> int option) \<Rightarrow> (nat \<Rightarrow> 'k turn) \<Rightarrow> queuedItem \<Rightarrow> nat \<Rightarrow> backoff \<Rightarrow> effect list option" where
  "deliver_loop cfg parse_time turns item n b =
     (let tn = turns n; payload = PayloadLabel (it_path item) in
      case attempt cfg parse_time (tn_exchange tn) item of
        (retryable, retryAfter, None) \<Rightarrow> Some [Inc ForwardDelivered [payload]]
      | (retryable, retryAfter, Some err) \<Rightarrow>
          (if \<not> retryable then Some (dropped item ''permanent'' (Some err))
           else if tn_stop_after tn then
             Some (finalDeliveryAttempt cfg parse_time (tn_ctx_done tn) (tn_final tn) item)
           else
             (case backoff_next (tn_now tn) (tn_rand tn) retryAfter b of
                (None, b') \<Rightarrow> Some (dropped item ''retry_exhausted'' (Some err))
              | (Some wait, b') \<Rightarrow>
                  (if tn_stop_wait tn then
                     Some (finalDeliveryAttempt cfg parse_time (tn_ctx_done tn) (tn_final tn) item)
                   else
                     Option.bind (deliver_loop cfg parse_time turns item (Suc n) b')
                       (\<lambda>es. Some (Inc ForwardRetries [payload] # es))))))"

declare deliver_loop.simps [code]

definition deliver ::
  "'k config \<Rightarrow> (string \<Rightarrow> int option) \<Rightarrow> int \<Rightarrow> (nat \<Rightarrow> 'k turn) \<Rightarrow> queuedItem \<Rightarrow> effect list option" where
  "deliver cfg parse_time start turns item =
     deliver_loop cfg parse_time turns item 0
       (newBackoff (cf_RetryInitialInterval cfg) (cf_RetryMaxInterval cfg) (cf_RetryMaxElapsedTime cfg) start)"

text \<open>\<^verbatim>\<open>drain\<close>: for the n-th item it takes, the world gives the state of the context and an exchange.\<close>

fun drain_items ::
  "'k config \<Rightarrow> (string \<Rightarrow> int option) \<Rightarrow> (nat \<Rightarrow> bool \<times> 'k exchange) \<Rightarrow> nat \<Rightarrow> queuedItem list \<Rightarrow> int \<Rightarrow> effect list \<times> int" where
  "drain_items cfg pt world n [] bytes = ([], bytes)"
| "drain_items cfg pt world n (item # queue) bytes =
     (let (ctx_done, ex) = world n;
          es = finalDeliveryAttempt cfg pt ctx_done ex item;
          (es', bytes') = drain_items cfg pt world (Suc n) queue (wrap64 (bytes - body_len item))
      in (es @ es', bytes'))"

definition drain ::
  "'k config \<Rightarrow> (string \<Rightarrow> int option) \<Rightarrow> (nat \<Rightarrow> bool \<times> 'k exchange) \<Rightarrow> shard \<Rightarrow> effect list \<times> shard" where
  "drain cfg pt world sh =
     (let (es, bytes) = drain_items cfg pt world 0 (sh_queue sh) (sh_bytes sh)
      in (es, \<lparr>sh_queue = [], sh_bytes = bytes\<rparr>))"

section \<open>Lemmas: the shard key\<close>

text \<open>A reader of shard keys: the decimal length up to the colon, then as many bytes.\<close>

definition read_part :: "string \<Rightarrow> (string \<times> string) option" where
  "read_part s =
     (let ds = takeWhile (\<lambda>c. c \<noteq> CHR '':'') s; rest = drop (Suc (length ds)) s
      in case parse_digits ds of None \<Rightarrow> None | Some n \<Rightarrow> Some (take n rest, drop n rest))"

definition decode_key :: "string \<Rightarrow> service_instance option" where
  "decode_key s =
     Option.bind (read_part s) (\<lambda>(ns, s1). Option.bind (read_part s1) (\<lambda>(svc, s2).
       Option.bind (read_part s2) (\<lambda>(i, s3).
         if s3 = [] then Some \<lparr>inst_namespace = ns, inst_service = svc, inst_id = i\<rparr> else None)))"

lemma read_part_key_part: "read_part (key_part p @ rest) = Some (p, rest)"
proof -
  let ?u = "utoa (length p)"
  have "\<forall>c \<in> set ?u. c \<noteq> CHR '':''" using digit_in_utoa is_digit_sign by blast
  then have "takeWhile (\<lambda>c. c \<noteq> CHR '':'') (?u @ CHR '':'' # p @ rest) = ?u"
    by (subst takeWhile_append2) auto
  then show ?thesis by (simp add: read_part_def key_part_def itoa_def)
qed

lemma decode_key_shardKey: "decode_key (shardKey i) = Some i"
  using read_part_key_part [of "inst_id i" "[]"]
  by (simp add: decode_key_def shardKey_def read_part_key_part)

lemma shardIndex_range:
  "shardIndex key (int n) = Some i \<Longrightarrow> i < n"
proof -
  assume i: "shardIndex key (int n) = Some i"
  let ?d = "of_int (int n) :: 32 word"
  from i have d: "?d \<noteq> 0" and eq: "i = unat (fnv32a key mod ?d)"
    by (auto simp: shardIndex_def Let_def split: if_splits)
  from d have "0 < unat ?d" by (simp add: unat_gt_0)
  then have "i < unat ?d" by (simp add: eq unat_mod)
  also have "\<dots> \<le> n" by (simp add: unat_of_nat)
  finally show ?thesis .
qed

lemma shardIndex_total:
  assumes "0 < n" "n < 2 ^ 32"
  obtains i where "shardIndex key n = Some i"
proof -
  have "uint (of_int n :: 32 word) = n"
    using assms by (simp add: uint_word_of_int_eq take_bit_int_eq_self_iff)
  with assms have "(of_int n :: 32 word) \<noteq> 0" by auto
  then show thesis using that by (simp add: shardIndex_def)
qed

section \<open>Lemmas: byte accounting\<close>

definition queue_bytes :: "queuedItem list \<Rightarrow> int" where
  "queue_bytes q = sum_list (map body_len q)"

lemma queue_bytes_simps [simp]:
  "queue_bytes [] = 0" "queue_bytes (x # q) = body_len x + queue_bytes q"
  "queue_bytes (q @ r) = queue_bytes q + queue_bytes r"
  by (simp_all add: queue_bytes_def)

lemma body_len_nonneg [simp]: "0 \<le> body_len x"
  by (simp add: body_len_def)

lemma queue_bytes_nonneg [simp]: "0 \<le> queue_bytes q"
  by (induction q) auto

text \<open>
  A shard's count stays far from the end of the \<^verbatim>\<open>int\<close> range as long as no body and no limit does come
  near it; then the machine additions are exact.
\<close>

definition sane :: "int \<Rightarrow> bool" where
  "sane x \<longleftrightarrow> 0 \<le> x \<and> x < 2 ^ 62"

lemma sane_wrap:
  "sane x \<Longrightarrow> sane y \<Longrightarrow> wrap64 (x + y) = x + y"
  "sane x \<Longrightarrow> sane y \<Longrightarrow> wrap64 (x - y) = x - y"
  by (rule wrap64_id, simp add: sane_def in_int64_def)+

lemma reserve_cases:
  assumes "sane (sh_bytes sh)" "sane n" "reserve n limit sh = (ok, sh')"
  obtains (taken) "ok" "sh' = sh\<lparr>sh_bytes := sh_bytes sh + n\<rparr>" "sh_bytes sh = 0 \<or> sh_bytes sh + n \<le> limit"
  | (full) "\<not> ok" "sh' = sh" "0 < sh_bytes sh" "limit < sh_bytes sh + n"
proof (cases "0 < sh_bytes sh \<and> limit < sh_bytes sh + n")
  case True
  then show thesis using full assms by (simp add: reserve_def sane_wrap)
next
  case False
  have w: "wrap64 (sh_bytes sh + n) = sh_bytes sh + n" using assms(1,2) by (rule sane_wrap)
  from False have "sh_bytes sh = 0 \<or> sh_bytes sh + n \<le> limit" using assms(1) by (auto simp: sane_def)
  moreover from False assms(3) have "ok" "sh' = sh\<lparr>sh_bytes := sh_bytes sh + n\<rparr>"
    by (auto simp: reserve_def w)
  ultimately show thesis using taken by blast
qed

lemma reserve_taken:
  assumes "sane (sh_bytes sh)" "sane n" "reserve n limit sh = (True, sh')"
  shows "sh' = sh\<lparr>sh_bytes := sh_bytes sh + n\<rparr> \<and> (sh_bytes sh = 0 \<or> sh_bytes sh + n \<le> limit)"
  using assms by (cases rule: reserve_cases) simp_all

lemma reserve_bound:
  assumes "sane (sh_bytes sh)" "sane n" "sane limit" "reserve n limit sh = (True, sh')"
  shows "sane (sh_bytes sh') \<and> sh_bytes sh' \<le> max (sh_bytes sh) (max limit n)"
  using assms(1,2,4)
proof (cases rule: reserve_cases)
  case taken
  then show ?thesis using assms(1,2,3) by (auto simp: sane_def)
qed simp

lemma release_reserve:
  assumes "sane (sh_bytes sh)" "sane n" "reserve n limit sh = (True, sh')"
  shows "release n sh' = sh"
proof -
  have "wrap64 (sh_bytes sh) = sh_bytes sh" using assms(1) by (intro wrap64_id) (simp add: sane_def in_int64_def)
  with assms show ?thesis by (cases rule: reserve_cases) (auto simp: release_def)
qed

lemma heldBytes_reserve:
  assumes "sane (sh_bytes sh)" "sane n" "reserve n limit sh = (True, sh')"
  shows "heldBytes sh' = heldBytes sh + n"
  using assms by (cases rule: reserve_cases) (auto simp: heldBytes_def)

lemma sh_queue_reserve [simp]: "reserve n limit sh = (ok, sh') \<Longrightarrow> sh_queue sh' = sh_queue sh"
  by (auto simp: reserve_def split: if_splits)

section \<open>Lemmas: enqueue\<close>

definition shard_for :: "fsink \<Rightarrow> queuedItem \<Rightarrow> nat option" where
  "shard_for s item = shardIndex (shardKey (it_owner item)) (int (length (fs_shards s)))"

text \<open>The ways \<^verbatim>\<open>enqueue\<close> can go, on shards whose counts are sane.\<close>

lemma enqueue_cases:
  assumes "enqueue cfg item s = (e, es, s')"
    and "\<forall>sh \<in> set (fs_shards s). sane (sh_bytes sh)" and "sane (body_len item)"
  obtains
    (closed) "fs_closed s" "e = Some (owner_error ErrShuttingDown item)"
      "es = refused item ''shutting_down''" "s' = s"
  | (panic) "\<not> fs_closed s" "shard_for s item = None" "e \<noteq> None" "es = []" "s' = s"
  | (bytes_full) i where "\<not> fs_closed s" "shard_for s item = Some i" "i < length (fs_shards s)"
      "0 < sh_bytes (fs_shards s ! i)" "cf_QueueBytes cfg < sh_bytes (fs_shards s ! i) + body_len item"
      "e = Some (owner_error ErrQueueFull item)" "es = refused item ''queue_full''" "s' = s"
  | (count_full) i where "\<not> fs_closed s" "shard_for s item = Some i" "i < length (fs_shards s)"
      "cf_QueueSize cfg \<le> int (length (sh_queue (fs_shards s ! i)))"
      "e = Some (owner_error ErrQueueFull item)" "es = refused item ''queue_full''" "s' = s"
  | (taken) i where "\<not> fs_closed s" "shard_for s item = Some i" "i < length (fs_shards s)"
      "sh_bytes (fs_shards s ! i) = 0 \<or> sh_bytes (fs_shards s ! i) + body_len item \<le> cf_QueueBytes cfg"
      "int (length (sh_queue (fs_shards s ! i))) < cf_QueueSize cfg" "e = None" "es = []"
      "s' = s\<lparr>fs_shards := (fs_shards s)[i := (fs_shards s ! i)\<lparr>sh_bytes := sh_bytes (fs_shards s ! i) + body_len item,
               sh_queue := sh_queue (fs_shards s ! i) @ [item]\<rparr>]\<rparr>"
proof (cases "fs_closed s")
  case True
  then show thesis using closed assms(1) by (simp add: enqueue_def)
next
  case nclosed: False
  show thesis
  proof (cases "shard_for s item")
    case None
    then show thesis using panic nclosed assms(1) by (auto simp: enqueue_def shard_for_def)
  next
    case (Some i)
    then have i: "i < length (fs_shards s)" unfolding shard_for_def by (rule shardIndex_range)
    let ?sh = "fs_shards s ! i"
    have sane: "sane (sh_bytes ?sh)" using assms(2) i by simp
    obtain ok sh' where r: "reserve (body_len item) (cf_QueueBytes cfg) ?sh = (ok, sh')" by fastforce
    have eq: "enqueue cfg item s =
      (if ok then
         (case try_send (cf_QueueSize cfg) item sh' of
            (True, sh2) \<Rightarrow> (None, [], s\<lparr>fs_shards := (fs_shards s)[i := sh2]\<rparr>)
          | (False, sh2) \<Rightarrow>
              (Some (owner_error ErrQueueFull item), refused item ''queue_full'',
               s\<lparr>fs_shards := (fs_shards s)[i := release (body_len item) sh2]\<rparr>))
       else (Some (owner_error ErrQueueFull item), refused item ''queue_full'', s))"
      using nclosed Some r by (simp add: enqueue_def shard_for_def)
    from sane assms(3) r show thesis
    proof (cases rule: reserve_cases)
      case full
      have "e = Some (owner_error ErrQueueFull item) \<and> es = refused item ''queue_full'' \<and> s' = s"
        using assms(1) full(1) by (simp add: eq)
      then show thesis using bytes_full [OF nclosed Some i full(3,4)] by blast
    next
      case t: taken
      show thesis
      proof (cases "int (length (sh_queue ?sh)) < cf_QueueSize cfg")
        case True
        have "e = None" "es = []"
          "s' = s\<lparr>fs_shards := (fs_shards s)[i := ?sh\<lparr>sh_bytes := sh_bytes ?sh + body_len item,
               sh_queue := sh_queue ?sh @ [item]\<rparr>]\<rparr>"
          using assms(1) True t(1,2) by (simp_all add: eq try_send_def)
        then show thesis by (rule taken [OF nclosed Some i t(3) True])
      next
        case False
        have rel: "release (body_len item) sh' = ?sh" using release_reserve [OF sane assms(3)] r t(1) by simp
        have "e = Some (owner_error ErrQueueFull item)" "es = refused item ''queue_full''" "s' = s"
          using assms(1) False t(1) rel i r by (simp_all add: eq try_send_def)
        then show thesis using count_full [OF nclosed Some i] False by simp
      qed
    qed
  qed
qed

section \<open>Lemmas: delivering\<close>

definition drop_labels :: "string set" where
  "drop_labels = {''permanent'', ''retry_exhausted'', ''shutdown_deadline'', ''shutdown_attempt_failed''}"

text \<open>
  How an item's delivery ends: after some counted retries, either one counted delivery, or one
  logged and counted drop under a reason of \<^verbatim>\<open>dropReasons\<close>.
\<close>

definition ended :: "queuedItem \<Rightarrow> effect list \<Rightarrow> bool" where
  "ended item es \<longleftrightarrow>
     (\<exists>k tail. es = replicate k (Inc ForwardRetries [PayloadLabel (it_path item)]) @ tail \<and>
        (tail = [Inc ForwardDelivered [PayloadLabel (it_path item)]] \<or>
         (\<exists>reason \<in> drop_labels. \<exists>err. tail = dropped item reason err)))"

fun is_outcome :: "effect \<Rightarrow> bool" where
  "is_outcome (Metric c n vs) \<longleftrightarrow> c = ForwardDelivered \<or> c = ForwardDropped"
| "is_outcome (LogLine l m as) \<longleftrightarrow> False"

definition outcomes :: "effect list \<Rightarrow> nat" where
  "outcomes es = length (filter is_outcome es)"

lemma outcomes_simps [simp, effect_simps]:
  "outcomes [] = 0" "outcomes (es @ fs) = outcomes es + outcomes fs"
  "outcomes (e # es) = (if is_outcome e then Suc (outcomes es) else outcomes es)"
  by (simp_all add: outcomes_def)

lemma PayloadLabel_cases: "PayloadLabel path \<in> {''deltas'', ''manifest'', ''static_baseline''}"
  by (simp add: PayloadLabel_def deltaBatchKind_def manifestKind_def staticBaselineKind_def)

lemma NUL_notin_PayloadLabel [simp]: "CHR 0x00 \<notin> set (PayloadLabel path)"
  using PayloadLabel_cases [of path] by auto

lemma NUL_notin_drop_labels: "reason \<in> drop_labels \<Longrightarrow> CHR 0x00 \<notin> set reason"
  by (auto simp: drop_labels_def)

lemma ended_counts:
  assumes "ended item es"
  shows "outcomes es = 1 \<and> effects_ok es \<and> ingest_events es = 0"
proof -
  obtain k tail where es: "es = replicate k (Inc ForwardRetries [PayloadLabel (it_path item)]) @ tail"
    and tail: "tail = [Inc ForwardDelivered [PayloadLabel (it_path item)]] \<or>
         (\<exists>reason \<in> drop_labels. \<exists>err. tail = dropped item reason err)"
    using assms by (auto simp: ended_def)
  have "outcomes tail = 1 \<and> effects_ok tail \<and> ingest_events tail = 0"
    using tail by (auto simp: dropped_def NUL_def NUL_notin_drop_labels)
  moreover have "outcomes (replicate k (Inc ForwardRetries [PayloadLabel (it_path item)])) = 0 \<and>
      effects_ok (replicate k (Inc ForwardRetries [PayloadLabel (it_path item)])) \<and>
      ingest_events (replicate k (Inc ForwardRetries [PayloadLabel (it_path item)])) = 0"
    by (induction k) (auto simp: NUL_def)
  ultimately show ?thesis by (simp add: es)
qed

lemma ended_delivered: "ended item [Inc ForwardDelivered [PayloadLabel (it_path item)]]"
  unfolding ended_def by (rule exI [of _ 0]) simp

lemma ended_dropped: "reason \<in> drop_labels \<Longrightarrow> ended item (dropped item reason err)"
  unfolding ended_def by (rule exI [of _ 0]) auto

lemma ended_retry:
  assumes "ended item es"
  shows "ended item (Inc ForwardRetries [PayloadLabel (it_path item)] # es)"
proof -
  let ?r = "Inc ForwardRetries [PayloadLabel (it_path item)]"
  obtain k tail where es: "es = replicate k ?r @ tail"
    and tail: "tail = [Inc ForwardDelivered [PayloadLabel (it_path item)]] \<or>
         (\<exists>reason \<in> drop_labels. \<exists>err. tail = dropped item reason err)"
    using assms by (auto simp: ended_def)
  have "?r # es = replicate (Suc k) ?r @ tail" by (simp add: es)
  with tail show ?thesis unfolding ended_def by blast
qed

lemmas ended_intros = ended_delivered ended_dropped ended_retry

lemma final_ended: "ended item (finalDeliveryAttempt cfg pt ctx_done ex item)"
  by (auto simp: finalDeliveryAttempt_def drop_labels_def intro: ended_intros split: prod.splits option.splits)

lemma deliver_loop_ended:
  assumes "deliver_loop cfg pt turns item n b = Some es"
  shows "ended item es"
  by (rule deliver_loop.raw_induct [where P = "\<lambda>cfg pt turns item n b es. ended item es", OF _ assms])
    (auto simp: Let_def drop_labels_def intro: ended_intros final_ended
      split: prod.splits option.splits if_splits bind_splits)

lemma backoff_next_frame:
  "backoff_next now j hint b = (w, b') \<Longrightarrow>
   bo_start b' = bo_start b \<and> bo_max_elapsed b' = bo_max_elapsed b \<and> bo_max b' = bo_max b"
  by (auto simp: backoff_next_def Let_def split: if_splits)

lemma backoff_next_spent:
  "in_int64 (bo_max_elapsed b) \<Longrightarrow> bo_max_elapsed b \<le> now - bo_start b \<Longrightarrow>
   fst (backoff_next now j hint b) = None"
  by (auto simp: backoff_next_def time_sub_def in_int64_def Let_def)

text \<open>
  The loop ends: the clock moves between two turns, and the budget, which a wait never resets, runs out.
\<close>

lemma deliver_loop_returns:
  assumes clock: "\<And>i. tn_now (turns i) < tn_now (turns (Suc i))"
    and "in_int64 (bo_max_elapsed b)" and "bo_start b + int n \<le> tn_now (turns n)"
  shows "\<exists>es. deliver_loop cfg pt turns item n b = Some es"
  using assms(2,3)
proof (induction "nat (bo_max_elapsed b - int n)" arbitrary: n b rule: less_induct)
  case less
  let ?t = "turns n"
  obtain retr ra err where a: "attempt cfg pt (tn_exchange ?t) item = (retr, ra, err)" by (metis prod_cases3)
  obtain w b' where nx: "backoff_next (tn_now ?t) (tn_rand ?t) ra b = (w, b')" by fastforce
  show ?case
  proof (cases "err = None \<or> \<not> retr \<or> tn_stop_after ?t \<or> w = None \<or> tn_stop_wait ?t")
    case True
    then show ?thesis
      by (subst deliver_loop.simps) (auto simp: a nx Let_def split: option.splits)
  next
    case False
    then obtain err0 wait where some: "err = Some err0" "w = Some wait" by auto
    have b': "bo_start b' = bo_start b" "bo_max_elapsed b' = bo_max_elapsed b"
      using backoff_next_frame [OF nx] by simp_all
    have "tn_now ?t - bo_start b < bo_max_elapsed b"
      using backoff_next_spent [OF less.prems(1), of "tn_now ?t" "tn_rand ?t" ra] nx some by fastforce
    with less.prems(2) have "nat (bo_max_elapsed b' - int (Suc n)) < nat (bo_max_elapsed b - int n)"
      by (simp add: b')
    moreover have "bo_start b' + int (Suc n) \<le> tn_now (turns (Suc n))"
      using less.prems(2) clock [of n] by (simp add: b')
    ultimately obtain es where "deliver_loop cfg pt turns item (Suc n) b' = Some es"
      using less.hyps [of b' "Suc n"] less.prems(1) by (auto simp: b')
    with False some show ?thesis
      by (subst deliver_loop.simps) (simp add: a nx Let_def)
  qed
qed

lemma drain_items_ended:
  assumes "drain_items cfg pt world n queue bytes = (es, bytes')"
    and "sane bytes" "queue_bytes queue \<le> bytes"
  shows "bytes' = bytes - queue_bytes queue \<and>
    (\<exists>ess. es = concat ess \<and> list_all2 ended queue ess)"
  using assms
proof (induction queue arbitrary: n bytes es bytes')
  case (Cons item queue)
  obtain ctx ex where w: "world n = (ctx, ex)" by fastforce
  let ?b = "bytes - body_len item"
  have rest: "queue_bytes queue \<le> ?b" using Cons.prems(3) by simp
  have "0 \<le> ?b" using rest queue_bytes_nonneg [of queue] by linarith
  then have sane: "sane ?b" using Cons.prems(2) body_len_nonneg [of item] unfolding sane_def by linarith
  then have wrap: "wrap64 ?b = ?b" by (intro wrap64_id) (simp add: sane_def in_int64_def)
  obtain es2 b2 where d: "drain_items cfg pt world (Suc n) queue ?b = (es2, b2)" by fastforce
  from Cons.IH [OF d sane rest] obtain ess where
    ih: "b2 = ?b - queue_bytes queue" "es2 = concat ess" "list_all2 ended queue ess" by blast
  have es: "es = finalDeliveryAttempt cfg pt ctx ex item @ es2" "bytes' = b2"
    using Cons.prems(1) d by (auto simp: w wrap)
  have "list_all2 ended (item # queue) (finalDeliveryAttempt cfg pt ctx ex item # ess)"
    using ih(3) by (simp add: final_ended)
  moreover have "es = concat (finalDeliveryAttempt cfg pt ctx ex item # ess)" by (simp add: es ih)
  moreover have "bytes' = bytes - queue_bytes (item # queue)" using ih(1) es(2) by simp
  ultimately show ?case by blast
qed auto

section \<open>The forwarding sink keeps the sink contract\<close>

definition fsink_shape :: "'k config \<Rightarrow> fsink \<Rightarrow> bool" where
  "fsink_shape cfg s \<longleftrightarrow>
     length (fs_shards s) = nat (cf_Shards cfg) \<and>
     list_all (\<lambda>sh. int (length (sh_queue sh)) \<le> max 0 (cf_QueueSize cfg)) (fs_shards s)"

lemma shape_update:
  assumes "fsink_shape cfg s" and "int (length (sh_queue sh)) \<le> max 0 (cf_QueueSize cfg)"
  shows "fsink_shape cfg (s\<lparr>fs_shards := (fs_shards s)[i := sh]\<rparr>)"
  using assms set_update_subset_insert [of "fs_shards s" i sh]
  by (auto simp: fsink_shape_def list_all_iff)

lemma enqueue_contract:
  assumes "fsink_shape cfg s" and "enqueue cfg item s = (e, es, s')"
  shows "fsink_shape cfg s' \<and> effects_ok es \<and> ingest_events es = 0"
proof (cases "fs_closed s \<or> shard_for s item = None")
  case True
  then show ?thesis using assms by (auto simp: enqueue_def shard_for_def refused_def NUL_def split: if_splits)
next
  case False
  then obtain i where i: "shard_for s item = Some i" by auto
  then have "i < length (fs_shards s)" unfolding shard_for_def by (rule shardIndex_range)
  then have q: "int (length (sh_queue (fs_shards s ! i))) \<le> max 0 (cf_QueueSize cfg)"
    using assms(1) by (simp add: fsink_shape_def list_all_length)
  obtain ok sh where r: "reserve (body_len item) (cf_QueueBytes cfg) (fs_shards s ! i) = (ok, sh)" by fastforce
  then have "sh_queue sh = sh_queue (fs_shards s ! i)" by simp
  then show ?thesis
    using assms False i r q
    by (auto simp: enqueue_def shard_for_def try_send_def release_def refused_def NUL_def
        intro!: shape_update split: bool.splits if_splits)
qed

lemma ForwardingSink_accept:
  "accept_of (ForwardingSink cfg marshal) p m =
     marshalAndEnqueue cfg marshal m (instanceOf (GetResource m))
       (case p of DeltaBatch \<Rightarrow> DeltaBatchPath | Manifest \<Rightarrow> ManifestPath | StaticBaseline \<Rightarrow> StaticBaselinePath)"
  by (cases p) (simp_all add: ForwardingSink_def)

interpretation forwarding: sink_contract "ForwardingSink cfg marshal" "fsink_shape cfg"
proof unfold_locales
  fix st st' p m e es
  assume shape: "fsink_shape cfg st" and acc: "accept_of (ForwardingSink cfg marshal) p m st = (e, es, st')"
  have "fsink_shape cfg st' \<and> effects_ok es \<and> ingest_events es = 0"
  proof (cases "marshal m")
    case (Inl err)
    then show ?thesis using shape acc by (auto simp: ForwardingSink_accept marshalAndEnqueue_def Let_def NUL_def)
  next
    case (Inr body)
    then show ?thesis
      using acc by (auto simp: ForwardingSink_accept marshalAndEnqueue_def Let_def dest!: enqueue_contract [OF shape])
  qed
  then show "fsink_shape cfg st'" and "effects_ok es \<and> ingest_events es = 0" by simp_all
qed

section \<open>Lemmas: the base URL\<close>

lemma trim_right_byte_split: "\<exists>k. s = trim_right_byte c s @ replicate k c"
proof -
  have "rev s = takeWhile (\<lambda>x. x = c) (rev s) @ dropWhile (\<lambda>x. x = c) (rev s)" by simp
  moreover have "takeWhile (\<lambda>x. x = c) (rev s) = replicate (length (takeWhile (\<lambda>x. x = c) (rev s))) c"
    by (metis (full_types) replicate_eqI set_takeWhileD)
  ultimately have "s = trim_right_byte c s @ rev (replicate (length (takeWhile (\<lambda>x. x = c) (rev s))) c)"
    unfolding trim_right_byte_def by (metis rev_append rev_rev_ident)
  then show ?thesis by (metis rev_replicate)
qed

lemma trim_right_byte_last: "trim_right_byte c s \<noteq> [] \<Longrightarrow> last (trim_right_byte c s) \<noteq> c"
  unfolding trim_right_byte_def by (metis (full_types) hd_dropWhile last_rev rev_is_Nil_conv)

lemma withDefaults_fields:
  "cf_URL (withDefaults c) = cf_URL c" "cf_Shards (withDefaults c) = or_default defaultShards (cf_Shards c)"
  "cf_QueueSize (withDefaults c) = or_default defaultQueueSize (cf_QueueSize c)"
  by (simp_all add: withDefaults_def Let_def)

lemma withDefaults_positive:
  "0 < cf_Shards (withDefaults c)" "0 < cf_QueueSize (withDefaults c)" "0 < cf_QueueBytes (withDefaults c)"
  "0 < cf_RequestTimeout (withDefaults c)" "0 < cf_RetryInitialInterval (withDefaults c)"
  "0 < cf_RetryMaxInterval (withDefaults c)" "0 < cf_RetryMaxElapsedTime (withDefaults c)"
  by (simp_all add: withDefaults_def Let_def or_default_def defaultShards_def defaultQueueSize_def
      defaultQueueBytes_def defaultRequestTimeout_def defaultRetryInitialInterval_def
      defaultRetryMaxInterval_def defaultRetryMaxElapsedTime_def)

text \<open>How large a sink can be: \<open>2 ^ 45\<close> shards, with 3198579280801 items queued on each.\<close>

lemma make_shards_None:
  assumes "0 < cf_Shards cfg" and "0 < cf_QueueSize cfg"
  shows "make_shards cfg = None \<longleftrightarrow> 2 ^ 45 < cf_Shards cfg \<or> 3198579280801 < cf_QueueSize cfg"
  using assms by (auto simp: make_shards_def make_slice_fits_def make_chan_fits_def max_alloc_def)

lemma make_shards_Some:
  "make_shards cfg = Some s \<Longrightarrow>
   s = \<lparr>fs_shards = replicate (nat (cf_Shards cfg)) \<lparr>sh_queue = [], sh_bytes = 0\<rparr>, fs_closed = False\<rparr>"
  by (simp add: make_shards_def split: if_splits)

lemma make_shards_fits:
  assumes "0 < cf_Shards cfg" "cf_Shards cfg \<le> 2 ^ 45" and "0 < cf_QueueSize cfg" "cf_QueueSize cfg \<le> 3198579280801"
  shows "make_shards cfg =
    Some \<lparr>fs_shards = replicate (nat (cf_Shards cfg)) \<lparr>sh_queue = [], sh_bytes = 0\<rparr>, fs_closed = False\<rparr>"
  using make_shards_None [OF assms(1,3)] assms(2,4) by (cases "make_shards cfg") (auto dest: make_shards_Some)

section \<open>A concrete sink\<close>

text \<open>The default configuration for one backend, an item of the demo service, and a backend that answers one status.\<close>

definition demo_config :: "unit config" where
  "demo_config =
     withDefaults \<lparr>cf_URL = ''https://b'', cf_AuthToken = Some (StaticToken ''k''), cf_Shards = 0, cf_QueueSize = 0,
       cf_QueueBytes = 0, cf_HTTPClient = None, cf_RequestTimeout = 0, cf_RetryInitialInterval = 0,
       cf_RetryMaxInterval = 0, cf_RetryMaxElapsedTime = 0\<rparr>"

definition demo_item :: queuedItem where
  "demo_item =
     \<lparr>it_owner = \<lparr>inst_namespace = [], inst_service = ''demo'', inst_id = ''i1''\<rparr>,
      it_path = DeltaBatchPath, it_body = ''batch''\<rparr>"

definition demo_sink :: fsink where
  "demo_sink = \<lparr>fs_shards = replicate 8 \<lparr>sh_queue = [], sh_bytes = 0\<rparr>, fs_closed = False\<rparr>"

definition demo_exchange :: "int \<Rightarrow> unit exchange" where
  "demo_exchange code =
     \<lparr>ex_new_request = (\<lambda>u. None), ex_do = (\<lambda>r. Inr \<lparr>br_code = code, br_status = ''status'', br_retry_after = []\<rparr>),
      ex_keys = (), ex_now = 0\<rparr>"

text \<open>A backend that is never available; the clock shows one second per turn.\<close>

definition demo_turns :: "nat \<Rightarrow> unit turn" where
  "demo_turns n =
     \<lparr>tn_exchange = demo_exchange 503, tn_stop_after = False, tn_now = int n * 10 ^ 9, tn_rand = 0,
      tn_stop_wait = False, tn_ctx_done = False, tn_final = demo_exchange 503\<rparr>"

lemma demo_config_fields:
  "cf_URL demo_config = ''https://b''" "cf_Shards demo_config = 8" "cf_QueueSize demo_config = 64"
  "cf_QueueBytes demo_config = 67108864" "cf_RetryMaxElapsedTime demo_config = 300000000000"
  "authToken demo_config k = ''k''"
  by (simp_all add: demo_config_def withDefaults_def or_default_def defaultShards_def defaultQueueSize_def
      defaultQueueBytes_def defaultRetryMaxElapsedTime_def authToken_def StaticToken_def Let_def)

lemma demo_shard: "shard_for demo_sink demo_item = Some 4"
  by code_simp

section \<open>Properties\<close>

text \<open>
  C17: every accepted item ends, and ends once. Whatever the backend answers and whenever a shutdown
  starts, if the clock moves between two turns of the retry loop, \<^verbatim>\<open>deliver\<close> returns; its trace is a
  number of counted retries followed by exactly one counted delivery or one logged, counted drop.
\<close>

theorem deliver_ends:
  assumes "\<forall>i. tn_now (turns i) < tn_now (turns (Suc i))" and "start \<le> tn_now (turns 0)"
    and "in_int64 (cf_RetryMaxElapsedTime cfg)"
  shows "\<exists>es. deliver cfg pt start turns item = Some es \<and> ended item es \<and> outcomes es = 1"
proof -
  let ?b = "newBackoff (cf_RetryInitialInterval cfg) (cf_RetryMaxInterval cfg) (cf_RetryMaxElapsedTime cfg) start"
  obtain es where es: "deliver_loop cfg pt turns item 0 ?b = Some es"
    using deliver_loop_returns [of turns ?b 0 cfg pt item] assms by (auto simp: newBackoff_def)
  then show ?thesis using deliver_loop_ended [OF es] ended_counts by (auto simp: deliver_def)
qed

theorem deliver_ends_witness:
  "\<exists>es. deliver demo_config (\<lambda>v. None) 0 demo_turns demo_item = Some es \<and> ended demo_item es \<and> outcomes es = 1"
  by (rule deliver_ends) (simp_all add: demo_turns_def demo_config_fields in_int64_def)

text \<open>
  C21: \<^verbatim>\<open>enqueue\<close> takes an item exactly when the sink is open, the item's shard has a place in its queue,
  and the bytes fit or the shard holds none. A refusal leaves the sink as it was, with the byte count
  given back, and is counted once as refused; taking the item appends it to its shard's queue, adds
  its size to that shard's count, and touches no other shard.
\<close>

theorem enqueue_exact:
  assumes "shard_for s item = Some i"
    and "\<forall>sh \<in> set (fs_shards s). sane (sh_bytes sh)" and "sane (body_len item)"
  shows "(\<exists>e es. enqueue cfg item s = (Some e, es, s) \<and>
            (\<exists>reason. es = [Inc ForwardRefused [PayloadLabel (it_path item), reason]]) \<and>
            (fs_closed s \<or> 0 < heldBytes (fs_shards s ! i) \<and>
               cf_QueueBytes cfg < heldBytes (fs_shards s ! i) + body_len item \<or>
             cf_QueueSize cfg \<le> int (length (sh_queue (fs_shards s ! i))))) \<or>
         (enqueue cfg item s =
            (None, [], s\<lparr>fs_shards := (fs_shards s)[i := (fs_shards s ! i)\<lparr>
               sh_bytes := heldBytes (fs_shards s ! i) + body_len item,
               sh_queue := sh_queue (fs_shards s ! i) @ [item]\<rparr>]\<rparr>) \<and>
          \<not> fs_closed s \<and> int (length (sh_queue (fs_shards s ! i))) < cf_QueueSize cfg \<and>
          (heldBytes (fs_shards s ! i) = 0 \<or>
           heldBytes (fs_shards s ! i) + body_len item \<le> cf_QueueBytes cfg))"
proof -
  obtain e es s' where enq: "enqueue cfg item s = (e, es, s')" by (metis prod_cases3)
  from enq assms(2,3) show ?thesis
    by (cases rule: enqueue_cases) (use enq assms(1) in \<open>auto simp: refused_def heldBytes_def\<close>)
qed

theorem enqueue_exact_witness:
  "enqueue demo_config demo_item demo_sink =
     (None, [], demo_sink\<lparr>fs_shards := (fs_shards demo_sink)[4 := \<lparr>sh_queue = [demo_item], sh_bytes = 5\<rparr>]\<rparr>)"
  using enqueue_exact [OF demo_shard, of demo_config]
  by (auto simp: demo_sink_def demo_item_def sane_def body_len_def heldBytes_def demo_config_fields)

text \<open>
  C22: a shard key decodes one way only. A reader that takes the length prefixes at their word recovers
  the namespace, the service and the instance id from the key, whatever bytes they hold, so two
  instances never share a key.
\<close>

theorem shard_key_decodes:
  "decode_key (shardKey i) = Some i \<and> (shardKey i = shardKey j \<longleftrightarrow> i = j)"
  by (metis decode_key_shardKey option.inject)

text \<open>
  One instance's payloads all go to one shard, which exists. For fewer than 2^32 shards the index
  is defined and in range, and it depends only on the trimmed namespace, the trimmed service name and
  the instance id: neither the run, the environment nor surrounding spaces move an instance.
\<close>

theorem instance_pinned:
  assumes "0 < n" "n < 2 ^ 32"
    and "trim_space (GetServiceNamespace res) = trim_space (GetServiceNamespace res')"
    and "trim_space (GetServiceName res) = trim_space (GetServiceName res')"
    and "GetServiceInstanceId res = GetServiceInstanceId res'"
  shows "\<exists>i. shardIndex (shardKey (instanceOf res)) n = Some i \<and>
             shardIndex (shardKey (instanceOf res')) n = Some i \<and> int i < n"
proof -
  have same: "instanceOf res = instanceOf res'" using assms(3-5) by (simp add: instanceOf_def)
  obtain i where i: "shardIndex (shardKey (instanceOf res)) n = Some i"
    using shardIndex_total [OF assms(1,2)] by blast
  moreover have "i < nat n"
    by (rule shardIndex_range [where key = "shardKey (instanceOf res)"]) (use i assms(1) in simp)
  ultimately show ?thesis using same assms(1) by (auto simp: zless_nat_conj)
qed

theorem instance_pinned_witness:
  "\<exists>i. shardIndex (shardKey (instanceOf (Some demo_resource))) 8 = Some i \<and>
       shardIndex (shardKey (instanceOf (Some (set_str ''run_id'' ''r2'' demo_resource)))) 8 = Some i \<and> int i < 8"
  by (rule instance_pinned) (simp_all add: GetServiceNamespace_def GetServiceName_def GetServiceInstanceId_def)

text \<open>
  An attempt is read as its contract says. It is a delivery exactly for a 2xx answer; a failure is
  retryable exactly when no answer came or the status is 429, 502, 503 or 504; and only a retryable
  status can ask for a wait.
\<close>

theorem attempt_classified:
  "(snd (snd (attempt cfg pt ex item)) = None \<longleftrightarrow>
      ex_new_request ex (cf_URL cfg @ it_path item) = None \<and>
      (\<exists>resp. ex_do ex (attempt_request cfg (ex_keys ex) item) = Inr resp \<and> br_code resp \<in> {200..299})) \<and>
   (fst (attempt cfg pt ex item) \<longleftrightarrow>
      ex_new_request ex (cf_URL cfg @ it_path item) = None \<and>
      (case ex_do ex (attempt_request cfg (ex_keys ex) item) of
         Inl err \<Rightarrow> True | Inr resp \<Rightarrow> br_code resp \<in> {429, 502, 503, 504})) \<and>
   (fst (attempt cfg pt ex item) \<or> fst (snd (attempt cfg pt ex item)) = 0)"
  by (auto simp: attempt_def isRetryableStatus_def Let_def split: option.splits sum.splits)

text \<open>
  The drain empties a shard. It gives every queued item, in queue order, its one final attempt, each
  ending as one counted delivery or drop, and gives back exactly the bytes of those items.
\<close>

theorem drain_complete:
  assumes "sane (sh_bytes sh)" and "queue_bytes (sh_queue sh) \<le> sh_bytes sh"
  shows "\<exists>ess. fst (drain cfg pt world sh) = concat ess \<and> list_all2 ended (sh_queue sh) ess \<and>
     sh_queue (snd (drain cfg pt world sh)) = [] \<and>
     heldBytes (snd (drain cfg pt world sh)) = heldBytes sh - queue_bytes (sh_queue sh)"
proof -
  obtain es bytes where d: "drain_items cfg pt world 0 (sh_queue sh) (sh_bytes sh) = (es, bytes)" by fastforce
  from drain_items_ended [OF d assms] show ?thesis by (auto simp: drain_def d heldBytes_def)
qed

theorem drain_complete_witness:
  "\<exists>ess. fst (drain demo_config (\<lambda>v. None) (\<lambda>n. (n > 0, demo_exchange 202))
            \<lparr>sh_queue = [demo_item, demo_item], sh_bytes = 10\<rparr>) = concat ess \<and>
     list_all2 ended [demo_item, demo_item] ess"
  using drain_complete [of "\<lparr>sh_queue = [demo_item, demo_item], sh_bytes = 10\<rparr>" demo_config "\<lambda>v. None"
      "\<lambda>n. (n > 0, demo_exchange 202)"]
  by (auto simp: sane_def body_len_def demo_item_def)

text \<open>
  A sink that starts is ready to use. Its base URL is the configured one without its trailing
  slashes, with an http or https scheme, and holds no fragment mark, so that joining a route path gives
  a URL with one separator; every limit and interval is positive; and it has one empty shard per
  configured shard.
\<close>

theorem new_sink_ready:
  assumes "NewForwardingSink quote url_parse k cfg0 = (es, Some (Inr (cfg, s)))"
  shows "(\<exists>n. cf_URL cfg0 = cf_URL cfg @ replicate n CHR ''/'') \<and>
    (cf_URL cfg \<noteq> [] \<longrightarrow> last (cf_URL cfg) \<noteq> CHR ''/'') \<and> CHR ''#'' \<notin> set (cf_URL cfg) \<and>
    (\<exists>u. url_parse (cf_URL cfg0) = Inr u \<and> url_scheme u \<in> {''http'', ''https''} \<and> url_host u \<noteq> [] \<and>
       \<not> url_user u \<and> url_raw_query u = []) \<and>
    0 < cf_Shards cfg \<and> 0 < cf_QueueSize cfg \<and> 0 < cf_QueueBytes cfg \<and> 0 < cf_RetryMaxElapsedTime cfg \<and>
    fsink_shape cfg s \<and> \<not> fs_closed s \<and> (\<forall>sh \<in> set (fs_shards s). sh_queue sh = [] \<and> heldBytes sh = 0)"
proof -
  have url: "cf_URL (withDefaults cfg0) = cf_URL cfg0" by (simp add: withDefaults_def Let_def)
  obtain base scheme where v: "validateURL quote url_parse (cf_URL cfg0) = Inr (base, scheme)"
    and cfg: "cfg = (withDefaults cfg0)\<lparr>cf_URL := base\<rparr>"
    and s: "s = \<lparr>fs_shards = replicate (nat (cf_Shards cfg)) \<lparr>sh_queue = [], sh_bytes = 0\<rparr>, fs_closed = False\<rparr>"
    using assms by (auto simp: NewForwardingSink_def Let_def url dest: make_shards_Some split: sum.splits prod.splits option.splits)
  obtain u where u: "url_parse (cf_URL cfg0) = Inr u" "url_scheme u \<in> {''http'', ''https''}" "url_host u \<noteq> []"
    "\<not> url_user u" "url_raw_query u = []" "CHR ''#'' \<notin> set (cf_URL cfg0)"
    and base: "base = trim_right_byte CHR ''/'' (cf_URL cfg0)"
    using v by (auto simp: validateURL_def split: sum.splits if_splits)
  obtain n where n: "cf_URL cfg0 = base @ replicate n CHR ''/''"
    using trim_right_byte_split base by blast
  have frag: "CHR ''#'' \<notin> set base" using u(6) by (simp add: n)
  have last: "base \<noteq> [] \<longrightarrow> last base \<noteq> CHR ''/''" using trim_right_byte_last base by blast
  have shape: "fsink_shape cfg s \<and> \<not> fs_closed s \<and> (\<forall>sh \<in> set (fs_shards s). sh_queue sh = [] \<and> heldBytes sh = 0)"
    by (simp add: s fsink_shape_def heldBytes_def list_all_iff)
  have base_url: "cf_URL cfg = base" by (simp add: cfg)
  have pos: "0 < cf_Shards cfg \<and> 0 < cf_QueueSize cfg \<and> 0 < cf_QueueBytes cfg \<and> 0 < cf_RetryMaxElapsedTime cfg"
    by (simp add: cfg withDefaults_positive)
  show ?thesis unfolding base_url using n last frag u(1-5) pos shape by blast
qed

theorem new_sink_ready_witness:
  "\<exists>cfg s. NewForwardingSink id
     (\<lambda>raw. Inr \<lparr>url_scheme = ''https'', url_host = ''b'', url_user = False, url_raw_query = [],
        url_force_query = False, url_fragment = []\<rparr>) () (demo_config\<lparr>cf_URL := ''https://b/''\<rparr>) = ([], Some (Inr (cfg, s))) \<and>
     cf_URL cfg = ''https://b'' \<and> last (cf_URL cfg) \<noteq> CHR ''/'' \<and> fsink_shape cfg s"
proof -
  let ?up = "\<lambda>raw. Inr \<lparr>url_scheme = ''https'', url_host = ''b'', url_user = False, url_raw_query = [],
        url_force_query = False, url_fragment = []\<rparr>"
  let ?c = "demo_config\<lparr>cf_URL := ''https://b/''\<rparr>"
  obtain cfg s where new: "NewForwardingSink id ?up () ?c = ([], Some (Inr (cfg, s)))"
    and url: "cf_URL cfg = ''https://b''"
    by (auto simp: NewForwardingSink_def make_shards_fits validateURL_def withDefaults_def or_default_def demo_config_def
        defaultShards_def defaultQueueSize_def trim_right_byte_def Let_def)
  note ready = new_sink_ready [OF new]
  have "cf_URL cfg \<noteq> [] \<longrightarrow> last (cf_URL cfg) \<noteq> CHR ''/''" using ready by (elim conjE)
  then have "last (cf_URL cfg) \<noteq> CHR ''/''" by (simp add: url)
  moreover have "fsink_shape cfg s" using ready by (elim conjE)
  ultimately show ?thesis using new url by (intro exI conjI)
qed

end
