(* ===== verification/Forward_Machine.thy ===== *)
theory Forward_Machine
  imports Forward "HOL-Library.Multiset"
begin

text \<open>
  The goroutines of a \<^verbatim>\<open>ForwardingSink\<close>: any number of concurrent \<^verbatim>\<open>enqueue\<close> calls, one \<^verbatim>\<open>runShard\<close> worker per
  shard, and \<^verbatim>\<open>Shutdown\<close>. A step is one goroutine moving from one point where another can interleave to the
  next: taking or leaving the sink's lock, one critical section of a shard, one channel operation, one
  delivery.

  \<open>m_closed\<close>, \<open>m_stopping\<close> and \<open>m_ctx_done\<close> are \<^verbatim>\<open>closed\<close>, the closed channel \<^verbatim>\<open>stopping\<close>, and the ended
  context. \<open>m_sent\<close> and \<open>m_ended\<close> are history: for each shard the items sent on its queue and the items whose
  delivery ended, in order. \<open>m_trace\<close> collects the effects.
\<close>

section \<open>State\<close>

text \<open>
  The points of an \<^verbatim>\<open>enqueue\<close> call: before the read lock, holding it before the check of \<^verbatim>\<open>closed\<close>, after the
  check, after a successful \<^verbatim>\<open>reserve\<close> on a shard, after the queue turned the item away, and returned.
\<close>

datatype call =
    CallStart queuedItem
  | CallLocked queuedItem
  | CallChecked queuedItem
  | CallReserved queuedItem nat
  | CallUndo queuedItem nat
  | CallDone queuedItem "go_error option"

text \<open>
  The points of \<^verbatim>\<open>runShard\<close>: the top of its loop, the blocking \<^verbatim>\<open>select\<close>, inside \<^verbatim>\<open>deliver\<close>, before \<^verbatim>\<open>release\<close>
  (the flag says that the worker drains), the top of \<^verbatim>\<open>drain\<close>'s loop, inside \<^verbatim>\<open>finalDeliveryAttempt\<close>, and
  returned.
\<close>

datatype worker =
    WTop
  | WSelect
  | WDeliver queuedItem
  | WRelease queuedItem bool
  | WDrain
  | WFinal queuedItem
  | WExit

datatype shutdown = SIdle | SLocking | SLocked | SUnlocked | SWaiting | SCancelled | SReturned

record fm =
  m_shards :: "shard list"
  m_workers :: "worker list"
  m_calls :: "call list"
  m_closed :: bool
  m_stopping :: bool
  m_ctx_done :: bool
  m_shutdown :: shutdown
  m_sent :: "queuedItem list list"
  m_ended :: "queuedItem list list"
  m_trace :: "effect list"

definition fm_init :: "'k config \<Rightarrow> fm" where
  "fm_init cfg =
     (let n = nat (cf_Shards cfg) in
      \<lparr>m_shards = replicate n \<lparr>sh_queue = [], sh_bytes = 0\<rparr>, m_workers = replicate n WTop, m_calls = [],
       m_closed = False, m_stopping = False, m_ctx_done = False, m_shutdown = SIdle,
       m_sent = replicate n [], m_ended = replicate n [], m_trace = []\<rparr>)"

fun call_item :: "call \<Rightarrow> queuedItem" where
  "call_item (CallStart item) = item"
| "call_item (CallLocked item) = item"
| "call_item (CallChecked item) = item"
| "call_item (CallReserved item i) = item"
| "call_item (CallUndo item i) = item"
| "call_item (CallDone item e) = item"

text \<open>The calls that hold the read lock, and those of them that have passed the check of \<^verbatim>\<open>closed\<close>.\<close>

fun past_check :: "call \<Rightarrow> bool" where
  "past_check (CallChecked item) = True"
| "past_check (CallReserved item i) = True"
| "past_check (CallUndo item i) = True"
| "past_check _ = False"

fun holds_rlock :: "call \<Rightarrow> bool" where
  "holds_rlock (CallLocked item) = True"
| "holds_rlock c = past_check c"

definition put_call :: "nat \<Rightarrow> call \<Rightarrow> fm \<Rightarrow> fm" where
  "put_call j c s = s\<lparr>m_calls := (m_calls s)[j := c]\<rparr>"

definition put_shard :: "nat \<Rightarrow> shard \<Rightarrow> fm \<Rightarrow> fm" where
  "put_shard i sh s = s\<lparr>m_shards := (m_shards s)[i := sh]\<rparr>"

definition put_worker :: "nat \<Rightarrow> worker \<Rightarrow> fm \<Rightarrow> fm" where
  "put_worker i w s = s\<lparr>m_workers := (m_workers s)[i := w]\<rparr>"

definition log_effects :: "effect list \<Rightarrow> fm \<Rightarrow> fm" where
  "log_effects es s = s\<lparr>m_trace := m_trace s @ es\<rparr>"

definition note_sent :: "nat \<Rightarrow> queuedItem \<Rightarrow> fm \<Rightarrow> fm" where
  "note_sent i item s = s\<lparr>m_sent := (m_sent s)[i := m_sent s ! i @ [item]]\<rparr>"

definition note_ended :: "nat \<Rightarrow> queuedItem \<Rightarrow> fm \<Rightarrow> fm" where
  "note_ended i item s = s\<lparr>m_ended := (m_ended s)[i := m_ended s ! i @ [item]]\<rparr>"

lemmas put_defs = put_call_def put_shard_def put_worker_def log_effects_def note_sent_def note_ended_def

text \<open>What \<^verbatim>\<open>deliver\<close> sees of a shutdown has happened by the time it returns.\<close>

definition turns_agree :: "fm \<Rightarrow> (nat \<Rightarrow> 'k turn) \<Rightarrow> bool" where
  "turns_agree s turns \<longleftrightarrow>
     (\<forall>n. (tn_stop_after (turns n) \<or> tn_stop_wait (turns n) \<longrightarrow> m_stopping s) \<and>
          (tn_ctx_done (turns n) \<longrightarrow> m_ctx_done s))"

section \<open>Steps\<close>

text \<open>The steps of the \<^verbatim>\<open>enqueue\<close> call number \<open>j\<close>.\<close>

inductive call_step :: "'k config \<Rightarrow> nat \<Rightarrow> fm \<Rightarrow> fm \<Rightarrow> bool" for cfg :: "'k config" and j :: nat where
  lock:
    "m_calls s ! j = CallStart item \<Longrightarrow> m_shutdown s \<noteq> SLocking \<Longrightarrow> m_shutdown s \<noteq> SLocked \<Longrightarrow>
     call_step cfg j s (put_call j (CallLocked item) s)"
| shut:
    "m_calls s ! j = CallLocked item \<Longrightarrow> m_closed s \<Longrightarrow>
     call_step cfg j s
       (log_effects (refused item ''shutting_down'')
         (put_call j (CallDone item (Some (owner_error ErrShuttingDown item))) s))"
| checked:
    "m_calls s ! j = CallLocked item \<Longrightarrow> \<not> m_closed s \<Longrightarrow>
     call_step cfg j s (put_call j (CallChecked item) s)"
| reserved:
    "m_calls s ! j = CallChecked item \<Longrightarrow>
     shardIndex (shardKey (it_owner item)) (int (length (m_shards s))) = Some i \<Longrightarrow>
     reserve (body_len item) (cf_QueueBytes cfg) (m_shards s ! i) = (True, sh) \<Longrightarrow>
     call_step cfg j s (put_shard i sh (put_call j (CallReserved item i) s))"
| bytes_full:
    "m_calls s ! j = CallChecked item \<Longrightarrow>
     shardIndex (shardKey (it_owner item)) (int (length (m_shards s))) = Some i \<Longrightarrow>
     reserve (body_len item) (cf_QueueBytes cfg) (m_shards s ! i) = (False, sh) \<Longrightarrow>
     call_step cfg j s
       (log_effects (refused item ''queue_full'')
         (put_call j (CallDone item (Some (owner_error ErrQueueFull item))) s))"
| sent:
    "m_calls s ! j = CallReserved item i \<Longrightarrow> try_send (cf_QueueSize cfg) item (m_shards s ! i) = (True, sh) \<Longrightarrow>
     call_step cfg j s (note_sent i item (put_shard i sh (put_call j (CallDone item None) s)))"
| unsent:
    "m_calls s ! j = CallReserved item i \<Longrightarrow> try_send (cf_QueueSize cfg) item (m_shards s ! i) = (False, sh) \<Longrightarrow>
     call_step cfg j s (put_call j (CallUndo item i) s)"
| undone:
    "m_calls s ! j = CallUndo item i \<Longrightarrow>
     call_step cfg j s
       (log_effects (refused item ''queue_full'')
         (put_shard i (release (body_len item) (m_shards s ! i))
           (put_call j (CallDone item (Some (owner_error ErrQueueFull item))) s)))"

text \<open>The steps of the worker of shard \<open>i\<close>.\<close>

inductive worker_step ::
  "'k config \<Rightarrow> (string \<Rightarrow> int option) \<Rightarrow> nat \<Rightarrow> fm \<Rightarrow> fm \<Rightarrow> bool"
  for cfg :: "'k config" and pt :: "string \<Rightarrow> int option" and i :: nat where
  top_stop:
    "m_workers s ! i = WTop \<Longrightarrow> m_stopping s \<Longrightarrow> worker_step cfg pt i s (put_worker i WDrain s)"
| top_go:
    "m_workers s ! i = WTop \<Longrightarrow> \<not> m_stopping s \<Longrightarrow> worker_step cfg pt i s (put_worker i WSelect s)"
| take_item:
    "m_workers s ! i = WSelect \<Longrightarrow> sh_queue (m_shards s ! i) = item # queue \<Longrightarrow>
     worker_step cfg pt i s
       (put_shard i ((m_shards s ! i)\<lparr>sh_queue := queue\<rparr>) (put_worker i (WDeliver item) s))"
| select_stop:
    "m_workers s ! i = WSelect \<Longrightarrow> m_stopping s \<Longrightarrow> worker_step cfg pt i s (put_worker i WDrain s)"
| delivered:
    "m_workers s ! i = WDeliver item \<Longrightarrow> deliver cfg pt start turns item = Some es \<Longrightarrow> turns_agree s turns \<Longrightarrow>
     worker_step cfg pt i s
       (note_ended i item (log_effects es (put_worker i (WRelease item False) s)))"
| released:
    "m_workers s ! i = WRelease item draining \<Longrightarrow>
     worker_step cfg pt i s
       (put_shard i (release (body_len item) (m_shards s ! i))
         (put_worker i (if draining then WDrain else WTop) s))"
| drain_take:
    "m_workers s ! i = WDrain \<Longrightarrow> sh_queue (m_shards s ! i) = item # queue \<Longrightarrow>
     worker_step cfg pt i s
       (put_shard i ((m_shards s ! i)\<lparr>sh_queue := queue\<rparr>) (put_worker i (WFinal item) s))"
| finalled:
    "m_workers s ! i = WFinal item \<Longrightarrow>
     worker_step cfg pt i s
       (note_ended i item
         (log_effects (finalDeliveryAttempt cfg pt (m_ctx_done s) ex item) (put_worker i (WRelease item True) s)))"
| drained:
    "m_workers s ! i = WDrain \<Longrightarrow> sh_queue (m_shards s ! i) = [] \<Longrightarrow>
     worker_step cfg pt i s (put_worker i WExit s)"

text \<open>
  The steps of the first \<^verbatim>\<open>Shutdown\<close> call; a later call returns at once and changes nothing. Asking for the
  write lock (\<open>SLocking\<close>) keeps new readers out, and the lock is had once no reader is left.
\<close>

inductive shutdown_step :: "fm \<Rightarrow> fm \<Rightarrow> bool" where
  ask: "m_shutdown s = SIdle \<Longrightarrow> shutdown_step s (s\<lparr>m_shutdown := SLocking\<rparr>)"
| locked:
    "m_shutdown s = SLocking \<Longrightarrow> list_all (\<lambda>c. \<not> holds_rlock c) (m_calls s) \<Longrightarrow>
     shutdown_step s (s\<lparr>m_shutdown := SLocked\<rparr>)"
| close: "m_shutdown s = SLocked \<Longrightarrow> shutdown_step s (s\<lparr>m_shutdown := SUnlocked, m_closed := True\<rparr>)"
| stop: "m_shutdown s = SUnlocked \<Longrightarrow> shutdown_step s (s\<lparr>m_shutdown := SWaiting, m_stopping := True\<rparr>)"
| deadline: "m_shutdown s = SWaiting \<Longrightarrow> shutdown_step s (s\<lparr>m_shutdown := SCancelled, m_ctx_done := True\<rparr>)"
| return:
    "m_shutdown s = SWaiting \<or> m_shutdown s = SCancelled \<Longrightarrow> list_all (\<lambda>w. w = WExit) (m_workers s) \<Longrightarrow>
     shutdown_step s (s\<lparr>m_shutdown := SReturned, m_ctx_done := True\<rparr>)"

inductive fm_step :: "'k config \<Rightarrow> (string \<Rightarrow> int option) \<Rightarrow> fm \<Rightarrow> fm \<Rightarrow> bool"
  for cfg :: "'k config" and pt :: "string \<Rightarrow> int option" where
  arrive: "fm_step cfg pt s (s\<lparr>m_calls := m_calls s @ [CallStart item]\<rparr>)"
| call: "j < length (m_calls s) \<Longrightarrow> call_step cfg j s t \<Longrightarrow> fm_step cfg pt s t"
| worker: "i < length (m_workers s) \<Longrightarrow> worker_step cfg pt i s t \<Longrightarrow> fm_step cfg pt s t"
| shutting: "shutdown_step s t \<Longrightarrow> fm_step cfg pt s t"

inductive fm_reach :: "'k config \<Rightarrow> (string \<Rightarrow> int option) \<Rightarrow> fm \<Rightarrow> bool"
  for cfg :: "'k config" and pt :: "string \<Rightarrow> int option" where
  start: "fm_reach cfg pt (fm_init cfg)"
| step: "fm_reach cfg pt s \<Longrightarrow> fm_step cfg pt s t \<Longrightarrow> fm_reach cfg pt t"

inductive_cases call_stepE: "call_step cfg j s t"
inductive_cases worker_stepE: "worker_step cfg pt i s t"
inductive_cases shutdown_stepE: "shutdown_step s t"
inductive_cases fm_stepE: "fm_step cfg pt s t"

section \<open>Invariants of the machine\<close>

text \<open>
  An invariant holds at the start and is kept by each kind of step; then it holds in every reachable
  state, under every interleaving.
\<close>

locale fm_invariant =
  fixes cfg :: "'k config" and pt :: "string \<Rightarrow> int option" and I :: "fm \<Rightarrow> bool"
  assumes I_init: "I (fm_init cfg)"
    and I_arrive: "I s \<Longrightarrow> I (s\<lparr>m_calls := m_calls s @ [CallStart item]\<rparr>)"
    and I_call: "I s \<Longrightarrow> j < length (m_calls s) \<Longrightarrow> call_step cfg j s t \<Longrightarrow> I t"
    and I_worker: "I s \<Longrightarrow> i < length (m_workers s) \<Longrightarrow> worker_step cfg pt i s t \<Longrightarrow> I t"
    and I_shutdown: "I s \<Longrightarrow> shutdown_step s t \<Longrightarrow> I t"
begin

lemma step_keeps: "fm_step cfg pt s t \<Longrightarrow> I s \<Longrightarrow> I t"
  by (erule fm_stepE) (auto intro: I_arrive I_call I_worker I_shutdown)

lemma reach_holds: "fm_reach cfg pt s \<Longrightarrow> I s"
  by (induction rule: fm_reach.induct) (auto intro: I_init step_keeps)

end

subsection \<open>Shape\<close>

fun call_shard :: "call \<Rightarrow> nat option" where
  "call_shard (CallReserved item i) = Some i"
| "call_shard (CallUndo item i) = Some i"
| "call_shard _ = None"

definition shape_inv :: "'k config \<Rightarrow> fm \<Rightarrow> bool" where
  "shape_inv cfg s \<longleftrightarrow>
     length (m_shards s) = nat (cf_Shards cfg) \<and> length (m_workers s) = nat (cf_Shards cfg) \<and>
     length (m_sent s) = nat (cf_Shards cfg) \<and> length (m_ended s) = nat (cf_Shards cfg) \<and>
     list_all (\<lambda>c. pred_option (\<lambda>i. i < nat (cf_Shards cfg)) (call_shard c)) (m_calls s)"

lemma shape_init: "shape_inv cfg (fm_init cfg)"
  by (simp add: shape_inv_def fm_init_def Let_def)

lemma shape_arrive: "shape_inv cfg s \<Longrightarrow> shape_inv cfg (s\<lparr>m_calls := m_calls s @ [CallStart item]\<rparr>)"
  by (simp add: shape_inv_def)

lemma shape_call:
  assumes "shape_inv cfg s" and "j < length (m_calls s)" and "call_step cfg j s t"
  shows "shape_inv cfg t"
proof -
  have now: "pred_option (\<lambda>i. i < nat (cf_Shards cfg)) (call_shard (m_calls s ! j))"
    using assms(1,2) by (auto simp: shape_inv_def dest: list_all_nthD)
  have idx: "shardIndex key (int (length (m_shards s))) = Some i \<Longrightarrow> i < nat (cf_Shards cfg)" for key i
    using shardIndex_range assms(1) by (auto simp: shape_inv_def)
  from assms(3) show ?thesis
    by (cases rule: call_step.cases)
      (use assms(1) now idx in \<open>simp_all add: shape_inv_def put_defs list_all_update\<close>)
qed

lemma shape_worker:
  "shape_inv cfg s \<Longrightarrow> i < length (m_workers s) \<Longrightarrow> worker_step cfg pt i s t \<Longrightarrow> shape_inv cfg t"
  by (erule worker_stepE) (simp_all add: shape_inv_def put_defs)

lemma shape_shutdown: "shape_inv cfg s \<Longrightarrow> shutdown_step s t \<Longrightarrow> shape_inv cfg t"
  by (erule shutdown_stepE) (simp_all add: shape_inv_def)

interpretation shape: fm_invariant cfg pt "shape_inv cfg"
  by unfold_locales (fact shape_init shape_arrive shape_call shape_worker shape_shutdown)+

subsection \<open>The lock\<close>

text \<open>
  Nobody is past the check once the sink is closed: the writer waited for all readers, and a reader that
  comes later sees \<^verbatim>\<open>closed\<close>.
\<close>

definition lock_inv :: "fm \<Rightarrow> bool" where
  "lock_inv s \<longleftrightarrow>
     (m_shutdown s = SLocked \<longrightarrow> list_all (\<lambda>c. \<not> holds_rlock c) (m_calls s)) \<and>
     (m_closed s \<longrightarrow> list_all (\<lambda>c. \<not> past_check c) (m_calls s)) \<and>
     (m_closed s \<longleftrightarrow> m_shutdown s \<in> {SUnlocked, SWaiting, SCancelled, SReturned}) \<and>
     (m_stopping s \<longleftrightarrow> m_shutdown s \<in> {SWaiting, SCancelled, SReturned})"

lemma past_check_holds: "past_check c \<Longrightarrow> holds_rlock c"
  by (cases c) auto

lemma lock_init: "lock_inv (fm_init cfg)"
  by (simp add: lock_inv_def fm_init_def Let_def)

lemma lock_arrive: "lock_inv s \<Longrightarrow> lock_inv (s\<lparr>m_calls := m_calls s @ [CallStart item]\<rparr>)"
  by (simp add: lock_inv_def)

lemma lock_call:
  assumes "lock_inv s" and "j < length (m_calls s)" and "call_step cfg j s t"
  shows "lock_inv t"
proof -
  have now: "m_shutdown s = SLocked \<Longrightarrow> \<not> holds_rlock (m_calls s ! j)"
    "m_closed s \<Longrightarrow> \<not> past_check (m_calls s ! j)"
    using assms(1,2) by (auto simp: lock_inv_def dest: list_all_nthD)
  from assms(3) show ?thesis
    by (cases rule: call_step.cases)
      (use assms(1) now in \<open>auto simp: lock_inv_def put_defs intro!: list_all_update\<close>)
qed

lemma lock_worker: "lock_inv s \<Longrightarrow> i < length (m_workers s) \<Longrightarrow> worker_step cfg pt i s t \<Longrightarrow> lock_inv t"
  by (erule worker_stepE) (simp_all add: lock_inv_def put_defs)

lemma lock_shutdown: "lock_inv s \<Longrightarrow> shutdown_step s t \<Longrightarrow> lock_inv t"
  by (erule shutdown_stepE) (auto simp: lock_inv_def list_all_iff dest: past_check_holds)

interpretation lock: fm_invariant cfg pt lock_inv
  by unfold_locales (fact lock_init lock_arrive lock_call lock_worker lock_shutdown)+

subsection \<open>Order and conservation\<close>

fun in_hand :: "worker \<Rightarrow> queuedItem list" where
  "in_hand (WDeliver item) = [item]"
| "in_hand (WFinal item) = [item]"
| "in_hand _ = []"

text \<open>What was sent to a shard has ended, is in the worker's hand, or is queued, in this order.\<close>

definition fifo_inv :: "'k config \<Rightarrow> fm \<Rightarrow> bool" where
  "fifo_inv cfg s \<longleftrightarrow>
     shape_inv cfg s \<and>
     (\<forall>i < nat (cf_Shards cfg).
        m_sent s ! i = m_ended s ! i @ in_hand (m_workers s ! i) @ sh_queue (m_shards s ! i))"

lemma sh_queue_release [simp]: "sh_queue (release n sh) = sh_queue sh"
  by (simp add: release_def)

lemma queue_update: "sh_queue sh = sh_queue (xs ! i) \<Longrightarrow> sh_queue (xs[i := sh] ! k) = sh_queue (xs ! k)"
  by (cases "i < length xs"; cases "k = i") (simp_all add: list_update_beyond)

lemmas queue_kept = queue_update [OF sh_queue_reserve] queue_update [OF sh_queue_release]

lemma try_send_queue: "try_send cap item sh = (True, sh') \<Longrightarrow>
    sh_queue sh' = sh_queue sh @ [item] \<and> sh_bytes sh' = sh_bytes sh \<and> int (length (sh_queue sh)) < cap"
  by (auto simp: try_send_def split: if_splits)

lemma shape_reserved:
  "shape_inv cfg s \<Longrightarrow> j < length (m_calls s) \<Longrightarrow> call_shard (m_calls s ! j) = Some i \<Longrightarrow> i < nat (cf_Shards cfg)"
  by (auto simp: shape_inv_def dest!: list_all_nthD)

lemma shape_lengths:
  assumes "shape_inv cfg s"
  shows "length (m_shards s) = nat (cf_Shards cfg)" "length (m_workers s) = nat (cf_Shards cfg)"
    "length (m_sent s) = nat (cf_Shards cfg)" "length (m_ended s) = nat (cf_Shards cfg)"
  using assms by (simp_all add: shape_inv_def)

lemma fifo_init: "fifo_inv cfg (fm_init cfg)"
  using shape_init [of cfg] by (simp add: fifo_inv_def fm_init_def Let_def)

lemma fifo_arrive: "fifo_inv cfg s \<Longrightarrow> fifo_inv cfg (s\<lparr>m_calls := m_calls s @ [CallStart item]\<rparr>)"
  by (simp add: fifo_inv_def shape_arrive)

lemma fifo_call:
  assumes "fifo_inv cfg s" and "j < length (m_calls s)" and "call_step cfg j s t"
  shows "fifo_inv cfg t"
proof -
  have sh: "shape_inv cfg s" using assms(1) by (simp add: fifo_inv_def)
  note len = shape_lengths [OF sh]
  have t: "shape_inv cfg t" using shape_call [OF sh assms(2,3)] .
  from assms(3) show ?thesis
  proof (cases rule: call_step.cases)
    case (reserved item i sh)
    then show ?thesis using assms(1) t len
      by (simp add: fifo_inv_def put_defs queue_kept(1) [OF reserved(4)])
  next
    case (sent item i sh)
    then have "i < nat (cf_Shards cfg)" using shape_reserved [OF sh assms(2)] by simp
    then show ?thesis using sent try_send_queue [OF sent(3)] assms(1) t len
      by (auto simp: fifo_inv_def put_defs nth_list_update)
  next
    case (undone item i)
    then show ?thesis using assms(1) t len by (simp add: fifo_inv_def put_defs queue_kept(2))
  qed (use assms(1) t len in \<open>auto simp: fifo_inv_def put_defs\<close>)
qed

lemma fifo_worker:
  assumes "fifo_inv cfg s" and "i < length (m_workers s)" and "worker_step cfg pt i s t"
  shows "fifo_inv cfg t"
proof -
  have sh: "shape_inv cfg s" using assms(1) by (simp add: fifo_inv_def)
  note len = shape_lengths [OF sh]
  have t: "shape_inv cfg t" using shape_worker [OF sh assms(2,3)] .
  have eq: "m_sent s ! i = m_ended s ! i @ in_hand (m_workers s ! i) @ sh_queue (m_shards s ! i)"
    using assms(1,2) len by (simp add: fifo_inv_def)
  from assms(3) show ?thesis
    by (cases rule: worker_step.cases)
      (use assms(1,2) eq t len in \<open>auto simp: fifo_inv_def put_defs nth_list_update\<close>)
qed

lemma fifo_shutdown: "fifo_inv cfg s \<Longrightarrow> shutdown_step s t \<Longrightarrow> fifo_inv cfg t"
  by (frule shape_shutdown [of cfg, rotated])
    (simp add: fifo_inv_def, erule shutdown_stepE, simp_all add: fifo_inv_def)

interpretation fifo: fm_invariant cfg pt "fifo_inv cfg"
  by unfold_locales (fact fifo_init fifo_arrive fifo_call fifo_worker fifo_shutdown)+

subsection \<open>A worker that has left\<close>

fun draining :: "worker \<Rightarrow> bool" where
  "draining WDrain = True"
| "draining WExit = True"
| "draining (WFinal item) = True"
| "draining (WRelease item d) = d"
| "draining _ = False"

text \<open>A worker drains only once the sink stops, and leaves only an empty queue, which stays empty.\<close>

definition exit_inv :: "'k config \<Rightarrow> fm \<Rightarrow> bool" where
  "exit_inv cfg s \<longleftrightarrow>
     shape_inv cfg s \<and> lock_inv s \<and>
     (\<forall>i < nat (cf_Shards cfg).
        (draining (m_workers s ! i) \<longrightarrow> m_stopping s) \<and>
        (m_workers s ! i = WExit \<longrightarrow> sh_queue (m_shards s ! i) = []))"

lemma exit_init: "exit_inv cfg (fm_init cfg)"
  using shape_init [of cfg] lock_init [of cfg] by (simp add: exit_inv_def fm_init_def Let_def)

lemma exit_arrive: "exit_inv cfg s \<Longrightarrow> exit_inv cfg (s\<lparr>m_calls := m_calls s @ [CallStart item]\<rparr>)"
  by (simp add: exit_inv_def shape_arrive lock_arrive)

lemma exit_call:
  assumes "exit_inv cfg s" and "j < length (m_calls s)" and "call_step cfg j s t"
  shows "exit_inv cfg t"
proof -
  have sh: "shape_inv cfg s" and lk: "lock_inv s" using assms(1) by (simp_all add: exit_inv_def)
  note len = shape_lengths [OF sh]
  have t: "shape_inv cfg t" "lock_inv t" using shape_call [OF sh assms(2,3)] lock_call [OF lk assms(2,3)] .
  have nostop: "past_check (m_calls s ! j) \<Longrightarrow> \<not> m_stopping s"
    using lk assms(2) by (auto simp: lock_inv_def dest: list_all_nthD)
  from assms(3) show ?thesis
  proof (cases rule: call_step.cases)
    case (reserved item i sh)
    then show ?thesis using assms(1) t len
      by (simp add: exit_inv_def put_defs queue_kept(1) [OF reserved(4)])
  next
    case (sent item i sh)
    then have "\<not> m_stopping s" using nostop by simp
    then have "\<not> draining (m_workers s ! k)" if "k < nat (cf_Shards cfg)" for k
      using assms(1) that by (auto simp: exit_inv_def)
    then have "m_workers s ! k \<noteq> WExit" if "k < nat (cf_Shards cfg)" for k using that by fastforce
    then show ?thesis using sent assms(1) t len by (auto simp: exit_inv_def put_defs nth_list_update)
  next
    case (undone item i)
    then show ?thesis using assms(1) t len by (simp add: exit_inv_def put_defs queue_kept(2))
  qed (use assms(1) t len in \<open>auto simp: exit_inv_def put_defs\<close>)
qed

lemma exit_worker:
  assumes "exit_inv cfg s" and "i < length (m_workers s)" and "worker_step cfg pt i s t"
  shows "exit_inv cfg t"
proof -
  have sh: "shape_inv cfg s" and lk: "lock_inv s" using assms(1) by (simp_all add: exit_inv_def)
  note len = shape_lengths [OF sh]
  have t: "shape_inv cfg t" "lock_inv t" using shape_worker [OF sh assms(2,3)] lock_worker [OF lk assms(2,3)] .
  have drn: "draining (m_workers s ! i) \<Longrightarrow> m_stopping s"
    using assms(1,2) len by (simp add: exit_inv_def)
  from assms(3) show ?thesis
    by (cases rule: worker_step.cases)
      (use assms(1,2) drn t len in \<open>auto simp: exit_inv_def put_defs nth_list_update\<close>)
qed

lemma exit_shutdown:
  assumes "exit_inv cfg s" and "shutdown_step s t"
  shows "exit_inv cfg t"
proof -
  have "shape_inv cfg t" "lock_inv t"
    using assms shape_shutdown lock_shutdown by (auto simp: exit_inv_def)
  with assms show ?thesis by (auto simp: exit_inv_def elim!: shutdown_stepE)
qed

interpretation exit: fm_invariant cfg pt "exit_inv cfg"
  by unfold_locales (fact exit_init exit_arrive exit_call exit_worker exit_shutdown)+

subsection \<open>Bytes\<close>

fun worker_bytes :: "worker \<Rightarrow> int" where
  "worker_bytes (WDeliver item) = body_len item"
| "worker_bytes (WFinal item) = body_len item"
| "worker_bytes (WRelease item d) = body_len item"
| "worker_bytes _ = 0"

definition call_bytes :: "nat \<Rightarrow> call \<Rightarrow> int" where
  "call_bytes i c = (if call_shard c = Some i then body_len (call_item c) else 0)"

definition reserved_bytes :: "nat \<Rightarrow> call list \<Rightarrow> int" where
  "reserved_bytes i calls = sum_list (map (call_bytes i) calls)"

text \<open>
  A shard counts the bodies that are queued, that its worker holds, and that a call has reserved and not
  yet sent or given back. \<open>B\<close> bounds the bodies that have arrived.
\<close>

definition shard_bytes_ok :: "'k config \<Rightarrow> int \<Rightarrow> fm \<Rightarrow> nat \<Rightarrow> bool" where
  "shard_bytes_ok cfg B s i \<longleftrightarrow>
     sh_bytes (m_shards s ! i) =
       queue_bytes (sh_queue (m_shards s ! i)) + worker_bytes (m_workers s ! i) + reserved_bytes i (m_calls s) \<and>
     sh_bytes (m_shards s ! i) \<le> max (cf_QueueBytes cfg) B"

definition bytes_inv :: "'k config \<Rightarrow> int \<Rightarrow> fm \<Rightarrow> bool" where
  "bytes_inv cfg B s \<longleftrightarrow>
     shape_inv cfg s \<and>
     (sane (cf_QueueBytes cfg) \<and> sane B \<and> list_all (\<lambda>c. body_len (call_item c) \<le> B) (m_calls s) \<longrightarrow>
        (\<forall>i < nat (cf_Shards cfg). shard_bytes_ok cfg B s i))"

lemma call_bytes_nonneg [simp]: "0 \<le> call_bytes i c"
  by (simp add: call_bytes_def)

lemma reserved_bytes_nonneg [simp]: "0 \<le> reserved_bytes i calls"
  by (induction calls) (auto simp: reserved_bytes_def)

lemma worker_bytes_nonneg [simp]: "0 \<le> worker_bytes w"
  by (cases w) auto

lemma reserved_bytes_update:
  "j < length calls \<Longrightarrow>
   reserved_bytes i (calls[j := c]) = reserved_bytes i calls - call_bytes i (calls ! j) + call_bytes i c"
  using sum_list_map_update [of j calls "call_bytes i" c] by (simp add: reserved_bytes_def)

lemma reserved_bytes_ge: "j < length calls \<Longrightarrow> call_bytes i (calls ! j) \<le> reserved_bytes i calls"
  using reserved_bytes_update [of j calls i "CallStart undefined"] reserved_bytes_nonneg [of i "calls[j := CallStart undefined]"]
  by (simp add: call_bytes_def)

lemma reserved_bytes_idle: "list_all (\<lambda>c. \<not> past_check c) calls \<Longrightarrow> reserved_bytes i calls = 0"
proof (induction calls)
  case (Cons c calls)
  then show ?case by (cases c) (auto simp: reserved_bytes_def call_bytes_def)
qed (simp add: reserved_bytes_def)

lemma release_exact:
  assumes "0 \<le> n" "n \<le> sh_bytes sh" "sh_bytes sh < 2 ^ 62"
  shows "release n sh = sh\<lparr>sh_bytes := sh_bytes sh - n\<rparr>"
proof -
  have "wrap64 (sh_bytes sh - n) = sh_bytes sh - n"
    using assms by (intro wrap64_id) (simp add: in_int64_def)
  then show ?thesis by (simp add: release_def)
qed

lemma bytes_ok_sane:
  "shard_bytes_ok cfg B s i \<Longrightarrow> sane (cf_QueueBytes cfg) \<Longrightarrow> sane B \<Longrightarrow> sane (sh_bytes (m_shards s ! i))"
  unfolding shard_bytes_ok_def sane_def
  using queue_bytes_nonneg [of "sh_queue (m_shards s ! i)"] worker_bytes_nonneg [of "m_workers s ! i"]
    reserved_bytes_nonneg [of i "m_calls s"]
  by linarith

lemma bytes_init: "bytes_inv cfg B (fm_init cfg)"
  using shape_init [of cfg]
  by (auto simp: bytes_inv_def shard_bytes_ok_def fm_init_def Let_def reserved_bytes_def sane_def)

lemma bytes_arrive: "bytes_inv cfg B s \<Longrightarrow> bytes_inv cfg B (s\<lparr>m_calls := m_calls s @ [CallStart item]\<rparr>)"
  by (auto simp: bytes_inv_def shard_bytes_ok_def shape_arrive reserved_bytes_def call_bytes_def)

lemma call_item_kept:
  "call_step cfg j s t \<Longrightarrow> j < length (m_calls s) \<Longrightarrow>
   \<exists>c. m_calls t = (m_calls s)[j := c] \<and> call_item c = call_item (m_calls s ! j)"
  by (erule call_stepE) (auto simp: put_defs intro!: exI)

lemma list_all_call_items:
  assumes "call_step cfg j s t" and "j < length (m_calls s)"
    and "list_all (\<lambda>c. P (call_item c)) (m_calls t)"
  shows "list_all (\<lambda>c. P (call_item c)) (m_calls s)"
proof -
  obtain c where t: "m_calls t = (m_calls s)[j := c]" and c: "call_item c = call_item (m_calls s ! j)"
    using call_item_kept [OF assms(1,2)] by blast
  have "P (call_item (m_calls s ! k))" if "k < length (m_calls s)" for k
    using assms(3) that c by (cases "k = j") (auto simp: t list_all_length)
  then show ?thesis by (simp add: list_all_length)
qed

lemma bytes_ok_frame:
  "shard_bytes_ok cfg B (log_effects es s) k = shard_bytes_ok cfg B s k"
  "shard_bytes_ok cfg B (note_sent i item s) k = shard_bytes_ok cfg B s k"
  "shard_bytes_ok cfg B (note_ended i item s) k = shard_bytes_ok cfg B s k"
  "k \<noteq> i \<Longrightarrow> shard_bytes_ok cfg B (put_shard i sh s) k = shard_bytes_ok cfg B s k"
  "k \<noteq> i \<Longrightarrow> shard_bytes_ok cfg B (put_worker i w s) k = shard_bytes_ok cfg B s k"
  by (simp_all add: shard_bytes_ok_def put_defs)

lemma bytes_ok_put_call:
  "j < length (m_calls s) \<Longrightarrow> call_bytes k c = call_bytes k (m_calls s ! j) \<Longrightarrow>
   shard_bytes_ok cfg B (put_call j c s) k = shard_bytes_ok cfg B s k"
  by (simp add: shard_bytes_ok_def put_call_def reserved_bytes_update)

lemma bytes_ok_put_worker:
  "i < length (m_workers s) \<Longrightarrow> worker_bytes w = worker_bytes (m_workers s ! i) \<Longrightarrow>
   shard_bytes_ok cfg B (put_worker i w s) k = shard_bytes_ok cfg B s k"
  by (cases "k = i") (simp_all add: shard_bytes_ok_def put_worker_def)

lemma bytes_call_shard:
  assumes "shape_inv cfg s" and j: "j < length (m_calls s)" and step: "call_step cfg j s t"
    and ok: "shard_bytes_ok cfg B s k" and "k < nat (cf_Shards cfg)"
    and sane: "sane (cf_QueueBytes cfg)" "sane B" and "body_len (call_item (m_calls s ! j)) \<le> B"
  shows "shard_bytes_ok cfg B t k"
proof -
  note len = shape_lengths [OF assms(1)]
  note upd = reserved_bytes_update [OF j]
  have ge: "call_bytes k (m_calls s ! j) \<le> sh_bytes (m_shards s ! k)"
    using ok reserved_bytes_ge [OF j, of k] worker_bytes_nonneg [of "m_workers s ! k"]
      queue_bytes_nonneg [of "sh_queue (m_shards s ! k)"]
    unfolding shard_bytes_ok_def by linarith
  have sk: "sane (sh_bytes (m_shards s ! k))" using bytes_ok_sane [OF ok sane] .
  from step show ?thesis
  proof (cases rule: call_step.cases)
    case (reserved item i sh)
    show ?thesis
    proof (cases "k = i")
      case True
      have nB: "body_len item \<le> B" using assms(8) reserved by simp
      then have n: "sane (body_len item)"
        using sane(2) body_len_nonneg [of item] unfolding sane_def by linarith
      have r: "sh = (m_shards s ! k)\<lparr>sh_bytes := sh_bytes (m_shards s ! k) + body_len item\<rparr>"
        "sh_bytes (m_shards s ! k) = 0 \<or> sh_bytes (m_shards s ! k) + body_len item \<le> cf_QueueBytes cfg"
        using reserve_taken [OF sk n] reserved(4) True by simp_all
      then have "sh_bytes (m_shards s ! k) + body_len item \<le> max (cf_QueueBytes cfg) B"
        using nB by linarith
      then show ?thesis using reserved(1,2) r(1) True ok assms(5) len upd
        by (simp add: shard_bytes_ok_def put_defs call_bytes_def)
    next
      case False
      then show ?thesis using reserved ok j by (simp add: bytes_ok_frame bytes_ok_put_call call_bytes_def)
    qed
  next
    case (sent item i sh)
    show ?thesis
    proof (cases "k = i")
      case True
      then show ?thesis using sent try_send_queue [OF sent(3)] ok assms(5) len upd
        by (auto simp: shard_bytes_ok_def put_defs call_bytes_def)
    next
      case False
      then show ?thesis using sent ok j by (simp add: bytes_ok_frame bytes_ok_put_call call_bytes_def)
    qed
  next
    case (undone item i)
    show ?thesis
    proof (cases "k = i")
      case True
      have "release (body_len item) (m_shards s ! k) =
          (m_shards s ! k)\<lparr>sh_bytes := sh_bytes (m_shards s ! k) - body_len item\<rparr>"
        by (rule release_exact) (use ge sk undone True in \<open>simp_all add: call_bytes_def sane_def\<close>)
      moreover have "sh_bytes (m_shards s ! k) - body_len item \<le> max (cf_QueueBytes cfg) B"
        using ok body_len_nonneg [of item] unfolding shard_bytes_ok_def by linarith
      ultimately show ?thesis using undone True ok assms(5) len upd
        by (simp add: shard_bytes_ok_def put_defs call_bytes_def)
    next
      case False
      then show ?thesis using undone ok j by (simp add: bytes_ok_frame bytes_ok_put_call call_bytes_def)
    qed
  qed (use ok j in \<open>simp_all add: bytes_ok_frame bytes_ok_put_call call_bytes_def\<close>)
qed

lemma bytes_worker_shard:
  assumes "shape_inv cfg s" and i: "i < length (m_workers s)" and step: "worker_step cfg pt i s t"
    and ok: "shard_bytes_ok cfg B s k" and "k < nat (cf_Shards cfg)"
    and sane: "sane (cf_QueueBytes cfg)" "sane B"
  shows "shard_bytes_ok cfg B t k"
proof (cases "k = i")
  case False
  from step show ?thesis
    by (cases rule: worker_step.cases) (use False ok in \<open>simp_all add: bytes_ok_frame\<close>)
next
  case True
  note len = shape_lengths [OF assms(1)]
  have sk: "sane (sh_bytes (m_shards s ! i))" using bytes_ok_sane [OF ok sane] True by simp
  have ge: "worker_bytes (m_workers s ! i) \<le> sh_bytes (m_shards s ! i)"
    using ok reserved_bytes_nonneg [of i "m_calls s"] queue_bytes_nonneg [of "sh_queue (m_shards s ! i)"]
    unfolding shard_bytes_ok_def True by linarith
  from step show ?thesis
  proof (cases rule: worker_step.cases)
    case (released item d)
    have "release (body_len item) (m_shards s ! i) =
        (m_shards s ! i)\<lparr>sh_bytes := sh_bytes (m_shards s ! i) - body_len item\<rparr>"
      by (rule release_exact) (use ge sk released in \<open>simp_all add: sane_def\<close>)
    moreover have "sh_bytes (m_shards s ! i) - body_len item \<le> max (cf_QueueBytes cfg) B"
      using ok body_len_nonneg [of item] unfolding shard_bytes_ok_def True by linarith
    ultimately show ?thesis using released True ok assms(5) len by (simp add: shard_bytes_ok_def put_defs)
  next
    case (take_item item queue)
    then show ?thesis using ok True assms(5) len by (simp add: shard_bytes_ok_def put_defs)
  next
    case (drain_take item queue)
    then show ?thesis using ok True assms(5) len by (simp add: shard_bytes_ok_def put_defs)
  qed (use ok i in \<open>simp_all add: bytes_ok_frame bytes_ok_put_worker\<close>)
qed

lemma bytes_call:
  assumes "bytes_inv cfg B s" and "j < length (m_calls s)" and "call_step cfg j s t"
  shows "bytes_inv cfg B t"
proof -
  have sh: "shape_inv cfg s" using assms(1) by (simp add: bytes_inv_def)
  have "shard_bytes_ok cfg B t k"
    if "sane (cf_QueueBytes cfg)" "sane B" "list_all (\<lambda>c. body_len (call_item c) \<le> B) (m_calls t)"
      "k < nat (cf_Shards cfg)" for k
  proof (rule bytes_call_shard [OF sh assms(2,3) _ that(4,1,2)])
    have all: "list_all (\<lambda>c. body_len (call_item c) \<le> B) (m_calls s)"
      using list_all_call_items [OF assms(3,2), of "\<lambda>x. body_len x \<le> B"] that(3) .
    then show "shard_bytes_ok cfg B s k" using assms(1) that by (simp add: bytes_inv_def)
    show "body_len (call_item (m_calls s ! j)) \<le> B" using list_all_nthD [OF all assms(2)] .
  qed
  then show ?thesis using shape_call [OF sh assms(2,3)] by (simp add: bytes_inv_def)
qed

lemma worker_calls: "worker_step cfg pt i s t \<Longrightarrow> m_calls t = m_calls s"
  by (erule worker_stepE) (simp_all add: put_defs)

lemma bytes_worker:
  assumes "bytes_inv cfg B s" and "i < length (m_workers s)" and "worker_step cfg pt i s t"
  shows "bytes_inv cfg B t"
proof -
  have sh: "shape_inv cfg s" using assms(1) by (simp add: bytes_inv_def)
  show ?thesis
    using assms(1) shape_worker [OF sh assms(2,3)] bytes_worker_shard [OF sh assms(2,3)]
    by (auto simp: bytes_inv_def worker_calls [OF assms(3)])
qed

lemma bytes_shutdown:
  assumes "bytes_inv cfg B s" and "shutdown_step s t"
  shows "bytes_inv cfg B t"
proof -
  have "shape_inv cfg t" using assms shape_shutdown by (auto simp: bytes_inv_def)
  with assms show ?thesis by (auto simp: bytes_inv_def shard_bytes_ok_def elim!: shutdown_stepE)
qed

interpretation bytes: fm_invariant cfg pt "bytes_inv cfg B"
  by unfold_locales (fact bytes_init bytes_arrive bytes_call bytes_worker bytes_shutdown)+

subsection \<open>Queue length, outcomes and answers\<close>

definition queue_inv :: "'k config \<Rightarrow> fm \<Rightarrow> bool" where
  "queue_inv cfg s \<longleftrightarrow> list_all (\<lambda>sh. int (length (sh_queue sh)) \<le> max 0 (cf_QueueSize cfg)) (m_shards s)"

lemma queue_nth:
  "queue_inv cfg s \<Longrightarrow> i < length (m_shards s) \<Longrightarrow> int (length (sh_queue (m_shards s ! i))) \<le> max 0 (cf_QueueSize cfg)"
  unfolding queue_inv_def by (rule list_all_nthD)

lemma list_all_put:
  "list_all P xs \<Longrightarrow> (i < length xs \<Longrightarrow> P y) \<Longrightarrow> list_all P (xs[i := y])"
  by (cases "i < length xs") (auto intro: list_all_update simp: list_update_beyond)

lemma queue_call: "queue_inv cfg s \<Longrightarrow> j < length (m_calls s) \<Longrightarrow> call_step cfg j s t \<Longrightarrow> queue_inv cfg t"
  by (erule call_stepE)
    (auto simp: put_defs queue_inv_def dest: list_all_nthD dest!: try_send_queue intro!: list_all_put)

lemma queue_worker: "queue_inv cfg s \<Longrightarrow> i < length (m_workers s) \<Longrightarrow> worker_step cfg pt i s t \<Longrightarrow> queue_inv cfg t"
  by (erule worker_stepE)
    (fastforce simp: put_defs queue_inv_def dest: list_all_nthD intro!: list_all_put)+

lemma queue_init: "queue_inv cfg (fm_init cfg)"
  by (simp add: queue_inv_def fm_init_def Let_def list_all_iff)

lemma queue_arrive: "queue_inv cfg s \<Longrightarrow> queue_inv cfg (s\<lparr>m_calls := m_calls s @ [CallStart item]\<rparr>)"
  by (simp add: queue_inv_def)

lemma queue_shutdown: "queue_inv cfg s \<Longrightarrow> shutdown_step s t \<Longrightarrow> queue_inv cfg t"
  by (erule shutdown_stepE) (simp_all add: queue_inv_def)

interpretation queue: fm_invariant cfg pt "queue_inv cfg"
  by unfold_locales (fact queue_init queue_arrive queue_call queue_worker queue_shutdown)+

text \<open>Every ended item is one counted delivery or drop.\<close>

definition trace_inv :: "'k config \<Rightarrow> fm \<Rightarrow> bool" where
  "trace_inv cfg s \<longleftrightarrow>
     shape_inv cfg s \<and> effects_ok (m_trace s) \<and> ingest_events (m_trace s) = 0 \<and>
     outcomes (m_trace s) = sum_list (map length (m_ended s))"

lemma refused_counts:
  "reason \<in> {''shutting_down'', ''queue_full''} \<Longrightarrow>
   outcomes (refused item reason) = 0 \<and> effects_ok (refused item reason) \<and> ingest_events (refused item reason) = 0"
  by (auto simp: refused_def NUL_def)

lemma deliver_counts:
  "deliver cfg pt start turns item = Some es \<Longrightarrow> outcomes es = 1 \<and> effects_ok es \<and> ingest_events es = 0"
  unfolding deliver_def by (rule ended_counts [OF deliver_loop_ended])

lemma sum_length_append:
  "i < length xss \<Longrightarrow> sum_list (map length (xss[i := xss ! i @ [x]])) = Suc (sum_list (map length xss))"
  using sum_list_map_update [of i xss length "xss ! i @ [x]"] by simp

lemma trace_init: "trace_inv cfg (fm_init cfg)"
  using shape_init [of cfg] by (simp add: trace_inv_def fm_init_def Let_def sum_list_replicate)

lemma trace_arrive: "trace_inv cfg s \<Longrightarrow> trace_inv cfg (s\<lparr>m_calls := m_calls s @ [CallStart item]\<rparr>)"
  by (simp add: trace_inv_def shape_arrive)

lemma trace_call:
  assumes "trace_inv cfg s" and "j < length (m_calls s)" and "call_step cfg j s t"
  shows "trace_inv cfg t"
proof -
  have "shape_inv cfg t" using assms shape_call by (auto simp: trace_inv_def)
  with assms(3,1) refused_counts show ?thesis
    by (cases rule: call_step.cases) (simp_all add: trace_inv_def put_defs)
qed

lemma trace_worker:
  assumes "trace_inv cfg s" and "i < length (m_workers s)" and "worker_step cfg pt i s t"
  shows "trace_inv cfg t"
proof -
  have sh: "shape_inv cfg s" using assms(1) by (simp add: trace_inv_def)
  have t: "shape_inv cfg t" using shape_worker [OF sh assms(2,3)] .
  have i: "i < length (m_ended s)" using assms(2) shape_lengths [OF sh] by simp
  from assms(3) show ?thesis
  proof (cases rule: worker_step.cases)
    case (delivered item start turns es)
    then show ?thesis using assms(1) t deliver_counts [OF delivered(3)] sum_length_append [OF i]
      by (simp add: trace_inv_def put_defs)
  next
    case (finalled item ex)
    then show ?thesis
      using assms(1) t ended_counts [OF final_ended [of item cfg pt "m_ctx_done s" ex]] sum_length_append [OF i]
      by (simp add: trace_inv_def put_defs)
  qed (use assms(1) t in \<open>simp_all add: trace_inv_def put_defs\<close>)
qed

lemma trace_shutdown:
  assumes "trace_inv cfg s" and "shutdown_step s t"
  shows "trace_inv cfg t"
proof -
  have "shape_inv cfg t" using assms shape_shutdown by (auto simp: trace_inv_def)
  with assms show ?thesis by (auto simp: trace_inv_def elim!: shutdown_stepE)
qed

interpretation trace: fm_invariant cfg pt "trace_inv cfg"
  by unfold_locales (fact trace_init trace_arrive trace_call trace_worker trace_shutdown)+

text \<open>The items sent are exactly the items of the calls that returned without an error.\<close>

fun taken :: "call \<Rightarrow> queuedItem multiset" where
  "taken (CallDone item None) = {#item#}"
| "taken _ = {#}"

definition taken_inv :: "'k config \<Rightarrow> fm \<Rightarrow> bool" where
  "taken_inv cfg s \<longleftrightarrow> shape_inv cfg s \<and> sum_list (map mset (m_sent s)) = sum_list (map taken (m_calls s))"

lemma taken_update:
  "j < length calls \<Longrightarrow> taken (calls ! j) = {#} \<Longrightarrow>
   sum_list (map taken (calls[j := c])) = sum_list (map taken calls) + taken c"
  using sum_list_map_update [of j calls taken c] by simp

lemma sum_mset_append:
  assumes "i < length xss"
  shows "sum_list (map mset (xss[i := xss ! i @ [x]])) = add_mset x (sum_list (map mset xss))"
proof -
  have "sum_list (map mset (xss[i := xss ! i @ [x]])) + mset (xss ! i) =
      add_mset x (sum_list (map mset xss)) + mset (xss ! i)"
    using sum_list_map_update [OF assms, of mset "xss ! i @ [x]"] by simp
  then show ?thesis by (rule add_right_imp_eq)
qed

lemma taken_init: "taken_inv cfg (fm_init cfg)"
proof -
  have "sum_list (replicate n {#}) = {#}" for n by (induction n) simp_all
  then show ?thesis using shape_init [of cfg] by (simp add: taken_inv_def fm_init_def Let_def)
qed

lemma taken_arrive: "taken_inv cfg s \<Longrightarrow> taken_inv cfg (s\<lparr>m_calls := m_calls s @ [CallStart item]\<rparr>)"
  by (simp add: taken_inv_def shape_arrive)

lemma taken_call:
  assumes "taken_inv cfg s" and "j < length (m_calls s)" and "call_step cfg j s t"
  shows "taken_inv cfg t"
proof -
  have sh: "shape_inv cfg s" using assms(1) by (simp add: taken_inv_def)
  have t: "shape_inv cfg t" using shape_call [OF sh assms(2,3)] .
  from assms(3) show ?thesis
  proof (cases rule: call_step.cases)
    case (sent item i sh')
    then have "i < length (m_sent s)" using shape_reserved [OF sh assms(2)] shape_lengths [OF sh] by simp
    then show ?thesis using sent assms(1,2) t by (simp add: taken_inv_def put_defs taken_update sum_mset_append)
  qed (use assms(1,2) t in \<open>simp_all add: taken_inv_def put_defs taken_update\<close>)
qed

lemma worker_sent: "worker_step cfg pt i s t \<Longrightarrow> m_sent t = m_sent s"
  by (erule worker_stepE) (simp_all add: put_defs)

lemma taken_worker:
  assumes "taken_inv cfg s" and "i < length (m_workers s)" and "worker_step cfg pt i s t"
  shows "taken_inv cfg t"
  using assms(1) shape_worker [OF _ assms(2,3)] by (simp add: taken_inv_def worker_calls [OF assms(3)] worker_sent [OF assms(3)])

lemma taken_shutdown:
  assumes "taken_inv cfg s" and "shutdown_step s t"
  shows "taken_inv cfg t"
proof -
  have "shape_inv cfg t" using assms shape_shutdown by (auto simp: taken_inv_def)
  with assms show ?thesis by (auto simp: taken_inv_def elim!: shutdown_stepE)
qed

interpretation taken: fm_invariant cfg pt "taken_inv cfg"
  by unfold_locales (fact taken_init taken_arrive taken_call taken_worker taken_shutdown)+

lemma shutdown_frame:
  "shutdown_step s t \<Longrightarrow> m_calls t = m_calls s \<and> m_sent t = m_sent s \<and> m_ended t = m_ended s \<and>
     m_shards t = m_shards s \<and> m_workers t = m_workers s \<and> m_trace t = m_trace s"
  by (erule shutdown_stepE) simp_all

definition returned_inv :: "fm \<Rightarrow> bool" where
  "returned_inv s \<longleftrightarrow> (m_shutdown s = SReturned \<longrightarrow> list_all (\<lambda>w. w = WExit) (m_workers s))"

lemma returned_init: "returned_inv (fm_init cfg)"
  by (simp add: returned_inv_def fm_init_def Let_def)

lemma returned_arrive: "returned_inv s \<Longrightarrow> returned_inv (s\<lparr>m_calls := m_calls s @ [CallStart item]\<rparr>)"
  by (simp add: returned_inv_def)

lemma returned_call: "returned_inv s \<Longrightarrow> j < length (m_calls s) \<Longrightarrow> call_step cfg j s t \<Longrightarrow> returned_inv t"
  by (erule call_stepE) (simp_all add: returned_inv_def put_defs)

lemma returned_worker: "returned_inv s \<Longrightarrow> i < length (m_workers s) \<Longrightarrow> worker_step cfg pt i s t \<Longrightarrow> returned_inv t"
  by (erule worker_stepE) (auto simp: returned_inv_def put_defs dest: list_all_nthD)

lemma returned_shutdown: "returned_inv s \<Longrightarrow> shutdown_step s t \<Longrightarrow> returned_inv t"
  by (erule shutdown_stepE) (simp_all add: returned_inv_def)

interpretation returned: fm_invariant cfg pt returned_inv
  by unfold_locales (fact returned_init returned_arrive returned_call returned_worker returned_shutdown)+

text \<open>
  The outcomes counted are those of the items that ended; what was taken and has not ended is still held. After
  \<^verbatim>\<open>Shutdown\<close> returned, nothing is held.
\<close>

definition held_items :: "fm \<Rightarrow> nat" where
  "held_items s = (\<Sum>i < length (m_shards s). length (in_hand (m_workers s ! i)) + length (sh_queue (m_shards s ! i)))"

lemma size_sum_mset: "size (sum_list (map mset xss)) = sum_list (map length xss)"
  by (induction xss) simp_all

lemma taken_accounted:
  assumes "fm_reach cfg pt s"
  shows "size (sum_list (map taken (m_calls s))) = outcomes (m_trace s) + held_items s"
proof -
  let ?n = "nat (cf_Shards cfg)"
  have len: "length (m_sent s) = ?n" "length (m_ended s) = ?n" "length (m_shards s) = ?n"
    using shape_lengths [OF shape.reach_holds [OF assms]] by simp_all
  have fifo: "m_sent s ! i = m_ended s ! i @ in_hand (m_workers s ! i) @ sh_queue (m_shards s ! i)" if "i < ?n" for i
    using fifo.reach_holds [OF assms] that by (simp add: fifo_inv_def)
  have "size (sum_list (map taken (m_calls s))) = sum_list (map length (m_sent s))"
    using taken.reach_holds [OF assms] size_sum_mset by (metis taken_inv_def)
  also have "\<dots> = (\<Sum>i < ?n. length (m_sent s ! i))"
    by (simp add: sum_list_sum_nth len atLeast0LessThan)
  also have "\<dots> = (\<Sum>i < ?n. length (m_ended s ! i)) + held_items s"
    by (simp add: fifo held_items_def len flip: sum.distrib)
  also have "(\<Sum>i < ?n. length (m_ended s ! i)) = outcomes (m_trace s)"
    using trace.reach_holds [OF assms] by (simp add: trace_inv_def sum_list_sum_nth len atLeast0LessThan)
  finally show ?thesis .
qed

lemma workers_gone:
  assumes "fm_reach cfg pt s" and "m_shutdown s = SReturned" and "i < nat (cf_Shards cfg)"
  shows "m_workers s ! i = WExit" and "sh_queue (m_shards s ! i) = []"
proof -
  show w: "m_workers s ! i = WExit"
    using returned.reach_holds [OF assms(1)] assms(2,3) shape_lengths(2) [OF shape.reach_holds [OF assms(1)]]
    by (auto simp: returned_inv_def dest!: list_all_nthD)
  show "sh_queue (m_shards s ! i) = []" using exit.reach_holds [OF assms(1)] assms(3) w by (simp add: exit_inv_def)
qed

lemma returned_holds_nothing:
  assumes "fm_reach cfg pt s" and "m_shutdown s = SReturned"
  shows "held_items s = 0"
  using workers_gone [OF assms] shape_lengths [OF shape.reach_holds [OF assms(1)]] by (simp add: held_items_def)

section \<open>The drain ends\<close>

text \<open>
  Once the sink stops, a worker has only so much left to do: a share for each queued item and for the
  point it is at.
\<close>

fun worker_rank :: "worker \<Rightarrow> nat" where
  "worker_rank WExit = 0"
| "worker_rank WDrain = 1"
| "worker_rank WTop = 2"
| "worker_rank WSelect = 2"
| "worker_rank (WRelease item d) = (if d then 2 else 3)"
| "worker_rank (WFinal item) = 3"
| "worker_rank (WDeliver item) = 4"

definition shard_work :: "fm \<Rightarrow> nat \<Rightarrow> nat" where
  "shard_work s i = 4 * length (sh_queue (m_shards s ! i)) + worker_rank (m_workers s ! i)"

definition work_left :: "fm \<Rightarrow> nat" where
  "work_left s = (\<Sum>i < length (m_workers s). shard_work s i)"

lemma shard_work_other: "worker_step cfg pt i s t \<Longrightarrow> k \<noteq> i \<Longrightarrow> shard_work t k = shard_work s k"
  by (erule worker_stepE) (simp_all add: shard_work_def put_defs)

lemma shard_work_less:
  assumes "shape_inv cfg s" "m_stopping s" "i < length (m_workers s)" "worker_step cfg pt i s t"
  shows "shard_work t i < shard_work s i"
proof -
  have i: "i < length (m_shards s)" using assms(3) shape_lengths [OF assms(1)] by simp
  from assms(4) show ?thesis
    by (cases rule: worker_step.cases) (use assms(2,3) i in \<open>auto simp: shard_work_def put_defs\<close>)
qed

lemma worker_count: "worker_step cfg pt i s t \<Longrightarrow> length (m_workers t) = length (m_workers s)"
  by (erule worker_stepE) (simp_all add: put_defs)

lemma work_left_less:
  assumes "shape_inv cfg s" "m_stopping s" "i < length (m_workers s)" "worker_step cfg pt i s t"
  shows "work_left t < work_left s"
  unfolding work_left_def worker_count [OF assms(4)]
proof (rule sum_strict_mono_ex1)
  show "\<forall>k \<in> {..<length (m_workers s)}. shard_work t k \<le> shard_work s k"
    using shard_work_less [OF assms] shard_work_other [OF assms(4)] by (metis order.order_iff_strict)
  show "\<exists>k \<in> {..<length (m_workers s)}. shard_work t k < shard_work s k"
    using shard_work_less [OF assms] assms(3) by blast
qed simp

lemma call_workers: "call_step cfg j s t \<Longrightarrow> m_workers t = m_workers s"
  by (erule call_stepE) (simp_all add: put_defs)

lemma closed_call:
  assumes "lock_inv s" and "m_closed s" and "j < length (m_calls s)" and "call_step cfg j s t"
  shows "m_shards t = m_shards s \<and> m_sent t = m_sent s"
proof -
  have "\<not> past_check (m_calls s ! j)" using assms(1-3) by (auto simp: lock_inv_def dest: list_all_nthD)
  with assms(4) show ?thesis by (cases rule: call_step.cases) (simp_all add: put_defs)
qed

text \<open>Once the sink is closed no step adds to a queue, so the work left never grows.\<close>

lemma work_left_step:
  assumes "lock_inv s" "shape_inv cfg s" "m_stopping s" "fm_step cfg pt s t"
  shows "work_left t \<le> work_left s"
  using assms(4)
proof (cases rule: fm_step.cases)
  case (arrive item)
  then show ?thesis by (simp add: work_left_def shard_work_def)
next
  case (call j)
  have "m_closed s" using assms(1,3) by (auto simp: lock_inv_def)
  then show ?thesis using closed_call [OF assms(1) _ call] call_workers [OF call(2)]
    by (simp add: work_left_def shard_work_def)
next
  case (worker i)
  then show ?thesis using work_left_less [OF assms(2,3)] by (simp add: less_imp_le)
next
  case shutting
  then show ?thesis by (auto simp: work_left_def shard_work_def elim!: shutdown_stepE)
qed

text \<open>A worker that has not left can move, whatever state it is in.\<close>

definition prompt_turn :: "'k \<Rightarrow> 'k turn" where
  "prompt_turn k =
     (let ex = \<lparr>ex_new_request = (\<lambda>u. None), ex_do = (\<lambda>r. Inr \<lparr>br_code = 202, br_status = [], br_retry_after = []\<rparr>),
               ex_keys = k, ex_now = 0\<rparr>
      in \<lparr>tn_exchange = ex, tn_stop_after = False, tn_now = 0, tn_rand = 0, tn_stop_wait = False,
          tn_ctx_done = False, tn_final = ex\<rparr>)"

lemma deliver_prompt: "deliver cfg pt 0 (\<lambda>n. prompt_turn k) item = Some [Inc ForwardDelivered [PayloadLabel (it_path item)]]"
  unfolding deliver_def by (subst deliver_loop.simps) (simp add: prompt_turn_def attempt_def Let_def)

lemma worker_busy:
  fixes cfg :: "'k config"
  assumes "m_workers s ! i \<notin> {WTop, WSelect, WExit}"
  shows "\<exists>t. worker_step cfg pt i s t"
proof (cases "m_workers s ! i")
  case (WDeliver item)
  have agree: "turns_agree s (\<lambda>n. prompt_turn (undefined :: 'k))"
    by (simp add: turns_agree_def prompt_turn_def Let_def)
  show ?thesis by (rule exI, rule worker_step.delivered [OF WDeliver deliver_prompt agree])
next
  case WDrain
  then show ?thesis
    by (cases "sh_queue (m_shards s ! i)") (blast intro: worker_step.drained worker_step.drain_take)+
qed (use assms in \<open>blast intro: worker_step.intros\<close>)+

lemma worker_progress: "m_stopping s \<Longrightarrow> m_workers s ! i \<noteq> WExit \<Longrightarrow> \<exists>t. worker_step cfg pt i s t"
  using worker_busy [of s i cfg pt] worker_step.top_stop worker_step.select_stop by blast

section \<open>Running the machine\<close>

text \<open>
  An executable scheduler: a choice says which goroutine moves and, where the source leaves it to the
  world, how. It only makes steps of the relation, so running a list of choices reaches a state.
\<close>

datatype 'k choice =
    Arrive queuedItem
  | CallMoves nat
  | WorkerMoves nat
  | WorkerStops nat
  | Delivers nat int "nat \<Rightarrow> 'k turn"
  | Finals nat "'k exchange"
  | ShutdownMoves

fun exec_call :: "'k config \<Rightarrow> nat \<Rightarrow> call \<Rightarrow> fm \<Rightarrow> fm option" where
  "exec_call cfg j (CallStart item) s =
     (if m_shutdown s \<noteq> SLocking \<and> m_shutdown s \<noteq> SLocked then Some (put_call j (CallLocked item) s) else None)"
| "exec_call cfg j (CallLocked item) s =
     (if m_closed s then
        Some (log_effects (refused item ''shutting_down'')
          (put_call j (CallDone item (Some (owner_error ErrShuttingDown item))) s))
      else Some (put_call j (CallChecked item) s))"
| "exec_call cfg j (CallChecked item) s =
     (case shardIndex (shardKey (it_owner item)) (int (length (m_shards s))) of
        None \<Rightarrow> None
      | Some i \<Rightarrow>
          (case reserve (body_len item) (cf_QueueBytes cfg) (m_shards s ! i) of
             (True, sh) \<Rightarrow> Some (put_shard i sh (put_call j (CallReserved item i) s))
           | (False, sh) \<Rightarrow>
               Some (log_effects (refused item ''queue_full'')
                 (put_call j (CallDone item (Some (owner_error ErrQueueFull item))) s))))"
| "exec_call cfg j (CallReserved item i) s =
     (case try_send (cf_QueueSize cfg) item (m_shards s ! i) of
        (True, sh) \<Rightarrow> Some (note_sent i item (put_shard i sh (put_call j (CallDone item None) s)))
      | (False, sh) \<Rightarrow> Some (put_call j (CallUndo item i) s))"
| "exec_call cfg j (CallUndo item i) s =
     Some (log_effects (refused item ''queue_full'')
       (put_shard i (release (body_len item) (m_shards s ! i))
         (put_call j (CallDone item (Some (owner_error ErrQueueFull item))) s)))"
| "exec_call cfg j (CallDone item e) s = None"

fun exec_worker :: "nat \<Rightarrow> worker \<Rightarrow> fm \<Rightarrow> fm option" where
  "exec_worker i WTop s = Some (put_worker i (if m_stopping s then WDrain else WSelect) s)"
| "exec_worker i WSelect s =
     (case sh_queue (m_shards s ! i) of
        [] \<Rightarrow> None
      | item # queue \<Rightarrow> Some (put_shard i ((m_shards s ! i)\<lparr>sh_queue := queue\<rparr>) (put_worker i (WDeliver item) s)))"
| "exec_worker i (WRelease item d) s =
     Some (put_shard i (release (body_len item) (m_shards s ! i)) (put_worker i (if d then WDrain else WTop) s))"
| "exec_worker i WDrain s =
     (case sh_queue (m_shards s ! i) of
        [] \<Rightarrow> Some (put_worker i WExit s)
      | item # queue \<Rightarrow> Some (put_shard i ((m_shards s ! i)\<lparr>sh_queue := queue\<rparr>) (put_worker i (WFinal item) s)))"
| "exec_worker i _ s = None"

fun exec_shutdown :: "shutdown \<Rightarrow> fm \<Rightarrow> fm option" where
  "exec_shutdown SIdle s = Some (s\<lparr>m_shutdown := SLocking\<rparr>)"
| "exec_shutdown SLocking s =
     (if list_all (\<lambda>c. \<not> holds_rlock c) (m_calls s) then Some (s\<lparr>m_shutdown := SLocked\<rparr>) else None)"
| "exec_shutdown SLocked s = Some (s\<lparr>m_shutdown := SUnlocked, m_closed := True\<rparr>)"
| "exec_shutdown SUnlocked s = Some (s\<lparr>m_shutdown := SWaiting, m_stopping := True\<rparr>)"
| "exec_shutdown SWaiting s =
     (if list_all (\<lambda>w. w = WExit) (m_workers s) then Some (s\<lparr>m_shutdown := SReturned, m_ctx_done := True\<rparr>)
      else Some (s\<lparr>m_shutdown := SCancelled, m_ctx_done := True\<rparr>))"
| "exec_shutdown SCancelled s =
     (if list_all (\<lambda>w. w = WExit) (m_workers s) then Some (s\<lparr>m_shutdown := SReturned, m_ctx_done := True\<rparr>) else None)"
| "exec_shutdown SReturned s = None"

fun exec :: "'k config \<Rightarrow> (string \<Rightarrow> int option) \<Rightarrow> 'k choice \<Rightarrow> fm \<Rightarrow> fm option" where
  "exec cfg pt (Arrive item) s = Some (s\<lparr>m_calls := m_calls s @ [CallStart item]\<rparr>)"
| "exec cfg pt (CallMoves j) s = (if j < length (m_calls s) then exec_call cfg j (m_calls s ! j) s else None)"
| "exec cfg pt (WorkerMoves i) s = (if i < length (m_workers s) then exec_worker i (m_workers s ! i) s else None)"
| "exec cfg pt (WorkerStops i) s =
     (if i < length (m_workers s) \<and> m_workers s ! i = WSelect \<and> m_stopping s then Some (put_worker i WDrain s) else None)"
| "exec cfg pt (Finals i ex) s =
     (if i < length (m_workers s) then
        (case m_workers s ! i of
           WFinal item \<Rightarrow>
             Some (note_ended i item
               (log_effects (finalDeliveryAttempt cfg pt (m_ctx_done s) ex item) (put_worker i (WRelease item True) s)))
         | _ \<Rightarrow> None)
      else None)"
| "exec cfg pt ShutdownMoves s = exec_shutdown (m_shutdown s) s"
| "exec cfg pt (Delivers i start turns) s =
     (if i < length (m_workers s) then
        (case m_workers s ! i of
           WDeliver item \<Rightarrow>
             (case deliver cfg pt start (\<lambda>n. (turns n)\<lparr>tn_stop_after := False, tn_stop_wait := False, tn_ctx_done := False\<rparr>) item of
                Some es \<Rightarrow> Some (note_ended i item (log_effects es (put_worker i (WRelease item False) s)))
              | None \<Rightarrow> None)
         | _ \<Rightarrow> None)
      else None)"

fun run :: "'k config \<Rightarrow> (string \<Rightarrow> int option) \<Rightarrow> 'k choice list \<Rightarrow> fm \<Rightarrow> fm option" where
  "run cfg pt [] s = Some s"
| "run cfg pt (c # cs) s = (case exec cfg pt c s of None \<Rightarrow> None | Some t \<Rightarrow> run cfg pt cs t)"

lemma exec_call_step: "exec_call cfg j (m_calls s ! j) s = Some t \<Longrightarrow> call_step cfg j s t"
  by (cases "m_calls s ! j")
    (auto intro: call_step.intros split: if_splits option.splits prod.splits bool.splits)

lemma exec_worker_step: "exec_worker i (m_workers s ! i) s = Some t \<Longrightarrow> worker_step cfg pt i s t"
  by (cases "m_workers s ! i")
    (auto intro: worker_step.intros worker_step.released [of s i _ True, simplified]
      worker_step.released [of s i _ False, simplified] split: if_splits list.splits)

lemma exec_shutdown_step: "exec_shutdown (m_shutdown s) s = Some t \<Longrightarrow> shutdown_step s t"
  by (cases "m_shutdown s") (auto intro: shutdown_step.intros split: if_splits)

lemma exec_step:
  assumes "exec cfg pt c s = Some t"
  shows "fm_step cfg pt s t"
proof (cases c)
  case (Arrive item)
  then show ?thesis using assms by (auto intro: fm_step.arrive)
next
  case (CallMoves j)
  then show ?thesis using assms by (auto intro: fm_step.call exec_call_step split: if_splits)
next
  case (WorkerMoves i)
  then show ?thesis using assms by (auto intro: fm_step.worker exec_worker_step split: if_splits)
next
  case (WorkerStops i)
  then show ?thesis using assms by (auto intro: fm_step.worker worker_step.select_stop split: if_splits)
next
  case (Delivers i start turns)
  let ?ts = "\<lambda>n. (turns n)\<lparr>tn_stop_after := False, tn_stop_wait := False, tn_ctx_done := False\<rparr>"
  have agree: "turns_agree s ?ts" by (simp add: turns_agree_def)
  from assms Delivers obtain item es where "i < length (m_workers s)" "m_workers s ! i = WDeliver item"
    "deliver cfg pt start ?ts item = Some es"
    "t = note_ended i item (log_effects es (put_worker i (WRelease item False) s))"
    by (auto split: if_splits worker.splits option.splits)
  then show ?thesis using fm_step.worker worker_step.delivered [OF _ _ agree] by blast
next
  case (Finals i ex)
  then show ?thesis using assms
    by (auto intro: fm_step.worker worker_step.finalled split: if_splits worker.splits)
next
  case ShutdownMoves
  then show ?thesis using assms by (auto intro: fm_step.shutting exec_shutdown_step)
qed

lemma run_reach:
  "fm_reach cfg pt s \<Longrightarrow> run cfg pt cs s = Some t \<Longrightarrow> fm_reach cfg pt t"
proof (induction cs arbitrary: s)
  case (Cons c cs)
  then obtain u where u: "exec cfg pt c s = Some u" "run cfg pt cs u = Some t"
    by (auto split: option.splits)
  from Cons.IH [OF fm_reach.step [OF Cons.prems(1) exec_step [OF u(1)]] u(2)] show ?case .
qed simp

section \<open>A concrete run\<close>

text \<open>
  One shard, two payloads of the demo service. The first is being delivered when \<^verbatim>\<open>Shutdown\<close> starts; the
  second is queued and gets its final attempt; a third call comes too late.
\<close>

definition small_config :: "unit config" where
  "small_config = demo_config\<lparr>cf_Shards := 1\<rparr>"

definition busy_choices :: "unit choice list" where
  "busy_choices =
     [Arrive demo_item, Arrive demo_item, CallMoves 0, CallMoves 1, CallMoves 0, CallMoves 1, CallMoves 0,
      CallMoves 1, CallMoves 1, CallMoves 0, WorkerMoves 0, WorkerMoves 0]"

definition stop_choices :: "unit choice list" where
  "stop_choices = busy_choices @ [ShutdownMoves, ShutdownMoves, ShutdownMoves, Arrive demo_item, ShutdownMoves]"

definition full_choices :: "unit choice list" where
  "full_choices = stop_choices @
     [CallMoves 2, CallMoves 2, Delivers 0 0 (\<lambda>n. prompt_turn ()), WorkerMoves 0, WorkerMoves 0, WorkerMoves 0,
      Finals 0 (demo_exchange 500), WorkerMoves 0, WorkerMoves 0, ShutdownMoves]"

definition after :: "unit choice list \<Rightarrow> fm" where
  "after cs = the (run small_config (\<lambda>v. None) cs (fm_init small_config))"

lemma after_reach:
  assumes "run small_config (\<lambda>v. None) cs (fm_init small_config) \<noteq> None"
  shows "fm_reach small_config (\<lambda>v. None) (after cs)"
proof -
  from assms obtain t where t: "run small_config (\<lambda>v. None) cs (fm_init small_config) = Some t" by blast
  show ?thesis using run_reach [OF fm_reach.start t] t by (simp add: after_def)
qed

lemma busy_facts:
  "run small_config (\<lambda>v. None) busy_choices (fm_init small_config) \<noteq> None"
  "m_workers (after busy_choices) = [WDeliver demo_item]"
  "map sh_queue (m_shards (after busy_choices)) = [[demo_item]]"
  by code_simp+

lemma stop_facts:
  "run small_config (\<lambda>v. None) stop_choices (fm_init small_config) \<noteq> None"
  "m_stopping (after stop_choices)" "m_closed (after stop_choices)"
  "m_workers (after stop_choices) = [WDeliver demo_item]"
  by code_simp+

lemma full_facts:
  "run small_config (\<lambda>v. None) full_choices (fm_init small_config) \<noteq> None"
  "m_shutdown (after full_choices) = SReturned"
  "map taken (m_calls (after full_choices)) = [{#demo_item#}, {#demo_item#}, {#}]"
  by code_simp+

section \<open>Properties\<close>

text \<open>
  C12: every payload the sink took is accounted for, in order. In every reachable state, under every
  interleaving, the items sent to a shard are the items whose delivery ended, then the one in the
  worker's hand, then the queue: nothing is lost, doubled or overtaken. The items sent are exactly those of
  the calls that returned without an error, and each ended item is one counted delivery or drop.
\<close>

theorem fifo_conservation:
  assumes "fm_reach cfg pt s"
  shows "(\<forall>i < nat (cf_Shards cfg).
            m_sent s ! i = m_ended s ! i @ in_hand (m_workers s ! i) @ sh_queue (m_shards s ! i)) \<and>
         sum_list (map mset (m_sent s)) = sum_list (map taken (m_calls s)) \<and>
         outcomes (m_trace s) = sum_list (map length (m_ended s))"
  using fifo.reach_holds [OF assms] taken.reach_holds [OF assms] trace.reach_holds [OF assms]
  by (simp add: fifo_inv_def taken_inv_def trace_inv_def)

theorem fifo_conservation_witness:
  "m_sent (after busy_choices) ! 0 = m_ended (after busy_choices) ! 0 @ [demo_item] @ [demo_item]"
proof -
  have "m_workers (after busy_choices) ! 0 = WDeliver demo_item" by (simp add: busy_facts(2))
  moreover have "sh_queue (m_shards (after busy_choices) ! 0) = [demo_item]"
    using busy_facts(3) by (cases "m_shards (after busy_choices)") auto
  ultimately show ?thesis
    using fifo_conservation [OF after_reach [OF busy_facts(1)]]
    by (simp add: small_config_def)
qed

text \<open>
  C14: the byte count of a shard is exact and bounded. While bodies and the limit stay below 2^62 bytes, it
  is the sum of the queued bodies, the body the worker holds, and the bodies reserved by calls between
  \<^verbatim>\<open>reserve\<close> and the send; it never passes the larger of \<^verbatim>\<open>QueueBytes\<close> and the largest body, and the queue
  never passes \<^verbatim>\<open>QueueSize\<close>.
\<close>

theorem byte_accounting:
  assumes "fm_reach cfg pt s" and "i < nat (cf_Shards cfg)" and "0 < cf_QueueSize cfg"
    and "sane (cf_QueueBytes cfg)" "sane B" and "list_all (\<lambda>c. body_len (call_item c) \<le> B) (m_calls s)"
  shows "heldBytes (m_shards s ! i) =
           queue_bytes (sh_queue (m_shards s ! i)) + worker_bytes (m_workers s ! i) + reserved_bytes i (m_calls s) \<and>
         heldBytes (m_shards s ! i) \<le> max (cf_QueueBytes cfg) B \<and>
         int (length (sh_queue (m_shards s ! i))) \<le> cf_QueueSize cfg"
proof -
  have sh: "shape_inv cfg s" by (rule shape.reach_holds [OF assms(1)])
  have "shard_bytes_ok cfg B s i"
    using bytes.reach_holds [OF assms(1), of B] assms(2,4,5,6) by (simp add: bytes_inv_def)
  then show ?thesis
    using queue_nth [OF queue.reach_holds [OF assms(1)], of i] assms(2,3) shape_lengths(1) [OF sh]
    by (simp add: shard_bytes_ok_def heldBytes_def)
qed

theorem byte_accounting_witness:
  "heldBytes (m_shards (after busy_choices) ! 0) =
     queue_bytes (sh_queue (m_shards (after busy_choices) ! 0)) + worker_bytes (m_workers (after busy_choices) ! 0) +
     reserved_bytes 0 (m_calls (after busy_choices)) \<and>
   heldBytes (m_shards (after busy_choices) ! 0) \<le> max (cf_QueueBytes small_config) 5 \<and>
   int (length (sh_queue (m_shards (after busy_choices) ! 0))) \<le> cf_QueueSize small_config"
proof (rule byte_accounting [OF after_reach [OF busy_facts(1)]])
  show "list_all (\<lambda>c. body_len (call_item c) \<le> 5) (m_calls (after busy_choices))" by code_simp
qed (simp_all add: small_config_def demo_config_fields sane_def)

text \<open>
  C13: when \<^verbatim>\<open>Shutdown\<close> returns nothing is left behind. Every queue is empty, every byte is given back, the
  items that ended on a shard are exactly the items sent to it, and the number of counted deliveries and
  drops equals the number of calls that were told their payload was taken.
\<close>

theorem shutdown_complete:
  assumes "fm_reach cfg pt s" and "m_shutdown s = SReturned"
    and "sane (cf_QueueBytes cfg)" "sane B" and "list_all (\<lambda>c. body_len (call_item c) \<le> B) (m_calls s)"
  shows "(\<forall>i < nat (cf_Shards cfg). sh_queue (m_shards s ! i) = [] \<and> heldBytes (m_shards s ! i) = 0 \<and>
            m_ended s ! i = m_sent s ! i) \<and>
         outcomes (m_trace s) = size (sum_list (map taken (m_calls s)))"
proof -
  note lk = lock.reach_holds [OF assms(1)] and gone = workers_gone [OF assms(1,2)]
  have none: "reserved_bytes i (m_calls s) = 0" for i
    using lk assms(2) by (simp add: lock_inv_def reserved_bytes_idle)
  have each: "sh_queue (m_shards s ! i) = [] \<and> heldBytes (m_shards s ! i) = 0 \<and> m_ended s ! i = m_sent s ! i"
    if i: "i < nat (cf_Shards cfg)" for i
  proof -
    have "shard_bytes_ok cfg B s i" using bytes.reach_holds [OF assms(1), of B] assms(3-5) i by (simp add: bytes_inv_def)
    moreover have "m_ended s ! i = m_sent s ! i"
      using fifo.reach_holds [OF assms(1)] i gone [OF i] by (simp add: fifo_inv_def)
    ultimately show ?thesis using gone [OF i] none by (simp add: shard_bytes_ok_def heldBytes_def)
  qed
  then show ?thesis
    using taken_accounted [OF assms(1)] returned_holds_nothing [OF assms(1,2)] by simp
qed

theorem shutdown_complete_witness:
  "sh_queue (m_shards (after full_choices) ! 0) = [] \<and> heldBytes (m_shards (after full_choices) ! 0) = 0 \<and>
   outcomes (m_trace (after full_choices)) = 2"
proof -
  have all: "list_all (\<lambda>c. body_len (call_item c) \<le> 5) (m_calls (after full_choices))" by code_simp
  show ?thesis
    using shutdown_complete [OF after_reach [OF full_facts(1)] full_facts(2) _ _ all]
    by (simp add: full_facts(3) small_config_def demo_config_fields sane_def)
qed

text \<open>
  A closed sink takes nothing. Once \<^verbatim>\<open>Shutdown\<close> has set \<^verbatim>\<open>closed\<close>, no step of any goroutine sends an item, so
  no payload is answered with success and then missed by the drain.
\<close>

theorem closed_sends_nothing:
  assumes "fm_reach cfg pt s" and "m_closed s" and "fm_step cfg pt s t"
  shows "m_sent t = m_sent s \<and> m_closed t \<and> sum_list (map taken (m_calls t)) = sum_list (map taken (m_calls s))"
proof -
  note lk = lock.reach_holds [OF assms(1)]
  have reach_t: "fm_reach cfg pt t" by (rule fm_reach.step [OF assms(1,3)])
  from assms(3) have "m_sent t = m_sent s \<and> m_closed t"
  proof (cases rule: fm_step.cases)
    case (call j)
    from call(2) have "m_closed t = m_closed s" by (auto elim!: call_stepE simp: put_defs)
    then show ?thesis using closed_call [OF lk assms(2) call] assms(2) by simp
  next
    case (worker i)
    from worker(2) have "m_closed t = m_closed s" by (auto elim!: worker_stepE simp: put_defs)
    then show ?thesis using worker_sent [OF worker(2)] assms(2) by simp
  next
    case shutting
    then show ?thesis using assms(2) by (auto elim!: shutdown_stepE)
  qed (use assms(2) in simp)
  then show ?thesis
    using taken.reach_holds [OF assms(1)] taken.reach_holds [OF reach_t] by (simp add: taken_inv_def)
qed

theorem closed_sends_nothing_witness:
  "\<exists>t. fm_step small_config (\<lambda>v. None) (after stop_choices) t \<and> m_sent t = m_sent (after stop_choices) \<and> m_closed t"
proof -
  let ?t = "(after stop_choices)\<lparr>m_calls := m_calls (after stop_choices) @ [CallStart demo_item]\<rparr>"
  have step: "fm_step small_config (\<lambda>v. None) (after stop_choices) ?t" by (rule fm_step.arrive)
  from closed_sends_nothing [OF after_reach [OF stop_facts(1)] stop_facts(3) step] step show ?thesis by blast
qed

text \<open>
  The drain ends. From the moment \<^verbatim>\<open>stopping\<close> is closed, no step of any goroutine adds to the work left on
  the shards and every step of a worker takes some away, while a worker that has not returned can always
  move; so every worker returns after a bounded number of its own steps, and \<^verbatim>\<open>Shutdown\<close> with them.
\<close>

theorem drain_ends:
  assumes "fm_reach cfg pt s" and "m_stopping s"
  shows "(\<forall>t. fm_step cfg pt s t \<longrightarrow> work_left t \<le> work_left s \<and> m_stopping t) \<and>
         (\<forall>i t. i < nat (cf_Shards cfg) \<longrightarrow> worker_step cfg pt i s t \<longrightarrow> work_left t < work_left s) \<and>
         (\<forall>i < nat (cf_Shards cfg). m_workers s ! i \<noteq> WExit \<longrightarrow> (\<exists>t. worker_step cfg pt i s t)) \<and>
         (work_left s = 0 \<longrightarrow> list_all (\<lambda>w. w = WExit) (m_workers s))"
proof (intro conjI allI impI)
  note lk = lock.reach_holds [OF assms(1)] and sh = shape.reach_holds [OF assms(1)]
  fix t assume "fm_step cfg pt s t"
  then show "work_left t \<le> work_left s" by (rule work_left_step [OF lk sh assms(2)])
  from \<open>fm_step cfg pt s t\<close> show "m_stopping t"
    using assms(2) by (auto elim!: fm_stepE call_stepE worker_stepE shutdown_stepE simp: put_defs)
next
  note sh = shape.reach_holds [OF assms(1)]
  fix i t assume "i < nat (cf_Shards cfg)" and "worker_step cfg pt i s t"
  then show "work_left t < work_left s"
    using work_left_less [OF sh assms(2)] shape_lengths(2) [OF sh] by simp
next
  fix i assume "i < nat (cf_Shards cfg)" and "m_workers s ! i \<noteq> WExit"
  then show "\<exists>t. worker_step cfg pt i s t" using worker_progress [OF assms(2)] by blast
next
  assume zero: "work_left s = 0"
  have "m_workers s ! i = WExit" if "i < length (m_workers s)" for i
  proof -
    have "shard_work s i = 0" using zero that by (simp add: work_left_def)
    then show ?thesis by (cases "m_workers s ! i") (auto simp: shard_work_def split: if_splits)
  qed
  then show "list_all (\<lambda>w. w = WExit) (m_workers s)" by (simp add: list_all_length)
qed

theorem drain_ends_witness:
  "\<exists>t. worker_step small_config (\<lambda>v. None) 0 (after stop_choices) t \<and> work_left t < work_left (after stop_choices)"
proof -
  note ends = drain_ends [OF after_reach [OF stop_facts(1)] stop_facts(2)]
  have "m_workers (after stop_choices) ! 0 \<noteq> WExit" by (simp add: stop_facts(4))
  moreover have "0 < nat (cf_Shards small_config)" by (simp add: small_config_def)
  ultimately show ?thesis using ends by blast
qed

end
