(* ===== verification/Forward_Spec.thy ===== *)
theory Forward_Spec
  imports Forward_Machine "HOL-Library.Sublist"
begin

text \<open>
  What the forwarding sink promises, without its locks, counters and goroutines: one first-in first-out queue per shard
  that takes an item while the sink is open and ends the oldest item. The machine of \<open>Forward_Machine\<close> implements it:
  every step of a goroutine is a step of the specification or changes nothing in it.
\<close>

section \<open>Simulation\<close>

text \<open>
  A machine implements a specification along an abstraction function when it starts where the specification starts
  and each of its steps, in a state its invariant allows, is a step of the specification or none.
\<close>

locale simulation =
  fixes astep :: "'a \<Rightarrow> 'a \<Rightarrow> bool" and ainit :: 'a and cstep :: "'c \<Rightarrow> 'c \<Rightarrow> bool" and cinit :: 'c
    and abs :: "'c \<Rightarrow> 'a" and Inv :: "'c \<Rightarrow> bool"
  assumes starts: "Inv cinit" "abs cinit = ainit"
    and keeps: "Inv s \<Longrightarrow> cstep s t \<Longrightarrow> Inv t"
    and simulates: "Inv s \<Longrightarrow> cstep s t \<Longrightarrow> abs t = abs s \<or> astep (abs s) (abs t)"
begin

lemma runs: "cstep\<^sup>*\<^sup>* cinit s \<Longrightarrow> Inv s \<and> astep\<^sup>*\<^sup>* ainit (abs s)"
proof (induction rule: rtranclp_induct)
  case base
  then show ?case using starts by simp
next
  case (step s t)
  then have "Inv t" "abs t = abs s \<or> astep (abs s) (abs t)" using keeps simulates by blast+
  with step.IH show ?case by (metis rtranclp.rtrancl_into_rtrancl)
qed

text \<open>What the specification never does, the machine never does.\<close>

lemma transfers:
  assumes "\<And>a. astep\<^sup>*\<^sup>* ainit a \<Longrightarrow> P a" and "cstep\<^sup>*\<^sup>* cinit s"
  shows "P (abs s)"
  using assms runs by blast

end

section \<open>The specification\<close>

record queues =
  q_waiting :: "queuedItem list list"
  q_done :: "queuedItem list list"
  q_open :: bool

definition queues_init :: "nat \<Rightarrow> queues" where
  "queues_init n = \<lparr>q_waiting = replicate n [], q_done = replicate n [], q_open = True\<rparr>"

inductive queues_step :: "nat \<Rightarrow> queues \<Rightarrow> queues \<Rightarrow> bool" for n :: nat where
  put:
    "q_open s \<Longrightarrow> shardIndex (shardKey (it_owner item)) (int n) = Some i \<Longrightarrow>
     queues_step n s (s\<lparr>q_waiting := (q_waiting s)[i := q_waiting s ! i @ [item]]\<rparr>)"
| finish:
    "i < n \<Longrightarrow> q_waiting s ! i = item # rest \<Longrightarrow>
     queues_step n s (s\<lparr>q_waiting := (q_waiting s)[i := rest], q_done := (q_done s)[i := q_done s ! i @ [item]]\<rparr>)"
| close: "queues_step n s (s\<lparr>q_open := False\<rparr>)"

section \<open>The machine implements it\<close>

definition waiting :: "fm \<Rightarrow> nat \<Rightarrow> queuedItem list" where
  "waiting s i = in_hand (m_workers s ! i) @ sh_queue (m_shards s ! i)"

definition abs_queues :: "fm \<Rightarrow> queues" where
  "abs_queues s =
     \<lparr>q_waiting = map (waiting s) [0..<length (m_shards s)],
      q_done = m_ended s, q_open = (\<not> m_closed s)\<rparr>"

text \<open>A call that reserved bytes did so on the shard of its item.\<close>

definition placed :: "nat \<Rightarrow> call \<Rightarrow> bool" where
  "placed n c \<longleftrightarrow>
     (case c of CallReserved item i \<Rightarrow> shardIndex (shardKey (it_owner item)) (int n) = Some i
      | CallUndo item i \<Rightarrow> shardIndex (shardKey (it_owner item)) (int n) = Some i | _ \<Rightarrow> True)"

definition placed_inv :: "'k config \<Rightarrow> fm \<Rightarrow> bool" where
  "placed_inv cfg s \<longleftrightarrow>
     shape_inv cfg s \<and> list_all (placed (nat (cf_Shards cfg))) (m_calls s) \<and>
     (\<forall>i < nat (cf_Shards cfg). \<forall>item \<in> set (m_sent s ! i).
        shardIndex (shardKey (it_owner item)) (int (nat (cf_Shards cfg))) = Some i)"

lemma placed_call:
  assumes "placed_inv cfg s" and "j < length (m_calls s)" and "call_step cfg j s t"
  shows "placed_inv cfg t"
proof -
  have sh: "shape_inv cfg s" and pl: "list_all (placed (nat (cf_Shards cfg))) (m_calls s)"
    using assms(1) by (simp_all add: placed_inv_def)
  have t: "shape_inv cfg t" by (rule shape_call [OF sh assms(2,3)])
  have here: "placed (nat (cf_Shards cfg)) (m_calls s ! j)" using pl assms(2) by (simp add: list_all_length)
  from assms(3) show ?thesis
  proof (cases rule: call_step.cases)
    case (sent item i sh')
    have i: "shardIndex (shardKey (it_owner item)) (int (nat (cf_Shards cfg))) = Some i" using here sent(2) by (simp add: placed_def)
    have old: "item' \<in> set (m_sent s ! k) \<or> k = i \<and> item' = item" if "item' \<in> set ((m_sent s)[i := m_sent s ! i @ [item]] ! k)" for item' k
      using that by (cases "k = i"; cases "i < length (m_sent s)") (auto simp: list_update_beyond)
    have "list_all (placed (nat (cf_Shards cfg))) (m_calls t)" using pl sent by (auto simp: put_defs placed_def intro!: list_all_put)
    moreover have "shardIndex (shardKey (it_owner item')) (int (nat (cf_Shards cfg))) = Some k"
      if "k < nat (cf_Shards cfg)" "item' \<in> set (m_sent t ! k)" for item' k
      using old [of item' k] that i assms(1) sent by (auto simp: put_defs placed_inv_def)
    ultimately show ?thesis using t by (simp add: placed_inv_def)
  qed (use assms(1) t here pl shape_lengths [OF sh] in \<open>auto simp: placed_inv_def put_defs placed_def intro!: list_all_put\<close>)
qed

interpretation placed: fm_invariant cfg pt "placed_inv cfg"
proof
  fix s t j i and item :: queuedItem
  show "placed_inv cfg (fm_init cfg)" using shape_init [of cfg] by (simp add: placed_inv_def fm_init_def Let_def)
  show "placed_inv cfg s \<Longrightarrow> placed_inv cfg (s\<lparr>m_calls := m_calls s @ [CallStart item]\<rparr>)"
    by (simp add: placed_inv_def shape_arrive placed_def)
  show "placed_inv cfg s \<Longrightarrow> j < length (m_calls s) \<Longrightarrow> call_step cfg j s t \<Longrightarrow> placed_inv cfg t" by (rule placed_call)
  show "placed_inv cfg s \<Longrightarrow> i < length (m_workers s) \<Longrightarrow> worker_step cfg pt i s t \<Longrightarrow> placed_inv cfg t"
    using shape_worker by (auto simp: placed_inv_def worker_calls worker_sent)
  show "placed_inv cfg s \<Longrightarrow> shutdown_step s t \<Longrightarrow> placed_inv cfg t"
    using shape_shutdown by (auto simp: placed_inv_def shutdown_frame)
qed

lemma waiting_same:
  assumes "length (m_shards t) = length (m_shards s)" and "\<And>k. k < length (m_shards s) \<Longrightarrow> waiting t k = waiting s k"
  shows "q_waiting (abs_queues t) = q_waiting (abs_queues s)"
  using assms by (simp add: abs_queues_def)

lemma waiting_put:
  assumes "length (m_shards t) = length (m_shards s)" and "\<And>k. k < length (m_shards s) \<Longrightarrow> k \<noteq> i \<Longrightarrow> waiting t k = waiting s k"
    and "i < length (m_shards s)"
  shows "q_waiting (abs_queues t) = (q_waiting (abs_queues s))[i := waiting t i]"
  by (rule nth_equalityI) (use assms in \<open>auto simp: abs_queues_def nth_list_update\<close>)

lemma call_shards: "call_step cfg j s t \<Longrightarrow> length (m_shards t) = length (m_shards s) \<and> m_ended t = m_ended s \<and> m_closed t = m_closed s"
  by (erule call_stepE) (simp_all add: put_defs)

text \<open>Only the call that sends its item changes a queue.\<close>

lemma call_simulates:
  assumes "fm_reach cfg pt s" and "j < length (m_calls s)" and "call_step cfg j s t"
  shows "abs_queues t = abs_queues s \<or> queues_step (nat (cf_Shards cfg)) (abs_queues s) (abs_queues t)"
proof -
  note sh = shape.reach_holds [OF assms(1)] and frame = call_shards [OF assms(3)] and workers = call_workers [OF assms(3)]
  have len: "length (m_shards s) = nat (cf_Shards cfg)" by (rule shape_lengths [OF sh])
  show ?thesis
  proof (cases "\<exists>item i. m_calls s ! j = CallReserved item i \<and> m_calls t ! j = CallDone item None")
    case True
    from assms(3) True assms(2) obtain item i sh' where c: "m_calls s ! j = CallReserved item i"
      and send: "try_send (cf_QueueSize cfg) item (m_shards s ! i) = (True, sh')" and t: "m_shards t = (m_shards s)[i := sh']"
      by (cases rule: call_step.cases) (auto simp: put_defs)
    have "placed (nat (cf_Shards cfg)) (m_calls s ! j)"
      using placed.reach_holds [OF assms(1)] assms(2) by (simp add: placed_inv_def list_all_length)
    then have i: "shardIndex (shardKey (it_owner item)) (int (nat (cf_Shards cfg))) = Some i" using c by (simp add: placed_def)
    have lt: "i < length (m_shards s)" using shardIndex_range [OF i] len by simp
    have "waiting t i = waiting s i @ [item]" using try_send_queue [OF send] lt by (simp add: waiting_def t workers)
    then have w: "q_waiting (abs_queues t) = (q_waiting (abs_queues s))[i := q_waiting (abs_queues s) ! i @ [item]]"
      using waiting_put [of t s i] lt by (simp add: t workers waiting_def abs_queues_def)
    have "\<not> m_closed s" using lock.reach_holds [OF assms(1)] assms(2) c by (auto simp: lock_inv_def list_all_length)
    then have "queues_step (nat (cf_Shards cfg)) (abs_queues s) (abs_queues s\<lparr>q_waiting := (q_waiting (abs_queues s))[i := q_waiting (abs_queues s) ! i @ [item]]\<rparr>)"
      by (intro queues_step.put [OF _ i]) (simp add: abs_queues_def)
    moreover have "abs_queues t = abs_queues s\<lparr>q_waiting := q_waiting (abs_queues t)\<rparr>" by (simp add: abs_queues_def frame)
    ultimately show ?thesis using w by simp
  next
    case False
    have "sh_queue (m_shards t ! k) = sh_queue (m_shards s ! k)" for k
      using assms(3) by (cases rule: call_step.cases) (use False assms(2) in \<open>auto simp: put_defs queue_kept\<close>)
    then have "q_waiting (abs_queues t) = q_waiting (abs_queues s)"
      by (intro waiting_same) (simp_all add: frame waiting_def workers)
    then show ?thesis by (simp add: abs_queues_def frame)
  qed
qed

text \<open>Only a worker that ends its item changes what waits on its shard; taking the item from the queue does not.\<close>

lemma worker_frame:
  "worker_step cfg pt i s t \<Longrightarrow> length (m_shards t) = length (m_shards s) \<and> m_closed t = m_closed s \<and>
     (\<forall>k. k \<noteq> i \<longrightarrow> waiting t k = waiting s k)"
  by (erule worker_stepE) (auto simp: put_defs waiting_def)

lemma worker_waiting:
  assumes "i < length (m_workers s)" "i < length (m_shards s)" and "worker_step cfg pt i s t"
  shows "m_ended t = m_ended s \<and> waiting t i = waiting s i \<or>
    (\<exists>item. waiting s i = item # waiting t i \<and> m_ended t = (m_ended s)[i := m_ended s ! i @ [item]])"
  using assms(3) by (cases rule: worker_step.cases) (use assms(1,2) in \<open>auto simp: put_defs waiting_def\<close>)

lemma worker_simulates:
  assumes "shape_inv cfg s" and "i < length (m_workers s)" and "worker_step cfg pt i s t"
  shows "abs_queues t = abs_queues s \<or> queues_step (nat (cf_Shards cfg)) (abs_queues s) (abs_queues t)"
proof -
  have i: "i < length (m_shards s)" "i < nat (cf_Shards cfg)" using shape_lengths [OF assms(1)] assms(2) by simp_all
  note frame = worker_frame [OF assms(3)]
  have w: "q_waiting (abs_queues t) = (q_waiting (abs_queues s))[i := waiting t i]"
    by (rule waiting_put) (use frame i in simp_all)
  have at: "q_waiting (abs_queues s) ! i = waiting s i" using i by (simp add: abs_queues_def)
  from worker_waiting [OF assms(2) i(1) assms(3)] show ?thesis
  proof (elim disjE exE conjE)
    assume "m_ended t = m_ended s" "waiting t i = waiting s i"
    then have "abs_queues t = abs_queues s" using w at frame list_update_id [of "q_waiting (abs_queues s)" i]
      by (simp add: abs_queues_def)
    then show ?thesis by simp
  next
    fix item assume e: "waiting s i = item # waiting t i" "m_ended t = (m_ended s)[i := m_ended s ! i @ [item]]"
    have "queues_step (nat (cf_Shards cfg)) (abs_queues s)
        (abs_queues s\<lparr>q_waiting := (q_waiting (abs_queues s))[i := waiting t i], q_done := (q_done (abs_queues s))[i := q_done (abs_queues s) ! i @ [item]]\<rparr>)"
      by (rule queues_step.finish [OF i(2)]) (use at e in simp)
    moreover have "abs_queues t = abs_queues s\<lparr>q_waiting := (q_waiting (abs_queues s))[i := waiting t i],
        q_done := (q_done (abs_queues s))[i := q_done (abs_queues s) ! i @ [item]]\<rparr>"
      unfolding w [symmetric] using e(2) frame by (simp add: abs_queues_def)
    ultimately show ?thesis by simp
  qed
qed

lemma shutdown_simulates:
  assumes "shutdown_step s t"
  shows "abs_queues t = abs_queues s \<or> queues_step n (abs_queues s) (abs_queues t)"
  using assms
proof (cases rule: shutdown_step.cases)
  case close
  then have "abs_queues t = abs_queues s\<lparr>q_open := False\<rparr>" by (simp add: abs_queues_def waiting_def)
  then show ?thesis using queues_step.close by metis
qed (simp_all add: abs_queues_def waiting_def)

interpretation sink: simulation "queues_step (nat (cf_Shards cfg))" "queues_init (nat (cf_Shards cfg))" "fm_step cfg pt" "fm_init cfg"
  abs_queues "fm_reach cfg pt"
proof
  show "fm_reach cfg pt (fm_init cfg)" by (rule fm_reach.start)
  show "abs_queues (fm_init cfg) = queues_init (nat (cf_Shards cfg))"
    by (auto simp: abs_queues_def queues_init_def fm_init_def waiting_def Let_def intro: nth_equalityI)
  fix s t assume r: "fm_reach cfg pt s" and st: "fm_step cfg pt s t"
  show "fm_reach cfg pt t" by (rule fm_reach.step [OF r st])
  from st show "abs_queues t = abs_queues s \<or> queues_step (nat (cf_Shards cfg)) (abs_queues s) (abs_queues t)"
  proof (cases rule: fm_step.cases)
    case (arrive item)
    then show ?thesis by (simp add: abs_queues_def waiting_def)
  next
    case (call j)
    then show ?thesis by (rule call_simulates [OF r])
  next
    case (worker i)
    then show ?thesis by (rule worker_simulates [OF shape.reach_holds [OF r]])
  next
    case shutting
    then show ?thesis by (rule shutdown_simulates)
  qed
qed

lemma fm_reach_runs: "fm_reach cfg pt s \<Longrightarrow> (fm_step cfg pt)\<^sup>*\<^sup>* (fm_init cfg) s"
  by (induction rule: fm_reach.induct) (auto intro: rtranclp.rtrancl_into_rtrancl)

section \<open>The order of one instance\<close>

text \<open>The items of one instance in a list.\<close>

definition of_instance :: "service_instance \<Rightarrow> queuedItem list \<Rightarrow> queuedItem list" where
  "of_instance owner items = filter (\<lambda>item. it_owner item = owner) items"

lemma of_instance_append: "of_instance owner (xs @ ys) = of_instance owner xs @ of_instance owner ys"
  by (simp add: of_instance_def)

section \<open>Properties\<close>

text \<open>
  C9: the forwarding sink, with all its goroutines and locks, implements one first-in first-out queue per shard. Every
  run of the machine is a run of the specification: an item is put at the end of its own shard's queue only while
  the sink is open, only the oldest item of a shard is ended, and nothing else ever happens to a queue.
\<close>

theorem sink_refines_queues:
  assumes "fm_reach cfg pt s"
  shows "(queues_step (nat (cf_Shards cfg)))\<^sup>*\<^sup>* (queues_init (nat (cf_Shards cfg))) (abs_queues s) \<and>
    (\<forall>t. fm_step cfg pt s t \<longrightarrow>
       abs_queues t = abs_queues s \<or> queues_step (nat (cf_Shards cfg)) (abs_queues s) (abs_queues t))"
  using sink.runs [OF fm_reach_runs [OF assms]] sink.simulates by blast

theorem sink_refines_queues_witness:
  "(queues_step 1)\<^sup>*\<^sup>* (queues_init 1) (abs_queues (after full_choices)) \<and> q_waiting (abs_queues (after full_choices)) = [[]] \<and>
   q_done (abs_queues (after full_choices)) = [[demo_item, demo_item]]"
proof -
  have "nat (cf_Shards small_config) = 1" by (simp add: small_config_def)
  then have "(queues_step 1)\<^sup>*\<^sup>* (queues_init 1) (abs_queues (after full_choices))"
    using sink_refines_queues [OF after_reach [OF full_facts(1)]] by simp
  moreover have "q_waiting (abs_queues (after full_choices)) = [[]] \<and> q_done (abs_queues (after full_choices)) = [[demo_item, demo_item]]"
    by code_simp
  ultimately show ?thesis by blast
qed

text \<open>
  C10: one instance's payloads are delivered in the order they were taken. All of its items ever taken are on one
  shard, and those of them whose delivery ended are the first ones, in the same order.
\<close>

theorem instance_order:
  assumes "fm_reach cfg pt s" and "0 < cf_Shards cfg" "cf_Shards cfg < 2 ^ 32"
  shows "\<exists>i < nat (cf_Shards cfg).
    (\<forall>k < nat (cf_Shards cfg). k \<noteq> i \<longrightarrow> of_instance owner (m_sent s ! k) = []) \<and>
    prefix (of_instance owner (m_ended s ! i)) (of_instance owner (m_sent s ! i))"
proof -
  let ?n = "nat (cf_Shards cfg)"
  obtain i where i: "shardIndex (shardKey owner) (int ?n) = Some i" using shardIndex_total [of "int ?n"] assms(2,3) by auto
  have "of_instance owner (m_sent s ! k) = []" if "k < ?n" "k \<noteq> i" for k
  proof -
    have "it_owner item \<noteq> owner" if "item \<in> set (m_sent s ! k)" for item
      using placed.reach_holds [OF assms(1)] \<open>k < ?n\<close> \<open>k \<noteq> i\<close> that i by (auto simp: placed_inv_def)
    then show ?thesis by (auto simp: of_instance_def filter_empty_conv)
  qed
  moreover have lt: "i < ?n" by (rule shardIndex_range [OF i])
  moreover have "m_sent s ! i = m_ended s ! i @ waiting s i"
    using fifo.reach_holds [OF assms(1)] lt by (simp add: fifo_inv_def waiting_def)
  then have "prefix (of_instance owner (m_ended s ! i)) (of_instance owner (m_sent s ! i))"
    by (simp add: of_instance_append)
  ultimately show ?thesis by blast
qed

theorem instance_order_witness:
  "prefix (of_instance (it_owner demo_item) (m_ended (after stop_choices) ! 0)) (of_instance (it_owner demo_item) (m_sent (after stop_choices) ! 0)) \<and>
   of_instance (it_owner demo_item) (m_sent (after stop_choices) ! 0) = [demo_item, demo_item]"
proof -
  have facts: "run small_config (\<lambda>v. None) stop_choices (fm_init small_config) \<noteq> None"
    "of_instance (it_owner demo_item) (m_sent (after stop_choices) ! 0) = [demo_item, demo_item]" by code_simp+
  have n: "cf_Shards small_config = 1" by (simp add: small_config_def)
  then show ?thesis using instance_order [OF after_reach [OF facts(1)], of "it_owner demo_item"] facts(2) by simp
qed

end
