(* ===== verification/Go_Values.thy ===== *)
theory Go_Values
  imports Go_Prelude Float64
begin

text \<open>
  The parts of Go's standard library that turn a setting into a value: \<^verbatim>\<open>utf8.ValidString\<close>,
  \<^verbatim>\<open>time.ParseDuration\<close> and \<^verbatim>\<open>slog.Level.UnmarshalText\<close>. Each returns \<open>None\<close> where the Go function returns an error.
\<close>

section \<open>UTF-8\<close>

definition byte_in :: "nat \<Rightarrow> nat \<Rightarrow> char \<Rightarrow> bool" where
  "byte_in lo hi c \<longleftrightarrow> lo \<le> of_char c \<and> of_char c \<le> hi"

text \<open>
  The bytes that may follow a first byte: how many, and the range of the first of them. Overlong forms,
  surrogates and values above U+10FFFF are excluded by the ranges.
\<close>

definition utf8_tail :: "char \<Rightarrow> (nat \<times> nat \<times> nat) option" where
  "utf8_tail c =
     (if byte_in 0x00 0x7F c then Some (0, 0x80, 0xBF)
      else if byte_in 0xC2 0xDF c then Some (1, 0x80, 0xBF)
      else if byte_in 0xE0 0xE0 c then Some (2, 0xA0, 0xBF)
      else if byte_in 0xED 0xED c then Some (2, 0x80, 0x9F)
      else if byte_in 0xE1 0xEF c then Some (2, 0x80, 0xBF)
      else if byte_in 0xF0 0xF0 c then Some (3, 0x90, 0xBF)
      else if byte_in 0xF1 0xF3 c then Some (3, 0x80, 0xBF)
      else if byte_in 0xF4 0xF4 c then Some (3, 0x80, 0x8F)
      else None)"

function ValidString :: "string \<Rightarrow> bool" where
  "ValidString [] = True"
| "ValidString (c # s) =
     (case utf8_tail c of
        None \<Rightarrow> False
      | Some (n, lo, hi) \<Rightarrow>
          n \<le> length s \<and>
          (n = 0 \<or> byte_in lo hi (hd s) \<and> list_all (byte_in 0x80 0xBF) (drop 1 (take n s))) \<and>
          ValidString (drop n s))"
  by pat_completeness auto
termination
  by (relation "measure length") auto

section \<open>Durations\<close>

text \<open>\<^verbatim>\<open>leadingInt\<close>: the digits at the front, refused once the value passes 2^63.\<close>

fun leadingInt :: "int \<Rightarrow> string \<Rightarrow> (int \<times> string) option" where
  "leadingInt x [] = Some (x, [])"
| "leadingInt x (c # s) =
     (if \<not> is_digit c then Some (x, c # s)
      else if x > 2 ^ 63 div 10 then None
      else
        (let y = x * 10 + int (digit_val c) in
         if y > 2 ^ 63 then None else leadingInt y s))"

text \<open>\<^verbatim>\<open>leadingFraction\<close>: digits that do not fit are consumed and ignored; the scale is a power of ten.\<close>

fun leadingFraction :: "int \<Rightarrow> int \<Rightarrow> bool \<Rightarrow> string \<Rightarrow> int \<times> int \<times> string" where
  "leadingFraction x scale overflow [] = (x, scale, [])"
| "leadingFraction x scale overflow (c # s) =
     (if \<not> is_digit c then (x, scale, c # s)
      else if overflow then leadingFraction x scale True s
      else if x > (2 ^ 63 - 1) div 10 then leadingFraction x scale True s
      else
        (let y = x * 10 + int (digit_val c) in
         if y > 2 ^ 63 then leadingFraction x scale True s
         else leadingFraction y (scale * 10) False s))"

definition is_unit_char :: "char \<Rightarrow> bool" where
  "is_unit_char c \<longleftrightarrow> c \<noteq> CHR ''.'' \<and> \<not> is_digit c"

text \<open>The micro sign (U+00B5) and the Greek letter mu (U+03BC) are both accepted.\<close>

definition unitMap :: "(string \<times> int) list" where
  "unitMap =
     [(''ns'', 1), (''us'', 10 ^ 3), ([CHR 0xC2, CHR 0xB5, CHR ''s''], 10 ^ 3), ([CHR 0xCE, CHR 0xBC, CHR ''s''], 10 ^ 3),
      (''ms'', 10 ^ 6), (''s'', 10 ^ 9), (''m'', 60 * 10 ^ 9), (''h'', 3600 * 10 ^ 9)]"

text \<open>The fraction after a dot: its digits, their scale, what is left, and whether there were digits.\<close>

definition fraction_at :: "string \<Rightarrow> int \<times> int \<times> string \<times> bool" where
  "fraction_at s =
     (if s \<noteq> [] \<and> hd s = CHR ''.''
      then (case leadingFraction 0 1 False (tl s) of (f, scale, s2) \<Rightarrow> (f, scale, s2, length s2 \<noteq> length (tl s)))
      else (0, 1, s, False))"

text \<open>
  One number with its unit, and what is left. The fraction is \<^verbatim>\<open>uint64(float64(f) * (float64(unit) / scale))\<close>.
\<close>

definition duration_part :: "string \<Rightarrow> (int \<times> string) option" where
  "duration_part s =
     (if s = [] \<or> \<not> (hd s = CHR ''.'' \<or> is_digit (hd s)) then None
      else
     (case leadingInt 0 s of None \<Rightarrow> None
      | Some (v, s1) \<Rightarrow>
     (case fraction_at s1 of (f, scale, s2, post) \<Rightarrow>
      if length s1 = length s \<and> \<not> post then None
      else if takeWhile is_unit_char s2 = [] then None
      else
     (case map_of unitMap (takeWhile is_unit_char s2) of None \<Rightarrow> None
      | Some unit \<Rightarrow>
      if v > 2 ^ 63 div unit then None
      else
        (let w = v * unit + (if f > 0 then f64_to_int64 (f64_mul (f64_of_int f) (f64_div unit scale)) else 0) in
         if f > 0 \<and> w > 2 ^ 63 then None else Some (w, dropWhile is_unit_char s2))))))"

lemma leadingInt_length: "leadingInt x s = Some (v, s') \<Longrightarrow> length s' \<le> length s"
  by (induction x s rule: leadingInt.induct) (auto simp: Let_def split: if_splits)

lemma leadingFraction_length: "length (snd (snd (leadingFraction x sc ov s))) \<le> length s"
  by (induction s arbitrary: x sc ov) (simp_all add: Let_def le_SucI)

lemma fraction_at_length: "fraction_at s = (f, sc, s2, post) \<Longrightarrow> length s2 \<le> length s"
  using leadingFraction_length [of 0 1 False "tl s"] by (auto simp: fraction_at_def split: if_splits prod.splits)

lemma dropWhile_shorter: "takeWhile P xs \<noteq> [] \<Longrightarrow> length (dropWhile P xs) < length xs"
  by (cases xs) (auto simp: length_dropWhile_le le_imp_less_Suc split: if_splits)

lemma duration_part_shorter:
  assumes "duration_part s = Some (w, s')"
  shows "length s' < length s"
proof -
  obtain v s1 where 1: "leadingInt 0 s = Some (v, s1)"
    using assms by (auto simp: duration_part_def split: option.splits if_splits)
  obtain f scale s2 post where 2: "fraction_at s1 = (f, scale, s2, post)" by (metis prod_cases4)
  have "takeWhile is_unit_char s2 \<noteq> []" "s' = dropWhile is_unit_char s2"
    using assms by (auto simp: duration_part_def 1 2 Let_def split: option.splits if_splits)
  then have "length s' < length s2" by (simp add: dropWhile_shorter)
  also have "length s2 \<le> length s1" by (rule fraction_at_length [OF 2])
  also have "length s1 \<le> length s" using leadingInt_length [OF 1] .
  finally show ?thesis .
qed

text \<open>The sum is a \<^verbatim>\<open>uint64\<close>, which wraps around before it is compared.\<close>

function duration_loop :: "int \<Rightarrow> string \<Rightarrow> int option" where
  "duration_loop d s =
     (if s = [] then Some d
      else
     (case duration_part s of None \<Rightarrow> None
      | Some (v, s') \<Rightarrow>
          (let d' = (d + v) mod 2 ^ 64 in if d' > 2 ^ 63 then None else duration_loop d' s')))"
  by pat_completeness auto
termination
  by (relation "measure (\<lambda>(d, s). length s)") (auto simp: duration_part_shorter)

declare duration_loop.simps [simp del]

definition ParseDuration :: "string \<Rightarrow> int option" where
  "ParseDuration s =
     (let (neg, body) = (if s \<noteq> [] \<and> (hd s = CHR ''-'' \<or> hd s = CHR ''+'') then (hd s = CHR ''-'', tl s) else (False, s))
      in if body = ''0'' then Some 0
         else if body = [] then None
         else
           (case duration_loop 0 body of
              None \<Rightarrow> None
            | Some d \<Rightarrow> if neg then Some (- d) else if d > 2 ^ 63 - 1 then None else Some d))"

section \<open>Log levels\<close>

text \<open>
  \<^verbatim>\<open>strings.ToUpper\<close>, as far as an ASCII result can show: ASCII letters, and the two runes outside ASCII whose
  upper case is an ASCII letter (U+0131 gives \<^verbatim>\<open>I\<close>, U+017F gives \<^verbatim>\<open>S\<close>).
\<close>

definition upper_char :: "char \<Rightarrow> char" where
  "upper_char c =
     (if 97 \<le> (of_char c :: nat) \<and> (of_char c :: nat) \<le> 122 then char_of ((of_char c :: nat) - 32) else c)"

fun to_upper :: "string \<Rightarrow> string" where
  "to_upper [] = []"
| "to_upper (a # b # s) =
     (if a = CHR 0xC4 \<and> b = CHR 0xB1 then CHR ''I'' # to_upper s
      else if a = CHR 0xC5 \<and> b = CHR 0xBF then CHR ''S'' # to_upper s
      else upper_char a # to_upper (b # s))"
| "to_upper [a] = [upper_char a]"

definition level_of_name :: "string \<Rightarrow> int option" where
  "level_of_name name =
     map_of [(''DEBUG'', - 4), (''INFO'', 0), (''WARN'', 4), (''ERROR'', 8)] (to_upper name)"

text \<open>A name, and an offset after the first sign.\<close>

definition UnmarshalLevel :: "string \<Rightarrow> int option" where
  "UnmarshalLevel s =
     (let name = takeWhile (\<lambda>c. c \<noteq> CHR ''+'' \<and> c \<noteq> CHR ''-'') s;
          rest = dropWhile (\<lambda>c. c \<noteq> CHR ''+'' \<and> c \<noteq> CHR ''-'') s
      in case (if rest = [] then Some 0 else atoi rest) of
           None \<Rightarrow> None
         | Some offset \<Rightarrow>
             (case level_of_name name of None \<Rightarrow> None | Some l \<Rightarrow> Some (wrap64 (l + offset))))"

section \<open>Lemmas\<close>

lemma duration_loop_range:
  "duration_loop d s = Some r \<Longrightarrow> 0 \<le> d \<Longrightarrow> d \<le> 2 ^ 63 \<Longrightarrow> 0 \<le> r \<and> r \<le> 2 ^ 63"
proof (induction d s rule: duration_loop.induct)
  case (1 d s)
  show ?case
  proof (cases "s = []")
    case True
    then show ?thesis using "1.prems" by (simp add: duration_loop.simps [of d "[]"])
  next
    case False
    then obtain v s' where p: "duration_part s = Some (v, s')" and le: "(d + v) mod 2 ^ 64 \<le> 2 ^ 63"
      and r: "duration_loop ((d + v) mod 2 ^ 64) s' = Some r"
      using "1.prems"(1) by (subst (asm) duration_loop.simps) (auto simp: Let_def split: option.splits if_splits)
    moreover have "0 \<le> (d + v) mod 2 ^ 64" by (rule pos_mod_sign) simp
    ultimately show ?thesis using "1.IH" [OF False p refl refl] by (simp only: not_less if_False)
  qed
qed

lemma ParseDuration_range: "ParseDuration s = Some d \<Longrightarrow> in_int64 d"
  using duration_loop_range [of 0 s d] duration_loop_range [of 0 "tl s" d] duration_loop_range [of 0 "tl s" "- d"]
  by (auto simp: ParseDuration_def Let_def in_int64_def split: if_splits option.splits)

end
