(* ===== verification/Tokenfile.thy ===== *)
theory Tokenfile
  imports Go_Prelude
begin

text \<open>
  The package \<^verbatim>\<open>internal/tokenfile\<close> (\<^verbatim>\<open>tokenfile.go\<close>): reading secret tokens from a file, and re-reading the
  file so that a rotated secret is taken over and a broken one is not.

  The file system is not code of the repository: \<open>file_view\<close> is what one open, stat and read of the path meet.
  The function \<^verbatim>\<open>apply\<close> changes the state of whoever uses the tokens; it returns \<open>None\<close> where the Go function
  panics. The locale \<open>token_consumer\<close> is the contract between the file and such a user.
\<close>

section \<open>Parsing\<close>

definition ReloadInterval :: int where
  "ReloadInterval = 30 * 10 ^ 9"

definition maxFileBytes :: nat where
  "maxFileBytes = 2 ^ 20"

definition utf8BOM :: string where
  "utf8BOM = [CHR 0xEF, CHR 0xBB, CHR 0xBF]"

definition line_token :: "string \<Rightarrow> string option" where
  "line_token line =
     (let line = trim_space line in if line = [] \<or> has_prefix line ''#'' then None else Some line)"

definition Parse :: "string \<Rightarrow> string list" where
  "Parse data = List.map_filter line_token (split_on CHR 0x0A (trim_prefix utf8BOM data))"

section \<open>Reading\<close>

text \<open>
  What one read meets: the errors of \<^verbatim>\<open>OpenFile\<close> and \<^verbatim>\<open>Stat\<close>, whether the handle is a regular file, the bytes the
  handle yields, and the error it yields after them, if any. An error is its text.
\<close>

record file_view =
  fv_open_err :: "string option"
  fv_stat_err :: "string option"
  fv_regular :: bool
  fv_data :: string
  fv_read_err :: "string option"

text \<open>\<^verbatim>\<open>io.ReadAll(io.LimitReader(f, n))\<close>: once \<open>n\<close> bytes are read the limit reports the end, not the file.\<close>

definition read_limited :: "nat \<Rightarrow> file_view \<Rightarrow> string + string" where
  "read_limited n v =
     (case fv_read_err v of
        Some e \<Rightarrow> if length (fv_data v) < n then Inl e else Inr (take n (fv_data v))
      | None \<Rightarrow> Inr (take n (fv_data v)))"

definition Read :: "string \<Rightarrow> file_view \<Rightarrow> string + string list" where
  "Read path v =
     (case fv_open_err v of Some e \<Rightarrow> Inl e
      | None \<Rightarrow>
     (case fv_stat_err v of Some e \<Rightarrow> Inl e
      | None \<Rightarrow>
      if \<not> fv_regular v then Inl (path @ '' is not a regular file'')
      else
     (case read_limited (maxFileBytes + 1) v of Inl e \<Rightarrow> Inl e
      | Inr data \<Rightarrow>
      if length data > maxFileBytes then Inl (path @ '' is larger than '' @ utoa maxFileBytes @ '' bytes'')
      else Inr (Parse data))))"

type_synonym token_check = "string list \<Rightarrow> string option"

definition AtLeastOne :: token_check where
  "AtLeastOne tokens = (if tokens = [] then Some ''no token found'' else None)"

definition ExactlyOne :: token_check where
  "ExactlyOne tokens =
     (if length tokens \<noteq> 1 then Some (''found '' @ utoa (length tokens) @ '' tokens, want exactly one'') else None)"

definition load :: "string \<Rightarrow> token_check \<Rightarrow> file_view \<Rightarrow> string + string list" where
  "load path check v =
     (case Read path v of Inl e \<Rightarrow> Inl e
      | Inr tokens \<Rightarrow> (case check tokens of Some e \<Rightarrow> Inl (path @ '': '' @ e) | None \<Rightarrow> Inr tokens))"

section \<open>The file and its user\<close>

type_synonym 'c token_apply = "string list \<Rightarrow> 'c \<Rightarrow> 'c option"

record 'c File =
  f_path :: string
  f_label :: string
  f_check :: token_check
  f_apply :: "'c token_apply"
  f_last :: "string list"
  f_failing :: bool

text \<open>The result is the error or the file, with the state of the user after it; \<open>None\<close> is a panic of \<^verbatim>\<open>apply\<close>.\<close>

definition Open ::
  "string \<Rightarrow> string \<Rightarrow> token_check \<Rightarrow> 'c token_apply \<Rightarrow> file_view \<Rightarrow> 'c \<Rightarrow> ((string + 'c File) \<times> 'c) option" where
  "Open path label check ap v c =
     (case load path check v of
        Inl e \<Rightarrow> Some (Inl e, c)
      | Inr tokens \<Rightarrow>
          (case ap tokens c of
             None \<Rightarrow> None
           | Some c' \<Rightarrow>
               Some (Inr \<lparr>f_path = path, f_label = label, f_check = check, f_apply = ap, f_last = tokens, f_failing = False\<rparr>, c')))"

definition reload :: "'c File \<Rightarrow> file_view \<Rightarrow> 'c \<Rightarrow> ('c File \<times> 'c \<times> effect list) option" where
  "reload f v c =
     (case load (f_path f) (f_check f) v of
        Inl err \<Rightarrow>
          Some (f\<lparr>f_failing := True\<rparr>, c,
            [Inc TokenReloadFailures [f_label f],
             LogLine LWarn ''token file re-read failed; keeping the last good value''
               [(''file'', LStr (f_label f)), (''error'', LErr (ErrText err))]])
      | Inr tokens \<Rightarrow>
          (let recovered = (if f_failing f then [LogLine LInfo ''token file re-read recovered'' [(''file'', LStr (f_label f))]] else []);
               f1 = f\<lparr>f_failing := False\<rparr>
           in if tokens = f_last f then Some (f1, c, recovered)
              else
                (case f_apply f tokens c of
                   None \<Rightarrow> None
                 | Some c' \<Rightarrow>
                     Some (f1\<lparr>f_last := tokens\<rparr>, c',
                       recovered @ [LogLine LInfo ''token file changed''
                         [(''file'', LStr (f_label f)), (''tokens'', LInt (int (length tokens)))]]))))"

text \<open>The loop of \<^verbatim>\<open>Watch\<close> over the cases its \<^verbatim>\<open>select\<close> takes.\<close>

datatype watch_event = WatchDone | WatchTick file_view

fun watch_loop :: "watch_event list \<Rightarrow> 'c File \<Rightarrow> 'c \<Rightarrow> ('c File \<times> 'c \<times> effect list) option" where
  "watch_loop [] f c = Some (f, c, [])"
| "watch_loop (WatchDone # evs) f c = Some (f, c, [])"
| "watch_loop (WatchTick v # evs) f c =
     (case reload f v c of
        None \<Rightarrow> None
      | Some (f1, c1, es1) \<Rightarrow>
          (case watch_loop evs f1 c1 of
             None \<Rightarrow> None
           | Some (f2, c2, es2) \<Rightarrow> Some (f2, c2, es1 @ es2)))"

definition Watch :: "watch_event list \<Rightarrow> 'c File \<Rightarrow> 'c \<Rightarrow> ('c File \<times> 'c \<times> effect list) option" where
  "Watch evs f c =
     (case watch_loop evs f c of
        None \<Rightarrow> None
      | Some (f', c', es) \<Rightarrow> Some (f', c', Metric TokenReloadFailures 0 [f_label f] # es))"

section \<open>What the user of a file should see\<close>

text \<open>The views of the ticks before the watch ends.\<close>

fun ticks :: "watch_event list \<Rightarrow> file_view list" where
  "ticks [] = []"
| "ticks (WatchDone # evs) = []"
| "ticks (WatchTick v # evs) = v # ticks evs"

text \<open>The tokens of the last read that passed, starting from \<open>toks\<close>, and the number of reads that failed.\<close>

definition last_good :: "string \<Rightarrow> token_check \<Rightarrow> string list \<Rightarrow> file_view list \<Rightarrow> string list" where
  "last_good path check toks vs =
     foldl (\<lambda>ts v. case load path check v of Inl e \<Rightarrow> ts | Inr ts' \<Rightarrow> ts') toks vs"

definition bad_reads :: "string \<Rightarrow> token_check \<Rightarrow> file_view list \<Rightarrow> nat" where
  "bad_reads path check vs = length (filter (\<lambda>v. case load path check v of Inl e \<Rightarrow> True | Inr ts \<Rightarrow> False) vs)"

text \<open>
  The contract of a user of token files: tokens that pass the check can be applied, and the user then holds
  exactly these tokens, whatever it held before.
\<close>

locale token_consumer =
  fixes check :: token_check and ap :: "'c token_apply" and holds :: "'c \<Rightarrow> string list \<Rightarrow> bool"
  assumes applies: "check toks = None \<Longrightarrow> \<exists>c'. ap toks c = Some c' \<and> holds c' toks"
begin

definition watched :: "string \<Rightarrow> string \<Rightarrow> 'c File \<Rightarrow> 'c \<Rightarrow> bool" where
  "watched path label f c \<longleftrightarrow>
     f_path f = path \<and> f_label f = label \<and> f_check f = check \<and> f_apply f = ap \<and> holds c (f_last f)"

lemma load_checked: "load path check v = Inr toks \<Longrightarrow> check toks = None"
  by (auto simp: load_def split: sum.splits option.splits)

lemma open_cases:
  "(\<exists>e. load path check v = Inl e \<and> Open path label check ap v c = Some (Inl e, c)) \<or>
   (\<exists>f c'. load path check v = Inr (f_last f) \<and> Open path label check ap v c = Some (Inr f, c') \<and> watched path label f c')"
proof (cases "load path check v")
  case (Inr toks)
  obtain c' where "ap toks c = Some c'" "holds c' toks" using applies [OF load_checked [OF Inr]] by blast
  with Inr show ?thesis by (simp add: Open_def watched_def)
qed (simp add: Open_def)

lemma reload_keeps:
  assumes "watched path label f c"
  shows "\<exists>f' c' es. reload f v c = Some (f', c', es) \<and> watched path label f' c' \<and>
    f_last f' = last_good path check (f_last f) [v] \<and>
    metric_total TokenReloadFailures [label] es = int (bad_reads path check [v])"
proof -
  have f: "f_path f = path" "f_check f = check" "f_apply f = ap" "f_label f = label" "holds c (f_last f)"
    using assms by (simp_all add: watched_def)
  show ?thesis
  proof (cases "load path check v")
    case (Inl e)
    then show ?thesis using f by (simp add: reload_def watched_def last_good_def bad_reads_def)
  next
    case (Inr toks)
    obtain c' where c': "ap toks c = Some c'" "holds c' toks" using applies [OF load_checked [OF Inr]] by blast
    show ?thesis using f c' Inr
      by (cases "toks = f_last f") (simp_all add: reload_def watched_def last_good_def bad_reads_def)
  qed
qed

lemma watch_loop_keeps:
  assumes "watched path label f c"
  shows "\<exists>f' c' es. watch_loop evs f c = Some (f', c', es) \<and> watched path label f' c' \<and>
    f_last f' = last_good path check (f_last f) (ticks evs) \<and>
    metric_total TokenReloadFailures [label] es = int (bad_reads path check (ticks evs))"
  using assms
proof (induction evs f c rule: watch_loop.induct)
  case (3 v evs f c)
  obtain f1 c1 es1 where r: "reload f v c = Some (f1, c1, es1)" "watched path label f1 c1"
    "f_last f1 = last_good path check (f_last f) [v]"
    "metric_total TokenReloadFailures [label] es1 = int (bad_reads path check [v])"
    using reload_keeps [OF "3.prems"] by blast
  obtain f2 c2 es2 where w: "watch_loop evs f1 c1 = Some (f2, c2, es2)" "watched path label f2 c2"
    "f_last f2 = last_good path check (f_last f1) (ticks evs)"
    "metric_total TokenReloadFailures [label] es2 = int (bad_reads path check (ticks evs))"
    using "3.IH" [OF r(1) refl refl r(2)] by blast
  show ?case using r w by (simp add: last_good_def bad_reads_def)
qed (simp_all add: last_good_def bad_reads_def)

text \<open>
  A file that opened is watched without a panic. At every moment its user holds the tokens of the last read
  that passed, and the counter has counted the reads that did not.
\<close>

lemma watch_keeps:
  assumes "Open path label check ap v c = Some (Inr f, c1)"
  shows "\<exists>f' c' es. Watch evs f c1 = Some (f', c', es) \<and>
    holds c' (last_good path check (f_last f) (ticks evs)) \<and> load path check v = Inr (f_last f) \<and>
    metric_total TokenReloadFailures [label] es = int (bad_reads path check (ticks evs))"
proof -
  have o: "load path check v = Inr (f_last f)" "watched path label f c1" using open_cases [of path v label c] assms by auto
  then obtain f' c' es where w: "watch_loop evs f c1 = Some (f', c', es)" "watched path label f' c'"
    "f_last f' = last_good path check (f_last f) (ticks evs)"
    "metric_total TokenReloadFailures [label] es = int (bad_reads path check (ticks evs))"
    using watch_loop_keeps by blast
  then show ?thesis using o by (simp add: Watch_def watched_def)
qed

end

section \<open>Lemmas: parsing\<close>

text \<open>What a token looks like: nothing around it to trim, not empty, on one line, not a comment.\<close>

definition is_token :: "string \<Rightarrow> bool" where
  "is_token t \<longleftrightarrow> trimmed t \<and> t \<noteq> [] \<and> CHR 0x0A \<notin> set t \<and> \<not> has_prefix t ''#''"

definition print_tokens :: "string \<Rightarrow> string list \<Rightarrow> string" where
  "print_tokens eol ts = concat (map (\<lambda>t. t @ eol) ts)"

lemma line_token_Some: "line_token line = Some t \<Longrightarrow> CHR 0x0A \<notin> set line \<Longrightarrow> is_token t"
  using trim_space_trimmed set_trim_space [of line]
  by (auto simp: line_token_def is_token_def Let_def split: if_splits)

lemma map_filter_set: "x \<in> set (List.map_filter f xs) \<longleftrightarrow> (\<exists>y \<in> set xs. f y = Some x)"
  by (force simp: List.map_filter_def)

lemma map_filter_simps: "List.map_filter f [] = []" "List.map_filter f (x # xs) = (case f x of None \<Rightarrow> [] | Some y \<Rightarrow> [y]) @ List.map_filter f xs"
  by (simp_all add: List.map_filter_def split: option.splits)

lemma Parse_tokens: "t \<in> set (Parse data) \<Longrightarrow> is_token t"
  unfolding Parse_def map_filter_set using line_token_Some split_on_parts by blast

lemma CR_space_seq: "q \<in> set space_seqs \<Longrightarrow> CHR 0x0D \<in> set q \<Longrightarrow> q = [CHR 0x0D]"
  by (auto simp: space_seqs_def)

lemma trim_space_CR:
  assumes "trimmed t" and "t \<noteq> []"
  shows "trim_space (t @ [CHR 0x0D]) = t"
proof -
  have "\<not> prefix q (t @ [CHR 0x0D])" if "q \<in> set space_seqs" for q
  proof
    assume "prefix q (t @ [CHR 0x0D])"
    then have "prefix q t \<or> q = t @ [CHR 0x0D]" by auto
    then show False using assms CR_space_seq [OF that] that by (auto simp: trimmed_def strip_one_None)
  qed
  then have l: "trim_left (t @ [CHR 0x0D]) = t @ [CHR 0x0D]"
    unfolding trim_left_def by (intro trim_seqs_id) (simp add: strip_one_None)
  have "strip_one (map rev space_seqs) (CHR 0x0D # rev t) = Some (rev t)" by (simp add: space_seqs_def)
  then have "trim_seqs (map rev space_seqs) (CHR 0x0D # rev t) = trim_seqs (map rev space_seqs) (rev t)"
    by (simp add: trim_seqs.simps [of _ "CHR 0x0D # rev t"])
  also have "\<dots> = rev t" using assms(1) by (simp add: trimmed_def trim_seqs_id)
  finally show ?thesis by (simp add: trim_space_def trim_right_def l)
qed

lemma line_token_print:
  assumes "is_token t" and "cr = [] \<or> cr = [CHR 0x0D]"
  shows "line_token (t @ cr) = Some t"
  using assms trim_space_CR trim_space_id by (auto simp: line_token_def is_token_def)

lemma split_print:
  assumes "\<forall>t \<in> set ts. CHR 0x0A \<notin> set t" and "CHR 0x0A \<notin> set cr"
  shows "split_on CHR 0x0A (print_tokens (cr @ [CHR 0x0A]) ts) = map (\<lambda>t. t @ cr) ts @ [[]]"
  using assms
proof (induction ts)
  case (Cons t ts)
  have "split_on CHR 0x0A ((t @ cr) @ CHR 0x0A # print_tokens (cr @ [CHR 0x0A]) ts) =
      (t @ cr) # split_on CHR 0x0A (print_tokens (cr @ [CHR 0x0A]) ts)"
    by (rule split_on_append) (use Cons.prems in simp)
  then show ?case using Cons by (simp add: print_tokens_def)
qed (simp add: print_tokens_def)

lemma Parse_lines:
  assumes "list_all is_token ts" and "cr = [] \<or> cr = [CHR 0x0D]"
  shows "List.map_filter line_token (split_on CHR 0x0A (print_tokens (cr @ [CHR 0x0A]) ts)) = ts"
proof -
  have "List.map_filter line_token (map (\<lambda>t. t @ cr) ts @ [[]]) = ts"
    using assms(1)
    by (induction ts) (simp_all add: map_filter_simps line_token_print [OF _ assms(2)], simp add: line_token_def)
  moreover have "split_on CHR 0x0A (print_tokens (cr @ [CHR 0x0A]) ts) = map (\<lambda>t. t @ cr) ts @ [[]]"
    by (rule split_print) (use assms in \<open>auto simp: list_all_iff is_token_def\<close>)
  ultimately show ?thesis by simp
qed

section \<open>Properties\<close>

text \<open>
  C28: \<^verbatim>\<open>Parse\<close> inverts writing tokens one per line, with Unix or Windows line ends, with or without a byte order
  mark in front; and whatever the file holds, what \<^verbatim>\<open>Parse\<close> returns are tokens: trimmed, not empty, on one
  line, no comment. Without a mark in front, the first token must not itself begin with one.
\<close>

theorem parse_roundtrip:
  assumes "list_all is_token ts" and "eol = [CHR 0x0A] \<or> eol = [CHR 0x0D, CHR 0x0A]"
  shows "Parse (utf8BOM @ print_tokens eol ts) = ts \<and>
    (\<not> has_prefix (print_tokens eol ts) utf8BOM \<longrightarrow> Parse (print_tokens eol ts) = ts) \<and>
    list_all is_token (Parse data)"
proof (intro conjI impI)
  obtain cr where eol: "eol = cr @ [CHR 0x0A]" "cr = [] \<or> cr = [CHR 0x0D]" using assms(2) by auto
  note lines = Parse_lines [OF assms(1) eol(2), folded eol(1)]
  have "drop_prefix utf8BOM (utf8BOM @ print_tokens eol ts) = Some (print_tokens eol ts)" by (simp add: drop_prefix_Some)
  then show "Parse (utf8BOM @ print_tokens eol ts) = ts" by (simp add: Parse_def trim_prefix_def lines)
  show "Parse (print_tokens eol ts) = ts" if "\<not> has_prefix (print_tokens eol ts) utf8BOM"
    using that by (simp add: Parse_def trim_prefix_def has_prefix_def lines)
  show "list_all is_token (Parse data)" using Parse_tokens by (simp add: list_all_iff)
qed

theorem parse_roundtrip_witness:
  "Parse (print_tokens [CHR 0x0D, CHR 0x0A] [''s3cret'', ''next one'']) = [''s3cret'', ''next one''] \<and>
   list_all is_token (Parse ('' # comment'' @ [CHR 0x0A] @ ''  tok ''))"
proof -
  have ok: "list_all is_token [''s3cret'', ''next one'']"
    by (simp add: is_token_def trimmed_def space_seqs_def has_prefix_def)
  have bom: "\<not> has_prefix (print_tokens [CHR 0x0D, CHR 0x0A] [''s3cret'', ''next one'']) utf8BOM"
    by (simp add: has_prefix_def print_tokens_def utf8BOM_def)
  show ?thesis using parse_roundtrip [OF ok, of "[CHR 0x0D, CHR 0x0A]"] bom by simp
qed

end
