(* ===== verification/Auth.thy ===== *)
theory Auth
  imports Http "HOL-Library.Sublist"
begin

unbundle bit_operations_syntax

text \<open>
  The package \<^verbatim>\<open>internal/auth\<close> (\<^verbatim>\<open>bearer.go\<close>): the set of accepted bearer tokens, kept as hashes, and the
  middleware that checks a request's \<^verbatim>\<open>Authorization\<close> header against it.

  \<^verbatim>\<open>sha256.Sum256\<close> is the parameter \<open>sha\<close>. What the check relies on is stated where it is used: the presented
  token has not the same hash as another, accepted token.
\<close>

section \<open>The token set\<close>

definition bearerPrefix :: string where
  "bearerPrefix = ''Bearer ''"

text \<open>The pointer \<open>hashes\<close> is nil in the zero value.\<close>

record 'h TokenSet =
  hashes :: "'h list option"

definition zero_TokenSet :: "'h TokenSet" where
  "zero_TokenSet = \<lparr>hashes = None\<rparr>"

definition Store :: "(string \<Rightarrow> 'h) \<Rightarrow> string list \<Rightarrow> 'h TokenSet \<Rightarrow> 'h TokenSet" where
  "Store sha tokens s = s\<lparr>hashes := Some (map sha tokens)\<rparr>"

definition NewTokenSet :: "(string \<Rightarrow> 'h) \<Rightarrow> string list \<Rightarrow> 'h TokenSet" where
  "NewTokenSet sha tokens = Store sha tokens zero_TokenSet"

text \<open>\<^verbatim>\<open>subtle.ConstantTimeCompare\<close> of two hashes, which have the same length.\<close>

definition ConstantTimeCompare :: "'h \<Rightarrow> 'h \<Rightarrow> int" where
  "ConstantTimeCompare x y = (if x = y then 1 else 0)"

definition Matches :: "(string \<Rightarrow> 'h) \<Rightarrow> 'h TokenSet \<Rightarrow> string \<Rightarrow> bool" where
  "Matches sha s presented =
     (case hashes s of
        None \<Rightarrow> False
      | Some hs \<Rightarrow>
          (let got = sha presented in
           foldl (\<lambda>match want. match OR ConstantTimeCompare got want) 0 hs = 1))"

section \<open>The middleware\<close>

definition bearerToken :: "string \<Rightarrow> string option" where
  "bearerToken header =
     (if length header < length bearerPrefix \<or> \<not> equal_fold (take (length bearerPrefix) header) bearerPrefix
      then None else Some (drop (length bearerPrefix) header))"

definition unauthorized :: response where
  "unauthorized =
     http_error ''unauthorized'' 401
       [(''WWW-Authenticate'', ''Bearer realm='' @ CHR 0x22 # ''otherlode-collector'' @ [CHR 0x22])]"

text \<open>The state pairs the token set the request reads with what the next handler guards.\<close>

definition RequireBearerToken :: "(string \<Rightarrow> 'h) \<Rightarrow> 's http_handler \<Rightarrow> ('h TokenSet \<times> 's) http_handler" where
  "RequireBearerToken sha next_handler r s =
     (case s of (tokens, st) \<Rightarrow>
        (let reject = (Some unauthorized, [Inc AuthRejected []], (tokens, st)) in
         case bearerToken (header_get ''Authorization'' r) of
           None \<Rightarrow> reject
         | Some presented \<Rightarrow>
             (if \<not> Matches sha tokens presented then reject
              else (let (resp, es, st') = next_handler r st in (resp, es, (tokens, st'))))))"

section \<open>Lemmas\<close>

lemma compare_fold:
  assumes "m \<in> {0, 1}"
  shows "foldl (\<lambda>match want. match OR ConstantTimeCompare got want) m hs = (if m = 1 \<or> got \<in> set hs then 1 else 0)"
  using assms
proof (induction hs arbitrary: m)
  case (Cons h hs)
  have "m OR ConstantTimeCompare got h = (if m = 1 \<or> got = h then 1 else 0)"
    using Cons.prems by (auto simp: ConstantTimeCompare_def)
  then show ?case using Cons.IH [of "m OR ConstantTimeCompare got h"] by auto
qed auto

text \<open>The branch-free loop finds a hash exactly when it is in the set.\<close>

lemma Matches_set: "Matches sha s presented \<longleftrightarrow> (\<exists>hs. hashes s = Some hs \<and> sha presented \<in> set hs)"
  by (simp add: Matches_def compare_fold Let_def split: option.splits)

lemma Matches_NewTokenSet: "Matches sha (NewTokenSet sha tokens) presented \<longleftrightarrow> sha presented \<in> sha ` set tokens"
  by (simp add: Matches_set NewTokenSet_def Store_def)

lemma Store_NewTokenSet: "Store sha tokens s = NewTokenSet sha tokens"
  by (simp add: Store_def NewTokenSet_def zero_TokenSet_def)

lemma equal_fold_length: "equal_fold a b \<Longrightarrow> length a = length b"
  unfolding equal_fold_def by (metis length_map)

lemma bearerToken_Some:
  "bearerToken h = Some tok \<longleftrightarrow> (\<exists>scheme. h = scheme @ tok \<and> equal_fold scheme bearerPrefix)"
proof
  assume "bearerToken h = Some tok"
  then have "h = take (length bearerPrefix) h @ tok \<and> equal_fold (take (length bearerPrefix) h) bearerPrefix"
    by (auto simp: bearerToken_def split: if_splits)
  then show "\<exists>scheme. h = scheme @ tok \<and> equal_fold scheme bearerPrefix" by blast
next
  assume "\<exists>scheme. h = scheme @ tok \<and> equal_fold scheme bearerPrefix"
  then obtain scheme where "h = scheme @ tok" "equal_fold scheme bearerPrefix" by blast
  with equal_fold_length [OF this(2)] show "bearerToken h = Some tok" by (simp add: bearerToken_def)
qed

section \<open>The middleware is a guard\<close>

definition admits :: "(string \<Rightarrow> 'h) \<Rightarrow> 'h TokenSet \<Rightarrow> request \<Rightarrow> bool" where
  "admits sha tokens r = (case bearerToken (header_get ''Authorization'' r) of None \<Rightarrow> False | Some p \<Rightarrow> Matches sha tokens p)"

lemma RequireBearerToken_cases:
  "RequireBearerToken sha nxt r (tokens, st) =
     (if admits sha tokens r then (case nxt r st of (rs, es, st') \<Rightarrow> (rs, es, (tokens, st')))
      else (Some unauthorized, [Inc AuthRejected []], (tokens, st)))"
  by (simp add: RequireBearerToken_def admits_def Let_def split: option.split)

text \<open>The presented token does not collide under the hash with another, accepted token.\<close>

definition collision_free :: "(string \<Rightarrow> 'h) \<Rightarrow> string list \<Rightarrow> request \<Rightarrow> bool" where
  "collision_free sha accepted r \<longleftrightarrow>
     (\<forall>p tok. bearerToken (header_get ''Authorization'' r) = Some p \<longrightarrow> tok \<in> set accepted \<longrightarrow> sha p = sha tok \<longrightarrow> p = tok)"

lemma admits_exact:
  assumes "collision_free sha accepted r"
  shows "admits sha (NewTokenSet sha accepted) r \<longleftrightarrow>
    (\<exists>scheme tok. header_get ''Authorization'' r = scheme @ tok \<and> equal_fold scheme ''Bearer '' \<and> tok \<in> set accepted)"
proof -
  let ?h = "header_get ''Authorization'' r"
  have "admits sha (NewTokenSet sha accepted) r \<longleftrightarrow>
      (\<exists>p. bearerToken ?h = Some p \<and> sha p \<in> sha ` set accepted)"
    by (auto simp: admits_def Matches_NewTokenSet split: option.splits)
  also have "\<dots> \<longleftrightarrow> (\<exists>scheme tok. ?h = scheme @ tok \<and> equal_fold scheme ''Bearer '' \<and> tok \<in> set accepted)"
    using assms unfolding collision_free_def bearerToken_Some bearerPrefix_def by blast
  finally show ?thesis .
qed

lemma unauthorized_status [simp]: "resp_status unauthorized = 401"
  by (simp add: unauthorized_def)

interpretation bearer: http_guard "RequireBearerToken sha" 401 AuthRejected
proof unfold_locales
  fix r :: request and g :: "'a TokenSet"
  show "\<exists>ok g' resp. resp_status resp = 401 \<and>
    (\<forall>nxt st. RequireBearerToken sha nxt r (g, st) =
       (if ok then case nxt r st of (rs, es, st') \<Rightarrow> (rs, es, g', st') else (Some resp, [Inc AuthRejected []], g', st)))"
    by (intro exI [of _ "admits sha g r"] exI [of _ g] exI [of _ unauthorized]) (simp add: RequireBearerToken_cases)
qed

section \<open>Properties\<close>

definition demo_auth_request :: "string \<Rightarrow> request" where
  "demo_auth_request value =
     \<lparr>req_method = ''POST'', req_path = ''/v1/otherlode/delta'', req_headers = [(''authorization'', value)],
      req_remote = ''10.0.0.1:5000'', req_data = [], req_fails = False\<rparr>"

text \<open>
  C23: a request reaches the next handler exactly when its \<^verbatim>\<open>Authorization\<close> header is the Bearer scheme, in any
  letter case, followed by one of the accepted tokens, byte for byte. Any other request is answered 401 with
  the challenge header, counted once, and changes nothing. The hypothesis is that the presented token does not
  collide under the hash with another, accepted token. With no token accepted, nothing passes.
\<close>

theorem bearer_exact:
  assumes "collision_free sha accepted r"
  shows "RequireBearerToken sha nxt r (NewTokenSet sha accepted, st) =
    (if \<exists>scheme tok. header_get ''Authorization'' r = scheme @ tok \<and> equal_fold scheme ''Bearer '' \<and> tok \<in> set accepted
     then (case nxt r st of (resp, es, st') \<Rightarrow> (resp, es, (NewTokenSet sha accepted, st')))
     else (Some unauthorized, [Inc AuthRejected []], (NewTokenSet sha accepted, st)))"
  using admits_exact [OF assms] by (simp only: RequireBearerToken_cases)

theorem bearer_exact_witness:
  "RequireBearerToken id (\<lambda>r n. (None, [], n + (1 :: nat))) (demo_auth_request ''bEARER s3cret'') (NewTokenSet id [''old'', ''s3cret''], 0) =
     (None, [], (NewTokenSet id [''old'', ''s3cret''], 1)) \<and>
   RequireBearerToken id (\<lambda>r n. (None, [], n + (1 :: nat))) (demo_auth_request ''Bearer s3cre'') (NewTokenSet id [''old'', ''s3cret''], 0) =
     (Some unauthorized, [Inc AuthRejected []], (NewTokenSet id [''old'', ''s3cret''], 0))"
proof
  have h: "header_get ''Authorization'' (demo_auth_request v) = v" for v
  proof -
    have "equal_fold ''authorization'' ''Authorization''" by code_simp
    then show ?thesis by (simp add: header_get_def header_values_def demo_auth_request_def)
  qed
  have fold: "equal_fold ''bEARER '' ''Bearer ''" by code_simp
  have "\<exists>scheme tok. ''bEARER s3cret'' = scheme @ tok \<and> equal_fold scheme ''Bearer '' \<and> tok \<in> set [''old'', ''s3cret'']"
    by (rule exI [of _ "''bEARER ''"], rule exI [of _ "''s3cret''"]) (simp add: fold)
  then show "RequireBearerToken id (\<lambda>r n. (None, [], n + (1 :: nat))) (demo_auth_request ''bEARER s3cret'') (NewTokenSet id [''old'', ''s3cret''], 0) =
     (None, [], (NewTokenSet id [''old'', ''s3cret''], 1))"
    by (subst bearer_exact) (simp_all add: h collision_free_def)
  have "\<not> (\<exists>scheme tok. ''Bearer s3cre'' = scheme @ tok \<and> equal_fold scheme ''Bearer '' \<and> tok \<in> set [''old'', ''s3cret''])"
  proof (intro notI, elim exE conjE)
    fix scheme tok assume a: "''Bearer s3cre'' = scheme @ tok" "equal_fold scheme ''Bearer ''" "tok \<in> set [''old'', ''s3cret'']"
    have "length tok = 5" using arg_cong [OF a(1), of length] equal_fold_length [OF a(2)] by simp
    then show False using a(3) by auto
  qed
  then show "RequireBearerToken id (\<lambda>r n. (None, [], n + (1 :: nat))) (demo_auth_request ''Bearer s3cre'') (NewTokenSet id [''old'', ''s3cret''], 0) =
     (Some unauthorized, [Inc AuthRejected []], (NewTokenSet id [''old'', ''s3cret''], 0))"
    by (subst bearer_exact) (simp_all add: h collision_free_def)
qed

end
