(* ===== verification/Processor.thy ===== *)
theory Processor
  imports Ingest
begin

text \<open>
  The package \<^verbatim>\<open>internal/processor\<close> (\<^verbatim>\<open>environment.go\<close>, \<^verbatim>\<open>namespace.go\<close>, \<^verbatim>\<open>redaction.go\<close>): three sinks
  that change a payload and pass it to the next sink.

  \<open>NewEnvironment\<close>, \<open>NewNamespace\<close> and \<open>NewRedaction\<close> turn a sink into a sink. A compiled regular
  expression is its \<^verbatim>\<open>MatchString\<close> predicate. The lemmas show what each processor writes, that it
  leaves everything else alone, and that it keeps the sink contract of the sink it wraps.
\<close>

section \<open>Actions\<close>

datatype action = Insert | Upsert

text \<open>
  \<^verbatim>\<open>strings.ToLower\<close>, as far as an ASCII result can show: ASCII letters, and the two runes outside
  ASCII whose lower case is an ASCII letter (U+0130 gives \<^verbatim>\<open>i\<close>, U+212A gives \<^verbatim>\<open>k\<close>). Every other rune
  has a lower case outside ASCII, and is left as it is.
\<close>

fun to_lower :: "string \<Rightarrow> string" where
  "to_lower [] = []"
| "to_lower (a # b # c # s) =
     (if a = CHR 0xC4 \<and> b = CHR 0xB0 then CHR ''i'' # to_lower (c # s)
      else if a = CHR 0xE2 \<and> b = CHR 0x84 \<and> c = CHR 0xAA then CHR ''k'' # to_lower s
      else lower_char a # to_lower (b # c # s))"
| "to_lower [a, b] =
     (if a = CHR 0xC4 \<and> b = CHR 0xB0 then [CHR ''i''] else [lower_char a, lower_char b])"
| "to_lower [a] = [lower_char a]"

datatype action_error = InvalidAction string

definition ParseAction :: "string \<Rightarrow> action_error + action" where
  "ParseAction raw =
     (let low = to_lower raw in
      if low = [] \<or> low = ''insert'' then Inr Insert
      else if low = ''upsert'' then Inr Upsert
      else Inl (InvalidAction raw))"

definition action_String :: "action \<Rightarrow> string" where
  "action_String a = (if a = Upsert then ''upsert'' else ''insert'')"

section \<open>Environment\<close>

record env_config =
  ec_value :: string
  ec_action :: action

text \<open>\<^verbatim>\<open>(*Environment).stamp\<close> on the resource it is given; nil is left alone.\<close>

definition env_stamp :: "env_config \<Rightarrow> string \<Rightarrow> pbmsg \<Rightarrow> pbmsg \<times> effect list" where
  "env_stamp cfg payload res =
     (let agentEnv = GetEnvironment (Some res) in
      if agentEnv = [] then (set_str ''environment'' (ec_value cfg) res, [])
      else if agentEnv = ec_value cfg then (res, [])
      else
        ((if ec_action cfg = Upsert then set_str ''environment'' (ec_value cfg) res else res),
         [Inc EnvironmentMismatch [payload],
          LogLine LDebug (''agent environment does not match the collector'' @ [CHR 0x27] @ ''s configured environment'')
            [(''namespace'', LStr (GetServiceNamespace (Some res))),
             (''service'', LStr (GetServiceName (Some res))),
             (''instance'', LStr (GetServiceInstanceId (Some res))),
             (''run'', LStr (GetRunId (Some res))),
             (''payload'', LStr payload),
             (''agent_environment'', LStr agentEnv),
             (''collector_environment'', LStr (ec_value cfg)),
             (''action'', LStr (action_String (ec_action cfg)))]]))"

text \<open>A stamp applied to the resource a payload holds.\<close>

definition stamp_payload :: "(pbmsg \<Rightarrow> pbmsg \<times> effect list) \<Rightarrow> pbmsg \<Rightarrow> pbmsg \<times> effect list" where
  "stamp_payload stamp m =
     (case GetResource m of
        None \<Rightarrow> (m, [])
      | Some res \<Rightarrow> (with_resource (\<lambda>r. fst (stamp r)) m, snd (stamp res)))"

text \<open>Passing a changed payload on to the next sink's method.\<close>

definition pass_on :: "pbmsg \<times> effect list \<Rightarrow> (pbmsg \<Rightarrow> 's \<Rightarrow> 's accepting) \<Rightarrow> 's \<Rightarrow> 's accepting" where
  "pass_on processed accept st =
     (let (m, es) = processed; (e, es', st') = accept m st in (e, es @ es', st'))"

definition NewEnvironment :: "'s sink \<Rightarrow> env_config \<Rightarrow> 's sink" where
  "NewEnvironment next cfg =
     \<lparr>AcceptDeltaBatch = (\<lambda>batch st.
        pass_on (stamp_payload (env_stamp cfg ''deltas'') batch) (AcceptDeltaBatch next) st),
      AcceptManifest = (\<lambda>manifest st.
        pass_on (stamp_payload (env_stamp cfg ''manifest'') manifest) (AcceptManifest next) st),
      AcceptStaticBaseline = (\<lambda>baseline st.
        pass_on (stamp_payload (env_stamp cfg ''static_baseline'') baseline) (AcceptStaticBaseline next) st)\<rparr>"

section \<open>Namespace\<close>

record ns_config =
  nc_value :: string
  nc_action :: action

definition ns_stamp :: "ns_config \<Rightarrow> string \<Rightarrow> pbmsg \<Rightarrow> pbmsg \<times> effect list" where
  "ns_stamp cfg payload res =
     (let agentNamespace = GetServiceNamespace (Some res);
          agent = trim_space agentNamespace;
          collector = trim_space (nc_value cfg)
      in
      if agent = [] then (set_str ''service_namespace'' collector res, [])
      else if agent = collector then (res, [])
      else
        ((if nc_action cfg = Upsert then set_str ''service_namespace'' collector res else res),
         [Inc NamespaceMismatch [payload],
          LogLine LDebug (''agent namespace does not match the collector'' @ [CHR 0x27] @ ''s configured namespace'')
            [(''service'', LStr (GetServiceName (Some res))),
             (''instance'', LStr (GetServiceInstanceId (Some res))),
             (''run'', LStr (GetRunId (Some res))),
             (''payload'', LStr payload),
             (''agent_namespace'', LStr agentNamespace),
             (''collector_namespace'', LStr collector),
             (''action'', LStr (action_String (nc_action cfg)))]]))"

definition NewNamespace :: "'s sink \<Rightarrow> ns_config \<Rightarrow> 's sink" where
  "NewNamespace next cfg =
     \<lparr>AcceptDeltaBatch = (\<lambda>batch st.
        pass_on (stamp_payload (ns_stamp cfg ''deltas'') batch) (AcceptDeltaBatch next) st),
      AcceptManifest = (\<lambda>manifest st.
        pass_on (stamp_payload (ns_stamp cfg ''manifest'') manifest) (AcceptManifest next) st),
      AcceptStaticBaseline = (\<lambda>baseline st.
        pass_on (stamp_payload (ns_stamp cfg ''static_baseline'') baseline) (AcceptStaticBaseline next) st)\<rparr>"

section \<open>Redaction\<close>

definition RedactedText :: string where
  "RedactedText = [CHR 0xE2, CHR 0x80, CHR 0xA6]"

record redaction_config =
  rc_blocked :: "(string \<Rightarrow> bool) list"
  rc_all :: bool

definition redaction_Enabled :: "redaction_config \<Rightarrow> bool" where
  "redaction_Enabled c \<longleftrightarrow> rc_all c \<or> length (rc_blocked c) > 0"

definition blocks :: "redaction_config \<Rightarrow> string \<Rightarrow> bool" where
  "blocks cfg text \<longleftrightarrow> rc_all cfg \<or> list_ex (\<lambda>re. re text) (rc_blocked cfg)"

definition GetKind :: "pbmsg \<Rightarrow> part_kind" where
  "GetKind p = get_kind ''kind'' (Some p)"

definition GetText :: "pbmsg \<Rightarrow> string" where
  "GetText p = get_str ''text'' (Some p)"

text \<open>One turn of the loop of \<^verbatim>\<open>redactParts\<close>: the part, and 1 when its text was replaced.\<close>

definition redact_part :: "redaction_config \<Rightarrow> pbmsg \<Rightarrow> pbmsg \<times> nat" where
  "redact_part cfg p =
     (if GetKind p = CODE \<or> GetKind p = PLACEHOLDER then (p, 0)
      else if blocks cfg (GetText p) then (set_str ''text'' RedactedText p, 1)
      else (p, 0))"

definition redactParts :: "redaction_config \<Rightarrow> string \<Rightarrow> pbmsg \<Rightarrow> pbmsg \<times> nat" where
  "redactParts cfg f m = upd_msgs f (redact_part cfg) m"

text \<open>One turn of the loop of \<^verbatim>\<open>redactSites\<close>: the condition, then every outcome's case label.\<close>

definition redact_site :: "redaction_config \<Rightarrow> pbmsg \<Rightarrow> pbmsg \<times> nat" where
  "redact_site cfg site =
     (let (site1, n1) = redactParts cfg ''condition'' site;
          (site2, n2) = upd_msgs ''outcomes'' (redactParts cfg ''case_label'') site1
      in (site2, n1 + n2))"

definition redactSites :: "redaction_config \<Rightarrow> pbmsg \<Rightarrow> pbmsg \<times> nat" where
  "redactSites cfg m = upd_msgs ''branch_sites'' (redact_site cfg) m"

definition record_redacted :: "pbmsg option \<Rightarrow> string \<Rightarrow> nat \<Rightarrow> effect list" where
  "record_redacted res payload n =
     (if n = 0 then []
      else
        [Metric RedactedLiterals (int n) [payload],
         LogLine LDebug ''redacted string literals''
           [(''namespace'', LStr (GetServiceNamespace res)),
            (''service'', LStr (GetServiceName res)),
            (''instance'', LStr (GetServiceInstanceId res)),
            (''run'', LStr (GetRunId res)),
            (''payload'', LStr payload),
            (''redacted'', LInt (int n))]])"

text \<open>
  \<^verbatim>\<open>dropUnknown\<close> clears the unknown fields of a message and of every message in it, through
  singular, list and map fields.
\<close>

fun dropUnknown :: "pbmsg \<Rightarrow> pbmsg" and drop_value :: "pbvalue \<Rightarrow> pbvalue" where
  "dropUnknown (PbMsg fs u) = PbMsg (map (\<lambda>(n, v). (n, drop_value v)) fs) []"
| "drop_value (VMsgMap kvs) = VMsgMap (map (\<lambda>(k, m). (k, dropUnknown m)) kvs)"
| "drop_value (VScalarMap kvs) = VScalarMap kvs"
| "drop_value (VMsgs ms) = VMsgs (map dropUnknown ms)"
| "drop_value (VScalars ss) = VScalars ss"
| "drop_value (VMsg m) = VMsg (dropUnknown m)"
| "drop_value (VScalar s) = VScalar s"

definition redact_manifest :: "redaction_config \<Rightarrow> pbmsg \<Rightarrow> pbmsg \<times> effect list" where
  "redact_manifest cfg manifest =
     (let (m, n) = upd_msgs ''probes'' (redactSites cfg) manifest
      in (dropUnknown m, record_redacted (GetResource m) ''manifest'' n))"

definition redact_baseline :: "redaction_config \<Rightarrow> pbmsg \<Rightarrow> pbmsg \<times> effect list" where
  "redact_baseline cfg baseline =
     (let (m, n) = upd_msgs ''declared_classes'' (upd_msgs ''methods'' (redactSites cfg)) baseline
      in (dropUnknown m, record_redacted (GetResource m) ''static_baseline'' n))"

definition NewRedaction :: "'s sink \<Rightarrow> redaction_config \<Rightarrow> 's sink" where
  "NewRedaction next cfg =
     \<lparr>AcceptDeltaBatch = (\<lambda>batch st. pass_on (dropUnknown batch, []) (AcceptDeltaBatch next) st),
      AcceptManifest = (\<lambda>manifest st. pass_on (redact_manifest cfg manifest) (AcceptManifest next) st),
      AcceptStaticBaseline = (\<lambda>baseline st.
        pass_on (redact_baseline cfg baseline) (AcceptStaticBaseline next) st)\<rparr>"

section \<open>Lemmas: dropping unknown fields\<close>

fun no_unknown :: "pbmsg \<Rightarrow> bool" and no_unknown_value :: "pbvalue \<Rightarrow> bool" where
  "no_unknown (PbMsg fs u) \<longleftrightarrow> u = [] \<and> list_all (\<lambda>(n, v). no_unknown_value v) fs"
| "no_unknown_value (VMsgMap kvs) \<longleftrightarrow> list_all (\<lambda>(k, m). no_unknown m) kvs"
| "no_unknown_value (VScalarMap kvs) \<longleftrightarrow> True"
| "no_unknown_value (VMsgs ms) \<longleftrightarrow> list_all no_unknown ms"
| "no_unknown_value (VScalars ss) \<longleftrightarrow> True"
| "no_unknown_value (VMsg m) \<longleftrightarrow> no_unknown m"
| "no_unknown_value (VScalar s) \<longleftrightarrow> True"

lemma no_unknown_drop: "no_unknown (dropUnknown m)" "no_unknown_value (drop_value v)"
  by (induction m and v rule: dropUnknown_drop_value.induct) (auto simp: list_all_iff)

lemma drop_id: "no_unknown m \<Longrightarrow> dropUnknown m = m" "no_unknown_value v \<Longrightarrow> drop_value v = v"
  by (induction m and v rule: dropUnknown_drop_value.induct)
    (auto simp: list_all_iff intro!: map_idI)

lemma field_drop: "field f (dropUnknown m) = map_option drop_value (field f m)"
proof -
  have "map_of (map (\<lambda>(n, v). (n, drop_value v)) fs) f = map_option drop_value (map_of fs f)" for fs
    by (induction fs) auto
  then show ?thesis by (cases m) (simp add: field_def)
qed

lemma drop_value_cases:
  "(drop_value v = VScalar s) = (v = VScalar s)"
  "(drop_value v = VMsg m) = (\<exists>m'. v = VMsg m' \<and> m = dropUnknown m')"
  by (cases v; auto)+

lemma getters_drop [simp]:
  "get_str f (Some (dropUnknown m)) = get_str f (Some m)"
  "get_int f (Some (dropUnknown m)) = get_int f (Some m)"
  "get_bool f (Some (dropUnknown m)) = get_bool f (Some m)"
  "get_kind f (Some (dropUnknown m)) = get_kind f (Some m)"
  "get_msg f (dropUnknown m) = map_option dropUnknown (get_msg f m)"
  "get_msgs f (dropUnknown m) = map dropUnknown (get_msgs f m)"
  by (auto simp: get_str_def get_int_def get_bool_def get_kind_def get_msg_def get_msgs_def field_drop
      split: option.splits pbvalue.splits pbscalar.splits)

section \<open>Lemmas: stamping\<close>

lemma stamp_payload_fields:
  "GetResource (fst (stamp_payload stamp m)) = map_option (\<lambda>r. fst (stamp r)) (GetResource m)"
  "k \<noteq> ''resource'' \<Longrightarrow> field k (fst (stamp_payload stamp m)) = field k m"
  by (auto simp: stamp_payload_def GetResource_with_resource field_with_resource split: option.splits)

lemma get_int_stamp:
  "k \<noteq> ''resource'' \<Longrightarrow> get_int k (Some (fst (stamp_payload stamp m))) = get_int k (Some m)"
  by (simp add: get_int_def stamp_payload_fields)

text \<open>A stamp that keeps the resource valid keeps the payload valid.\<close>

lemma stamp_payload_valid:
  assumes "validator_of p m = None"
    and "\<And>r. validateResource (Some r) = None \<Longrightarrow> validateResource (Some (fst (stamp r))) = None"
  shows "validator_of p (fst (stamp_payload stamp m)) = None"
proof (rule validator_cong [OF assms(1)])
  show "validateResource (GetResource (fst (stamp_payload stamp m))) = None"
    using validator_resource [OF assms(1)] assms(2)
    by (cases "GetResource m") (auto simp: stamp_payload_fields)
qed (auto simp: get_int_stamp)

lemma env_stamp_getters:
  "k \<noteq> ''environment'' \<Longrightarrow> field k (fst (env_stamp cfg l r)) = field k r"
  by (simp add: env_stamp_def Let_def set_str_def)

lemma ns_stamp_getters:
  "k \<noteq> ''service_namespace'' \<Longrightarrow> field k (fst (ns_stamp cfg l r)) = field k r"
  by (simp add: ns_stamp_def Let_def set_str_def)

lemma get_str_cong: "field k m = field k m' \<Longrightarrow> get_str k (Some m) = get_str k (Some m')"
  by (simp add: get_str_def)

lemma env_stamp_environment:
  "GetEnvironment (Some (fst (env_stamp cfg l r))) =
     (if GetEnvironment (Some r) = [] \<or> ec_action cfg = Upsert then ec_value cfg
      else GetEnvironment (Some r))"
  by (simp add: env_stamp_def Let_def GetEnvironment_def)

lemma ns_stamp_namespace:
  "trim_space (GetServiceNamespace (Some (fst (ns_stamp cfg l r)))) =
     (if trim_space (GetServiceNamespace (Some r)) = [] \<or> nc_action cfg = Upsert then trim_space (nc_value cfg)
      else trim_space (GetServiceNamespace (Some r)))"
  by (simp add: ns_stamp_def Let_def GetServiceNamespace_def)

lemma env_stamp_valid:
  "validateResource (Some r) = None \<Longrightarrow> validateResource (Some (fst (env_stamp cfg l r))) = None"
  by (simp add: validateResource_None resource_getters get_str_cong [OF env_stamp_getters])

lemma ns_stamp_valid:
  assumes "validateResource (Some r) = None" and "\<not> isDotSegment (trim_space (nc_value cfg))"
  shows "validateResource (Some (fst (ns_stamp cfg l r))) = None"
proof -
  have "\<not> isDotSegment (trim_space (GetServiceNamespace (Some (fst (ns_stamp cfg l r)))))"
    using assms by (simp add: ns_stamp_namespace validateResource_None)
  with assms(1) show ?thesis
    by (simp add: validateResource_None GetServiceName_def GetServiceInstanceId_def GetRunId_def
        get_str_cong [OF ns_stamp_getters])
qed

section \<open>Processors keep the contract\<close>

lemma pass_on_split:
  "pass_on pr acc st = (e, es, st') \<Longrightarrow> \<exists>es'. acc (fst pr) st = (e, es', st') \<and> es = snd pr @ es'"
  by (cases pr; cases "acc (fst pr) st") (auto simp: pass_on_def)

text \<open>
  A processor in front of a sink: it keeps a valid payload valid, and its own counter updates are
  well formed and leave the ingest counters alone. The wrapped sink then keeps the contract of the
  sink it wraps.
\<close>

locale processor_contract = sink_contract nxt I for nxt :: "'s sink" and I :: "'s \<Rightarrow> bool" +
  fixes proc :: "payload \<Rightarrow> pbmsg \<Rightarrow> pbmsg \<times> effect list" and wrapped :: "'s sink"
  assumes wrapped_accept: "accept_of wrapped p m st = pass_on (proc p m) (accept_of nxt p) st"
    and proc_valid: "validator_of p m = None \<Longrightarrow> validator_of p (fst (proc p m)) = None"
    and proc_effects: "effects_ok (snd (proc p m)) \<and> ingest_events (snd (proc p m)) = 0"
begin

lemma wrapped_contract: "sink_contract wrapped I"
proof
  fix st p m e es st'
  assume i: "I st" and v: "validator_of p m = None" and a: "accept_of wrapped p m st = (e, es, st')"
  obtain es' where acc: "accept_of nxt p (fst (proc p m)) st = (e, es', st')"
    and es: "es = snd (proc p m) @ es'"
    using pass_on_split [OF a [unfolded wrapped_accept]] by blast
  show "I st'" by (rule accept_inv [OF i proc_valid [OF v] acc])
  show "effects_ok es \<and> ingest_events es = 0"
    using accept_effects [OF i proc_valid [OF v] acc] proc_effects [of p m] by (simp add: es)
qed

end

text \<open>The label a processor counts under, for each payload.\<close>

fun proc_label :: "payload \<Rightarrow> string" where
  "proc_label DeltaBatch = ''deltas''"
| "proc_label Manifest = ''manifest''"
| "proc_label StaticBaseline = ''static_baseline''"

lemma stamp_effects_ok:
  "effects_ok (snd (stamp_payload (env_stamp cfg (proc_label p)) m)) \<and>
   ingest_events (snd (stamp_payload (env_stamp cfg (proc_label p)) m)) = 0"
  "effects_ok (snd (stamp_payload (ns_stamp cfg' (proc_label p)) m)) \<and>
   ingest_events (snd (stamp_payload (ns_stamp cfg' (proc_label p)) m)) = 0"
  by (cases p; auto simp: stamp_payload_def env_stamp_def ns_stamp_def Let_def NUL_def split: option.splits)+

lemma NewEnvironment_contract:
  assumes "sink_contract nxt I"
  shows "sink_contract (NewEnvironment nxt cfg) I"
proof -
  have "processor_contract nxt I (\<lambda>p. stamp_payload (env_stamp cfg (proc_label p))) (NewEnvironment nxt cfg)"
  proof (intro processor_contract.intro assms processor_contract_axioms.intro stamp_effects_ok)
    fix p m st
    show "accept_of (NewEnvironment nxt cfg) p m st =
          pass_on (stamp_payload (env_stamp cfg (proc_label p)) m) (accept_of nxt p) st"
      by (cases p) (simp_all add: NewEnvironment_def)
    show "validator_of p m = None \<Longrightarrow> validator_of p (fst (stamp_payload (env_stamp cfg (proc_label p)) m)) = None"
      by (rule stamp_payload_valid) (simp_all add: env_stamp_valid)
  qed
  then show ?thesis by (rule processor_contract.wrapped_contract)
qed

lemma NewNamespace_contract:
  assumes "sink_contract nxt I" and "\<not> isDotSegment (trim_space (nc_value cfg))"
  shows "sink_contract (NewNamespace nxt cfg) I"
proof -
  have "processor_contract nxt I (\<lambda>p. stamp_payload (ns_stamp cfg (proc_label p))) (NewNamespace nxt cfg)"
  proof (intro processor_contract.intro assms processor_contract_axioms.intro stamp_effects_ok)
    fix p m st
    show "accept_of (NewNamespace nxt cfg) p m st =
          pass_on (stamp_payload (ns_stamp cfg (proc_label p)) m) (accept_of nxt p) st"
      by (cases p) (simp_all add: NewNamespace_def)
    show "validator_of p m = None \<Longrightarrow> validator_of p (fst (stamp_payload (ns_stamp cfg (proc_label p)) m)) = None"
      by (rule stamp_payload_valid) (simp_all add: ns_stamp_valid assms)
  qed
  then show ?thesis by (rule processor_contract.wrapped_contract)
qed

section \<open>Lemmas: redaction\<close>

text \<open>The condition parts of a branch site, of a manifest and of a static baseline, in order.\<close>

definition site_parts :: "pbmsg \<Rightarrow> pbmsg list" where
  "site_parts site =
     get_msgs ''condition'' site @ concat (map (get_msgs ''case_label'') (get_msgs ''outcomes'' site))"

definition sites_parts :: "pbmsg \<Rightarrow> pbmsg list" where
  "sites_parts m = concat (map site_parts (get_msgs ''branch_sites'' m))"

definition manifest_parts :: "pbmsg \<Rightarrow> pbmsg list" where
  "manifest_parts m = concat (map sites_parts (get_msgs ''probes'' m))"

definition baseline_parts :: "pbmsg \<Rightarrow> pbmsg list" where
  "baseline_parts m =
     concat (map (\<lambda>c. concat (map sites_parts (get_msgs ''methods'' c))) (get_msgs ''declared_classes'' m))"

definition is_literal :: "pbmsg \<Rightarrow> bool" where
  "is_literal p \<longleftrightarrow> GetKind p \<noteq> CODE \<and> GetKind p \<noteq> PLACEHOLDER"

lemma redact_part_alt:
  "redact_part cfg p =
     (if is_literal p \<and> blocks cfg (GetText p) then (set_str ''text'' RedactedText p, 1) else (p, 0))"
  by (simp add: redact_part_def is_literal_def)

lemma kind_text_set [simp]:
  "GetKind (set_str ''text'' s p) = GetKind p" "GetText (set_str ''text'' s p) = s"
  "is_literal (set_str ''text'' s p) = is_literal p"
  by (simp_all add: is_literal_def GetKind_def GetText_def get_kind_def set_str_def get_str_def)

lemma redact_site_parts:
  "site_parts (fst (redact_site cfg s)) = map (\<lambda>p. fst (redact_part cfg p)) (site_parts s)"
  by (simp add: redact_site_def site_parts_def redactParts_def split_beta Let_def get_msgs_upd_msgs
      map_concat comp_def)

lemma redact_site_count:
  "snd (redact_site cfg s) = sum_list (map (\<lambda>p. snd (redact_part cfg p)) (site_parts s))"
  by (simp add: redact_site_def site_parts_def redactParts_def split_beta Let_def snd_upd_msgs
      get_msgs_upd_msgs map_concat comp_def sum_list_concat)

lemma redactSites_parts:
  "sites_parts (fst (redactSites cfg m)) = map (\<lambda>p. fst (redact_part cfg p)) (sites_parts m)"
  "snd (redactSites cfg m) = sum_list (map (\<lambda>p. snd (redact_part cfg p)) (sites_parts m))"
  by (simp_all add: redactSites_def sites_parts_def get_msgs_upd_msgs snd_upd_msgs redact_site_parts
      redact_site_count map_concat comp_def sum_list_concat)

lemma sum_redact_part:
  "sum_list (map (\<lambda>p. snd (redact_part cfg p)) ps) =
     length (filter (\<lambda>p. is_literal p \<and> blocks cfg (GetText p)) ps)"
  by (induction ps) (auto simp: redact_part_alt)

lemma parts_drop:
  "site_parts (dropUnknown m) = map dropUnknown (site_parts m)"
  "sites_parts (dropUnknown m) = map dropUnknown (sites_parts m)"
  "manifest_parts (dropUnknown m) = map dropUnknown (manifest_parts m)"
  "baseline_parts (dropUnknown m) = map dropUnknown (baseline_parts m)"
proof -
  show 1: "site_parts (dropUnknown m) = map dropUnknown (site_parts m)" for m
    by (simp add: site_parts_def map_concat comp_def)
  show 2: "sites_parts (dropUnknown m) = map dropUnknown (sites_parts m)" for m
    by (simp add: sites_parts_def map_concat comp_def 1)
  show "manifest_parts (dropUnknown m) = map dropUnknown (manifest_parts m)"
    by (simp add: manifest_parts_def map_concat comp_def 2)
  show "baseline_parts (dropUnknown m) = map dropUnknown (baseline_parts m)"
    by (simp add: baseline_parts_def map_concat comp_def 2)
qed

lemma redact_manifest_parts:
  "manifest_parts (fst (redact_manifest cfg m)) =
     map (\<lambda>p. dropUnknown (fst (redact_part cfg p))) (manifest_parts m)"
  by (simp add: redact_manifest_def split_beta Let_def parts_drop)
    (simp add: manifest_parts_def get_msgs_upd_msgs redactSites_parts map_concat comp_def)

lemma redact_baseline_parts:
  "baseline_parts (fst (redact_baseline cfg m)) =
     map (\<lambda>p. dropUnknown (fst (redact_part cfg p))) (baseline_parts m)"
  by (simp add: redact_baseline_def split_beta Let_def parts_drop)
    (simp add: baseline_parts_def get_msgs_upd_msgs redactSites_parts map_concat comp_def)

lemma redact_manifest_count:
  "snd (upd_msgs ''probes'' (redactSites cfg) m) =
     length (filter (\<lambda>p. is_literal p \<and> blocks cfg (GetText p)) (manifest_parts m))"
  by (simp add: snd_upd_msgs redactSites_parts manifest_parts_def sum_redact_part [symmetric] map_concat
      comp_def sum_list_concat)

lemma redact_baseline_count:
  "snd (upd_msgs ''declared_classes'' (upd_msgs ''methods'' (redactSites cfg)) m) =
     length (filter (\<lambda>p. is_literal p \<and> blocks cfg (GetText p)) (baseline_parts m))"
  by (simp add: snd_upd_msgs redactSites_parts baseline_parts_def sum_redact_part [symmetric] map_concat
      comp_def sum_list_concat)

text \<open>
  Replacing every literal the configuration blocks by another text. Redaction does not see the
  difference as long as the new text is blocked too.
\<close>

definition swap_part :: "redaction_config \<Rightarrow> (string \<Rightarrow> string) \<Rightarrow> pbmsg \<Rightarrow> pbmsg \<times> nat" where
  "swap_part cfg h p =
     (if is_literal p \<and> blocks cfg (GetText p) then (set_str ''text'' (h (GetText p)) p, 0) else (p, 0))"

definition swap_site :: "redaction_config \<Rightarrow> (string \<Rightarrow> string) \<Rightarrow> pbmsg \<Rightarrow> pbmsg \<times> nat" where
  "swap_site cfg h s =
     upd_msgs ''outcomes'' (upd_msgs ''case_label'' (swap_part cfg h))
       (fst (upd_msgs ''condition'' (swap_part cfg h) s))"

definition swap_manifest :: "redaction_config \<Rightarrow> (string \<Rightarrow> string) \<Rightarrow> pbmsg \<Rightarrow> pbmsg" where
  "swap_manifest cfg h m = fst (upd_msgs ''probes'' (upd_msgs ''branch_sites'' (swap_site cfg h)) m)"

definition swap_baseline :: "redaction_config \<Rightarrow> (string \<Rightarrow> string) \<Rightarrow> pbmsg \<Rightarrow> pbmsg" where
  "swap_baseline cfg h m =
     fst (upd_msgs ''declared_classes'' (upd_msgs ''methods'' (upd_msgs ''branch_sites'' (swap_site cfg h))) m)"

lemma redact_swap_part:
  "\<forall>t. blocks cfg t \<longrightarrow> blocks cfg (h t) \<Longrightarrow> redact_part cfg (fst (swap_part cfg h p)) = redact_part cfg p"
  by (simp add: redact_part_alt swap_part_def) (simp add: set_str_def)

lemma redact_swap_parts:
  "\<forall>t. blocks cfg t \<longrightarrow> blocks cfg (h t) \<Longrightarrow>
   redactParts cfg f (fst (upd_msgs f (swap_part cfg h) m)) = redactParts cfg f m"
  by (simp add: redactParts_def upd_msgs_upd_msgs redact_swap_part)

lemma redact_swap_site:
  assumes "\<forall>t. blocks cfg t \<longrightarrow> blocks cfg (h t)"
  shows "redact_site cfg (fst (swap_site cfg h s)) = redact_site cfg s"
proof -
  let ?c = "fst (upd_msgs ''condition'' (swap_part cfg h) s)"
  let ?o = "upd_msgs ''case_label'' (swap_part cfg h)"
  have cond: "fst (redactParts cfg ''condition'' (fst (upd_msgs ''outcomes'' ?o ?c))) =
      fst (upd_msgs ''outcomes'' ?o (fst (redactParts cfg ''condition'' s)))"
    using redact_swap_parts [OF assms, of "''condition''" s]
    by (simp add: redactParts_def upd_msgs_commute(1) [of "''condition''" "''outcomes''"])
  have count: "snd (redactParts cfg ''condition'' (fst (upd_msgs ''outcomes'' ?o ?c))) =
      snd (redactParts cfg ''condition'' s)"
    using redact_swap_parts [OF assms, of "''condition''" s]
    by (simp add: redactParts_def upd_msgs_commute(2) [of "''condition''" "''outcomes''"])
  have outs: "upd_msgs ''outcomes'' (redactParts cfg ''case_label'') (fst (upd_msgs ''outcomes'' ?o m)) =
      upd_msgs ''outcomes'' (redactParts cfg ''case_label'') m" for m
    by (simp add: upd_msgs_upd_msgs redact_swap_parts [OF assms])
  show ?thesis
    by (simp add: redact_site_def swap_site_def split_beta Let_def cond count outs)
qed

lemma redact_swap_manifest:
  assumes "\<forall>t. blocks cfg t \<longrightarrow> blocks cfg (h t)"
  shows "redact_manifest cfg (swap_manifest cfg h m) = redact_manifest cfg m"
  by (simp add: redact_manifest_def swap_manifest_def redactSites_def [abs_def] upd_msgs_upd_msgs
      redact_swap_site [OF assms])

lemma redact_swap_baseline:
  assumes "\<forall>t. blocks cfg t \<longrightarrow> blocks cfg (h t)"
  shows "redact_baseline cfg (swap_baseline cfg h m) = redact_baseline cfg m"
  by (simp add: redact_baseline_def swap_baseline_def redactSites_def [abs_def] upd_msgs_upd_msgs
      redact_swap_site [OF assms])

lemma redact_fields:
  "k \<noteq> ''probes'' \<Longrightarrow> field k (fst (redact_manifest cfg m)) = map_option drop_value (field k m)"
  "k \<noteq> ''declared_classes'' \<Longrightarrow> field k (fst (redact_baseline cfg m)) = map_option drop_value (field k m)"
  by (simp_all add: redact_manifest_def redact_baseline_def split_beta Let_def field_drop field_upd_msgs)

text \<open>What redaction does to a payload of each kind.\<close>

fun redact :: "redaction_config \<Rightarrow> payload \<Rightarrow> pbmsg \<Rightarrow> pbmsg \<times> effect list" where
  "redact cfg DeltaBatch m = (dropUnknown m, [])"
| "redact cfg Manifest m = redact_manifest cfg m"
| "redact cfg StaticBaseline m = redact_baseline cfg m"

lemma redact_no_unknown: "no_unknown (fst (redact cfg p m))"
  by (cases p) (simp_all add: redact_manifest_def redact_baseline_def split_beta Let_def no_unknown_drop)

lemma redact_resource: "GetResource (fst (redact cfg p m)) = map_option dropUnknown (GetResource m)"
  by (cases p) (simp_all add: GetResource_def get_msg_def redact_fields field_drop
      split: option.splits pbvalue.splits)

lemma validate_drop_resource: "validateResource (map_option dropUnknown res) = validateResource res"
  by (cases res) (simp_all add: validateResource_def resource_getters)

lemma redact_valid: "validator_of p m = None \<Longrightarrow> validator_of p (fst (redact cfg p m)) = None"
proof (rule validator_cong)
  assume "validator_of p m = None"
  then show "validateResource (GetResource (fst (redact cfg p m))) = None"
    by (simp add: redact_resource validate_drop_resource validator_resource)
next
  fix f :: string
  assume "f \<in> {''scanned_at'', ''chunk_count'', ''chunk_index''}"
  then have "field f (fst (redact cfg p m)) = map_option drop_value (field f m)"
    by (cases p) (auto simp: redact_fields field_drop)
  then show "get_int f (Some (fst (redact cfg p m))) = get_int f (Some m)"
    by (simp add: get_int_def split: option.splits pbvalue.splits)
qed

lemma redact_effects: "effects_ok (snd (redact cfg p m)) \<and> ingest_events (snd (redact cfg p m)) = 0"
  by (cases p)
    (simp_all add: redact_manifest_def redact_baseline_def split_beta Let_def record_redacted_def NUL_def)

lemma NewRedaction_accept:
  "accept_of (NewRedaction nxt cfg) p m st = pass_on (redact cfg p m) (accept_of nxt p) st"
  by (cases p) (simp_all add: NewRedaction_def)

lemma NewRedaction_contract:
  assumes "sink_contract nxt I"
  shows "sink_contract (NewRedaction nxt cfg) I"
proof -
  have "processor_contract nxt I (redact cfg) (NewRedaction nxt cfg)"
    by (intro processor_contract.intro assms processor_contract_axioms.intro NewRedaction_accept
        redact_effects redact_valid)
  then show ?thesis by (rule processor_contract.wrapped_contract)
qed

interpretation redacted_log: processor_contract LogSink "\<lambda>st. True" "redact cfg" "NewRedaction LogSink cfg"
  for cfg :: redaction_config
  by (intro processor_contract.intro logsink.sink_contract_axioms processor_contract_axioms.intro
      NewRedaction_accept redact_effects redact_valid)

section \<open>A concrete manifest\<close>

text \<open>
  One probe with one branch site, whose condition compares with a string literal; used by the
  witnesses, and the same site in a static baseline. The pattern blocks the texts that start with \<^verbatim>\<open>sk\<close>.
\<close>

definition demo_part :: "part_kind \<Rightarrow> string \<Rightarrow> pbmsg" where
  "demo_part k t = PbMsg [(''kind'', VScalar (SKind k)), (''text'', VScalar (SStr t))] []"

definition demo_site :: "string \<Rightarrow> pbmsg" where
  "demo_site t = PbMsg [(''condition'', VMsgs [demo_part CODE ''key == '', demo_part STRING_LITERAL t])] []"

definition demo_manifest :: "string \<Rightarrow> pbmsg" where
  "demo_manifest t =
     PbMsg [(''resource'', VMsg demo_resource), (''probes'', VMsgs [PbMsg [(''branch_sites'', VMsgs [demo_site t])] ''new''])] []"

definition demo_baseline :: "string \<Rightarrow> pbmsg" where
  "demo_baseline t =
     PbMsg [(''resource'', VMsg demo_resource),
       (''declared_classes'', VMsgs [PbMsg [(''methods'', VMsgs [PbMsg [(''branch_sites'', VMsgs [demo_site t])] []])] []])] []"

definition demo_redaction :: redaction_config where
  "demo_redaction = \<lparr>rc_blocked = [\<lambda>t. has_prefix t ''sk''], rc_all = False\<rparr>"

section \<open>Properties\<close>

text \<open>
  C33: behind the environment processor every payload that has a resource names an environment. An
  agent's own value is kept under Insert and replaced under Upsert, every other field of the
  resource and of the payload is untouched, and a mismatch is counted once under the payload's
  label exactly when the agent named a different environment.
\<close>

theorem environment_stamped:
  assumes "GetResource m = Some res" and "stamp_payload (env_stamp cfg l) m = (m', es)"
  shows "\<exists>res'. GetResource m' = Some res' \<and>
      GetEnvironment (Some res') =
        (if GetEnvironment (Some res) = [] \<or> ec_action cfg = Upsert then ec_value cfg
         else GetEnvironment (Some res)) \<and>
      (\<forall>k. k \<noteq> ''environment'' \<longrightarrow> field k res' = field k res) \<and>
      (\<forall>k. k \<noteq> ''resource'' \<longrightarrow> field k m' = field k m) \<and>
      metrics_of es =
        (if GetEnvironment (Some res) \<in> {[], ec_value cfg} then [] else [Inc EnvironmentMismatch [l]])"
proof -
  have m': "m' = fst (stamp_payload (env_stamp cfg l) m)" and es: "es = snd (env_stamp cfg l res)"
    using assms by (simp_all add: stamp_payload_def)
  have count: "metrics_of es =
      (if GetEnvironment (Some res) \<in> {[], ec_value cfg} then [] else [Inc EnvironmentMismatch [l]])"
    by (simp add: es env_stamp_def Let_def)
  show ?thesis
    by (intro exI [of _ "fst (env_stamp cfg l res)"] conjI count)
      (simp_all add: m' stamp_payload_fields assms(1) env_stamp_environment env_stamp_getters)
qed

theorem environment_stamped_witness:
  "\<exists>res'. GetResource (fst (stamp_payload (env_stamp \<lparr>ec_value = ''prod'', ec_action = Insert\<rparr> ''deltas'') demo_batch)) = Some res' \<and>
     GetEnvironment (Some res') = ''prod''"
proof -
  let ?c = "\<lparr>ec_value = ''prod'', ec_action = Insert\<rparr>"
  have "stamp_payload (env_stamp ?c ''deltas'') demo_batch =
      (fst (stamp_payload (env_stamp ?c ''deltas'') demo_batch), snd (stamp_payload (env_stamp ?c ''deltas'') demo_batch))"
    by simp
  from environment_stamped [OF demo_fields(1) this] show ?thesis by (auto simp: demo_fields)
qed

text \<open>
  C34: behind the namespace processor a payload's namespace, trimmed as the backend keys it, is the
  collector's when the agent's was blank or the action is Upsert, and the agent's otherwise; byte for byte
  it is the collector's trimmed value when that replaces the agent's, and the agent's own value when it is kept. The
  rest of the resource and of the payload is untouched, a mismatch is counted exactly when the two trimmed namespaces
  differ, and a valid payload stays valid unless the configured value is a dot segment.
\<close>

theorem namespace_stamped:
  assumes "GetResource m = Some res" and "\<not> isDotSegment (trim_space (nc_value cfg))"
  shows "\<exists>res'. GetResource (fst (stamp_payload (ns_stamp cfg l) m)) = Some res' \<and>
      trim_space (GetServiceNamespace (Some res')) =
        (if trim_space (GetServiceNamespace (Some res)) = [] \<or> nc_action cfg = Upsert
         then trim_space (nc_value cfg) else trim_space (GetServiceNamespace (Some res))) \<and>
      GetServiceNamespace (Some res') =
        (if trim_space (GetServiceNamespace (Some res)) = [] \<or>
            nc_action cfg = Upsert \<and> trim_space (GetServiceNamespace (Some res)) \<noteq> trim_space (nc_value cfg)
         then trim_space (nc_value cfg) else GetServiceNamespace (Some res)) \<and>
      (\<forall>k. k \<noteq> ''service_namespace'' \<longrightarrow> field k res' = field k res) \<and>
      (\<forall>k. k \<noteq> ''resource'' \<longrightarrow> field k (fst (stamp_payload (ns_stamp cfg l) m)) = field k m) \<and>
      metrics_of (snd (stamp_payload (ns_stamp cfg l) m)) =
        (if trim_space (GetServiceNamespace (Some res)) \<in> {[], trim_space (nc_value cfg)} then []
         else [Inc NamespaceMismatch [l]]) \<and>
      (validator_of p m = None \<longrightarrow> validator_of p (fst (stamp_payload (ns_stamp cfg l) m)) = None)"
proof (intro exI [of _ "fst (ns_stamp cfg l res)"] conjI impI)
  assume "validator_of p m = None"
  then show "validator_of p (fst (stamp_payload (ns_stamp cfg l) m)) = None"
    by (rule stamp_payload_valid) (simp add: ns_stamp_valid assms(2))
next
  show "metrics_of (snd (stamp_payload (ns_stamp cfg l) m)) =
        (if trim_space (GetServiceNamespace (Some res)) \<in> {[], trim_space (nc_value cfg)} then []
         else [Inc NamespaceMismatch [l]])"
    by (simp add: stamp_payload_def assms(1) ns_stamp_def Let_def)
next
  show "GetServiceNamespace (Some (fst (ns_stamp cfg l res))) =
        (if trim_space (GetServiceNamespace (Some res)) = [] \<or>
            nc_action cfg = Upsert \<and> trim_space (GetServiceNamespace (Some res)) \<noteq> trim_space (nc_value cfg)
         then trim_space (nc_value cfg) else GetServiceNamespace (Some res))"
    by (simp add: ns_stamp_def Let_def GetServiceNamespace_def)
qed (simp_all add: stamp_payload_fields assms(1) ns_stamp_namespace ns_stamp_getters)

theorem namespace_stamped_witness:
  "\<exists>res'. GetResource (fst (stamp_payload (ns_stamp \<lparr>nc_value = ''demo'', nc_action = Upsert\<rparr> ''deltas'') demo_batch)) = Some res' \<and>
     trim_space (GetServiceNamespace (Some res')) = ''demo''"
  using namespace_stamped [OF demo_fields(1), of "\<lparr>nc_value = ''demo'', nc_action = Upsert\<rparr>" "''deltas''" DeltaBatch]
  by (auto simp: trim_demo isDotSegment_def)

text \<open>
  C31: redaction is complete and exact, for manifests and for static baselines. Going through the condition parts of
  a payload in order, a literal part that the configuration blocks leaves with the placeholder text and its kind,
  every other part leaves with its own text and kind, no message keeps an unknown field, and the metric counts
  exactly the parts replaced.
\<close>

theorem redaction_exact:
  "map (\<lambda>p. (GetKind p, GetText p)) (manifest_parts (fst (redact_manifest cfg m))) =
     map (\<lambda>p. (GetKind p,
            if GetKind p \<notin> {CODE, PLACEHOLDER} \<and> blocks cfg (GetText p) then RedactedText else GetText p))
       (manifest_parts m) \<and>
   no_unknown (fst (redact_manifest cfg m)) \<and>
   metric_total RedactedLiterals [''manifest''] (snd (redact_manifest cfg m)) =
     int (length (filter (\<lambda>p. GetKind p \<notin> {CODE, PLACEHOLDER} \<and> blocks cfg (GetText p)) (manifest_parts m))) \<and>
   map (\<lambda>p. (GetKind p, GetText p)) (baseline_parts (fst (redact_baseline cfg b))) =
     map (\<lambda>p. (GetKind p,
            if GetKind p \<notin> {CODE, PLACEHOLDER} \<and> blocks cfg (GetText p) then RedactedText else GetText p))
       (baseline_parts b) \<and>
   no_unknown (fst (redact_baseline cfg b)) \<and>
   metric_total RedactedLiterals [''static_baseline''] (snd (redact_baseline cfg b)) =
     int (length (filter (\<lambda>p. GetKind p \<notin> {CODE, PLACEHOLDER} \<and> blocks cfg (GetText p)) (baseline_parts b)))"
proof -
  have part: "(\<lambda>p. (GetKind (dropUnknown (fst (redact_part cfg p))), GetText (dropUnknown (fst (redact_part cfg p))))) =
      (\<lambda>p. (GetKind p, if GetKind p \<notin> {CODE, PLACEHOLDER} \<and> blocks cfg (GetText p) then RedactedText else GetText p))"
    by (simp add: fun_eq_iff redact_part_alt is_literal_def GetKind_def GetText_def)
      (simp add: set_str_def get_kind_def get_str_def)
  have "map (\<lambda>p. (GetKind p, GetText p)) (manifest_parts (fst (redact_manifest cfg m))) =
      map (\<lambda>p. (GetKind p, if GetKind p \<notin> {CODE, PLACEHOLDER} \<and> blocks cfg (GetText p) then RedactedText else GetText p))
       (manifest_parts m)"
    "map (\<lambda>p. (GetKind p, GetText p)) (baseline_parts (fst (redact_baseline cfg b))) =
      map (\<lambda>p. (GetKind p, if GetKind p \<notin> {CODE, PLACEHOLDER} \<and> blocks cfg (GetText p) then RedactedText else GetText p))
       (baseline_parts b)"
    unfolding redact_manifest_parts redact_baseline_parts map_map comp_def part by (rule refl)+
  moreover have "no_unknown (fst (redact_manifest cfg m))" "no_unknown (fst (redact_baseline cfg b))"
    using redact_no_unknown [of cfg Manifest m] redact_no_unknown [of cfg StaticBaseline b] by simp_all
  moreover have "metric_total RedactedLiterals [''manifest''] (snd (redact_manifest cfg m)) =
     int (length (filter (\<lambda>p. GetKind p \<notin> {CODE, PLACEHOLDER} \<and> blocks cfg (GetText p)) (manifest_parts m)))"
    by (simp add: redact_manifest_def split_beta Let_def redact_manifest_count record_redacted_def is_literal_def)
  moreover have "metric_total RedactedLiterals [''static_baseline''] (snd (redact_baseline cfg b)) =
     int (length (filter (\<lambda>p. GetKind p \<notin> {CODE, PLACEHOLDER} \<and> blocks cfg (GetText p)) (baseline_parts b)))"
    by (simp add: redact_baseline_def split_beta Let_def redact_baseline_count record_redacted_def is_literal_def)
  ultimately show ?thesis by blast
qed

text \<open>
  C32: redaction leaks nothing of a blocked literal. Changing every blocked literal of a manifest or of a static
  baseline to any other text that is blocked too changes neither the payload that is passed on nor any log line or
  counter. Delta batches hold no literals.
\<close>

theorem redaction_noninterference:
  assumes "\<forall>t. blocks cfg t \<longrightarrow> blocks cfg (h t)"
  shows "AcceptManifest (NewRedaction nxt cfg) (swap_manifest cfg h m) st =
         AcceptManifest (NewRedaction nxt cfg) m st \<and>
         AcceptStaticBaseline (NewRedaction nxt cfg) (swap_baseline cfg h b) st =
         AcceptStaticBaseline (NewRedaction nxt cfg) b st"
  by (simp add: NewRedaction_def redact_swap_manifest [OF assms] redact_swap_baseline [OF assms])

theorem redaction_noninterference_witness:
  "AcceptManifest (NewRedaction LogSink demo_redaction)
     (swap_manifest demo_redaction (\<lambda>t. ''sk2'') (demo_manifest ''sk1'')) () =
   AcceptManifest (NewRedaction LogSink demo_redaction) (demo_manifest ''sk1'') () \<and>
   AcceptStaticBaseline (NewRedaction LogSink demo_redaction)
     (swap_baseline demo_redaction (\<lambda>t. ''sk2'') (demo_baseline ''sk1'')) () =
   AcceptStaticBaseline (NewRedaction LogSink demo_redaction) (demo_baseline ''sk1'') () \<and>
   swap_manifest demo_redaction (\<lambda>t. ''sk2'') (demo_manifest ''sk1'') = demo_manifest ''sk2'' \<and>
   swap_baseline demo_redaction (\<lambda>t. ''sk2'') (demo_baseline ''sk1'') = demo_baseline ''sk2''"
proof -
  have "AcceptManifest (NewRedaction LogSink demo_redaction)
     (swap_manifest demo_redaction (\<lambda>t. ''sk2'') (demo_manifest ''sk1'')) () =
   AcceptManifest (NewRedaction LogSink demo_redaction) (demo_manifest ''sk1'') () \<and>
   AcceptStaticBaseline (NewRedaction LogSink demo_redaction)
     (swap_baseline demo_redaction (\<lambda>t. ''sk2'') (demo_baseline ''sk1'')) () =
   AcceptStaticBaseline (NewRedaction LogSink demo_redaction) (demo_baseline ''sk1'') ()"
    by (rule redaction_noninterference) (simp add: demo_redaction_def blocks_def has_prefix_def)
  then show ?thesis
    by (simp add: swap_manifest_def swap_baseline_def swap_site_def swap_part_def upd_msgs_def field_def set_field_def
        set_str_def demo_manifest_def demo_baseline_def demo_site_def demo_part_def is_literal_def GetKind_def GetText_def
        get_kind_def get_str_def blocks_def demo_redaction_def has_prefix_def)
qed

end
