(* ===== verification/Ratelimit.thy ===== *)
theory Ratelimit
  imports Http Metrics Float64 "HOL-Library.AList" "HOL-Library.Multiset"
begin

text \<open>
  The package \<^verbatim>\<open>internal/ratelimit\<close> (\<^verbatim>\<open>limiter.go\<close>): one token bucket per client key, kept in a map and a
  list ordered by use, with a cap on the number of clients and the eviction of idle ones.

  The map and the linked list share the list's elements: \<open>lm_visitors\<close> maps a key to an element, \<open>lm_order\<close>
  lists the elements from the most to the least recently used, and \<open>lm_elems\<close> is the store that holds an
  element's visitor. \<open>lru_abs\<close> reads the limiter as one list of visitors, the specification of the cache.

  Parameters that stand for code outside the repository: the token bucket of \<^verbatim>\<open>golang.org/x/time/rate\<close>
  (\<open>bucket_ops\<close>) and the addresses of \<^verbatim>\<open>net/netip\<close> (\<open>netip\<close>).
\<close>

section \<open>State\<close>

definition defaultStaleAfter :: int where
  "defaultStaleAfter = 10 * 60 * 10 ^ 9"

definition defaultMaxVisitors :: int where
  "defaultMaxVisitors = 100000"

definition DefaultIPv6Prefix :: int where
  "DefaultIPv6Prefix = 128"

text \<open>
  \<^verbatim>\<open>rate.Limiter\<close>: \<open>bk_new\<close> is \<^verbatim>\<open>NewLimiter\<close>, \<open>bk_reserve\<close> is \<^verbatim>\<open>ReserveN(now, 1)\<close> with its reservation, \<open>bk_ok\<close>,
  \<open>bk_delay\<close> and \<open>bk_cancel\<close> are \<^verbatim>\<open>OK\<close>, \<^verbatim>\<open>DelayFrom\<close> and \<^verbatim>\<open>CancelAt\<close> of the reservation.
\<close>

record ('q, 'b, 'r) bucket_ops =
  bk_new :: "'q \<Rightarrow> int \<Rightarrow> 'b"
  bk_reserve :: "int \<Rightarrow> 'b \<Rightarrow> 'r \<times> 'b"
  bk_ok :: "'r \<Rightarrow> bool"
  bk_delay :: "'r \<Rightarrow> int \<Rightarrow> int"
  bk_cancel :: "'r \<Rightarrow> int \<Rightarrow> 'b \<Rightarrow> 'b"

record 'b visitor =
  vi_key :: string
  vi_bucket :: 'b
  vi_lastSeen :: int

record ('q, 'b) limiter =
  lm_rate :: 'q
  lm_burst :: int
  lm_clientIPHeader :: string
  lm_staleAfter :: int
  lm_maxVisitors :: int
  lm_ipv6Prefix :: int
  lm_visitors :: "(string \<times> nat) list"
  lm_order :: "nat list"
  lm_elems :: "nat \<Rightarrow> 'b visitor option"
  lm_next :: nat
  lm_stopped :: bool

type_synonym ('q, 'b) lim_option = "('q, 'b) limiter \<Rightarrow> ('q, 'b) limiter"

definition WithClientIPHeader :: "string \<Rightarrow> ('q, 'b) lim_option" where
  "WithClientIPHeader name l = l\<lparr>lm_clientIPHeader := name\<rparr>"

definition WithIPv6Prefix :: "int \<Rightarrow> ('q, 'b) lim_option" where
  "WithIPv6Prefix bits l = (if 1 \<le> bits \<and> bits \<le> 128 then l\<lparr>lm_ipv6Prefix := bits\<rparr> else l)"

definition withStaleAfter :: "int \<Rightarrow> ('q, 'b) lim_option" where
  "withStaleAfter d l = l\<lparr>lm_staleAfter := d\<rparr>"

definition withMaxVisitors :: "int \<Rightarrow> ('q, 'b) lim_option" where
  "withMaxVisitors n l = l\<lparr>lm_maxVisitors := n\<rparr>"

definition New :: "'q \<Rightarrow> int \<Rightarrow> ('q, 'b) lim_option list \<Rightarrow> ('q, 'b) limiter" where
  "New r burst opts =
     foldl (\<lambda>l opt. opt l)
       \<lparr>lm_rate = r, lm_burst = burst, lm_clientIPHeader = [], lm_staleAfter = defaultStaleAfter,
        lm_maxVisitors = defaultMaxVisitors, lm_ipv6Prefix = DefaultIPv6Prefix, lm_visitors = [],
        lm_order = [], lm_elems = (\<lambda>el. None), lm_next = 0, lm_stopped = False\<rparr> opts"

definition Stop :: "('q, 'b) limiter \<Rightarrow> ('q, 'b) limiter" where
  "Stop l = l\<lparr>lm_stopped := True\<rparr>"

section \<open>Allowing\<close>

definition elem_visitor :: "('q, 'b) limiter \<Rightarrow> nat \<Rightarrow> 'b visitor" where
  "elem_visitor l el = the (lm_elems l el)"

text \<open>Drop the least recently used element: \<^verbatim>\<open>order.Back()\<close>, \<^verbatim>\<open>delete\<close> from the map, \<^verbatim>\<open>Remove\<close> from the list.\<close>

definition drop_oldest :: "('q, 'b) limiter \<Rightarrow> ('q, 'b) limiter" where
  "drop_oldest l =
     l\<lparr>lm_visitors := AList.delete (vi_key (elem_visitor l (last (lm_order l)))) (lm_visitors l),
       lm_order := butlast (lm_order l)\<rparr>"

function evict_full :: "('q, 'b) limiter \<Rightarrow> ('q, 'b) limiter" where
  "evict_full l =
     (if int (length (lm_visitors l)) \<ge> lm_maxVisitors l \<and> lm_order l \<noteq> [] then evict_full (drop_oldest l) else l)"
  by pat_completeness auto
termination
  by (relation "measure (\<lambda>l. length (lm_order l))") (auto simp: drop_oldest_def)

declare evict_full.simps [simp del]

text \<open>The part of \<^verbatim>\<open>allow\<close> under the lock: the element of the key's visitor, which has just been seen.\<close>

definition touch :: "('q, 'b, 'r) bucket_ops \<Rightarrow> string \<Rightarrow> int \<Rightarrow> ('q, 'b) limiter \<Rightarrow> nat \<times> ('q, 'b) limiter" where
  "touch ops key now l =
     (case map_of (lm_visitors l) key of
        Some el \<Rightarrow>
          (el, l\<lparr>lm_order := el # remove1 el (lm_order l),
                lm_elems := (lm_elems l)(el \<mapsto> (elem_visitor l el)\<lparr>vi_lastSeen := now\<rparr>)\<rparr>)
      | None \<Rightarrow>
          (let l1 = evict_full l; el = lm_next l1;
               v = \<lparr>vi_key = key, vi_bucket = bk_new ops (lm_rate l1) (lm_burst l1), vi_lastSeen = now\<rparr>
           in (el, l1\<lparr>lm_visitors := AList.update key el (lm_visitors l1),
                     lm_order := el # lm_order l1,
                     lm_elems := (lm_elems l1)(el \<mapsto> v),
                     lm_next := el + 1\<rparr>)))"

definition set_bucket :: "nat \<Rightarrow> 'b \<Rightarrow> ('q, 'b) limiter \<Rightarrow> ('q, 'b) limiter" where
  "set_bucket el b l = l\<lparr>lm_elems := (lm_elems l)(el \<mapsto> (elem_visitor l el)\<lparr>vi_bucket := b\<rparr>)\<rparr>"

text \<open>The part of \<^verbatim>\<open>allow\<close> after the lock: one token of the visitor's bucket, given back when it is not there yet.\<close>

definition reserve_on ::
  "('q, 'b, 'r) bucket_ops \<Rightarrow> nat \<Rightarrow> int \<Rightarrow> ('q, 'b) limiter \<Rightarrow> (bool \<times> int) \<times> ('q, 'b) limiter" where
  "reserve_on ops el now l =
     (let (res, b1) = bk_reserve ops now (vi_bucket (elem_visitor l el))
      in if \<not> bk_ok ops res then ((False, 0), set_bucket el b1 l)
         else
           (let delay = bk_delay ops res now in
            if delay > 0 then ((False, delay), set_bucket el (bk_cancel ops res now b1) l)
            else ((True, 0), set_bucket el b1 l)))"

definition allow ::
  "('q, 'b, 'r) bucket_ops \<Rightarrow> string \<Rightarrow> int \<Rightarrow> ('q, 'b) limiter \<Rightarrow> (bool \<times> int) \<times> ('q, 'b) limiter" where
  "allow ops key now l = (let (el, l1) = touch ops key now l in reserve_on ops el now l1)"

text \<open>
  \<^verbatim>\<open>d.Seconds()\<close> adds the whole seconds and the fraction as float64; then \<^verbatim>\<open>math.Ceil\<close>. The delays \<open>allow\<close>
  returns are never negative, so Go's truncating division is \<open>div\<close> here.
\<close>

definition duration_seconds :: "int \<Rightarrow> f64" where
  "duration_seconds d = f64_add (f64_of_int (d div 10 ^ 9)) (f64_div (d mod 10 ^ 9) (10 ^ 9))"

definition retryAfterSeconds :: "int \<Rightarrow> int" where
  "retryAfterSeconds d = (let secs = f64_ceil (duration_seconds d) in if secs < 1 then 1 else secs)"

text \<open>One tick of \<^verbatim>\<open>evictStaleLoop\<close>: from the back of the list, until a visitor that is not stale.\<close>

definition time_since :: "int \<Rightarrow> int \<Rightarrow> int" where
  "time_since now t = max (- (2 ^ 63)) (min (2 ^ 63 - 1) (now - t))"

function evict_stale :: "int \<Rightarrow> ('q, 'b) limiter \<Rightarrow> ('q, 'b) limiter" where
  "evict_stale now l =
     (if lm_order l \<noteq> [] \<and>
         \<not> time_since now (vi_lastSeen (elem_visitor l (last (lm_order l)))) \<le> lm_staleAfter l
      then evict_stale now (drop_oldest l) else l)"
  by pat_completeness auto
termination
  by (relation "measure (\<lambda>(now, l). length (lm_order l))") (auto simp: drop_oldest_def)

declare evict_stale.simps [simp del]

section \<open>The client's key\<close>

fun last_entry :: "string list \<Rightarrow> string" where
  "last_entry [] = []"
| "last_entry (p # rest) =
     (let t = trim_space p in if t \<noteq> [] then t else last_entry rest)"

text \<open>\<^verbatim>\<open>lastHeaderValue\<close> goes through the parts from the last to the first.\<close>

definition lastHeaderValue :: "string \<Rightarrow> string" where
  "lastHeaderValue v = last_entry (rev (split_on CHR '','' v))"

definition stripPort :: "string \<Rightarrow> string" where
  "stripPort addr = (case SplitHostPort addr of None \<Rightarrow> addr | Some (host, port) \<Rightarrow> host)"

text \<open>
  \<^verbatim>\<open>net/netip\<close>: parsing, \<^verbatim>\<open>WithZone("")\<close>, \<^verbatim>\<open>Unmap\<close>, \<^verbatim>\<open>Is4\<close>, \<^verbatim>\<open>String\<close>, and the string of \<^verbatim>\<open>Prefix(bits)\<close> or its error.
\<close>

record 'a netip =
  ip_parse :: "string \<Rightarrow> 'a option"
  ip_no_zone :: "'a \<Rightarrow> 'a"
  ip_unmap :: "'a \<Rightarrow> 'a"
  ip_is4 :: "'a \<Rightarrow> bool"
  ip_string :: "'a \<Rightarrow> string"
  ip_prefix :: "'a \<Rightarrow> int \<Rightarrow> string option"

definition normalizeIP :: "'a netip \<Rightarrow> ('q, 'b) limiter \<Rightarrow> string \<Rightarrow> string" where
  "normalizeIP ip l s =
     (case ip_parse ip s of
        None \<Rightarrow> s
      | Some addr0 \<Rightarrow>
          (let addr = ip_unmap ip (ip_no_zone ip addr0) in
           if ip_is4 ip addr then ip_string ip addr
           else (case ip_prefix ip addr (lm_ipv6Prefix l) of None \<Rightarrow> s | Some p \<Rightarrow> p)))"

definition clientIP :: "'a netip \<Rightarrow> ('q, 'b) limiter \<Rightarrow> request \<Rightarrow> string" where
  "clientIP ip l r =
     (if lm_clientIPHeader l \<noteq> [] then
        (let joined = join '','' (header_values (lm_clientIPHeader l) r);
             client = lastHeaderValue joined
         in if client \<noteq> [] then normalizeIP ip l (stripPort client)
            else normalizeIP ip l (stripPort (req_remote r)))
      else normalizeIP ip l (stripPort (req_remote r)))"

section \<open>The middleware\<close>

text \<open>\<open>now\<close> is the clock that \<^verbatim>\<open>allow\<close> reads; the state pairs the limiter with what the next handler guards.\<close>

definition Middleware ::
  "('q, 'b, 'r) bucket_ops \<Rightarrow> 'a netip \<Rightarrow> int \<Rightarrow> 's http_handler \<Rightarrow> (('q, 'b) limiter \<times> 's) http_handler" where
  "Middleware ops ip now next_handler r s =
     (case s of (l, st) \<Rightarrow>
        (case allow ops (clientIP ip l r) now l of
           ((True, retryAfter), l') \<Rightarrow>
             (let (resp, es, st') = next_handler r st in (resp, es, (l', st')))
         | ((False, retryAfter), l') \<Rightarrow>
             (Some (http_error ''rate limit exceeded'' 429 [(''Retry-After'', itoa (retryAfterSeconds retryAfter))]),
              [Inc RateLimited []], (l', st))))"

section \<open>The cache the limiter implements\<close>

text \<open>
  The specification: visitors with distinct keys, the most recently used first. Touching a key moves its
  visitor to the front; a new key first cuts the list to make room.
\<close>

definition lru_touch :: "string \<Rightarrow> int \<Rightarrow> 'b \<Rightarrow> int \<Rightarrow> 'b visitor list \<Rightarrow> 'b visitor list" where
  "lru_touch key now fresh cap xs =
     (case find (\<lambda>v. vi_key v = key) xs of
        Some v \<Rightarrow> v\<lparr>vi_lastSeen := now\<rparr> # filter (\<lambda>w. vi_key w \<noteq> key) xs
      | None \<Rightarrow> \<lparr>vi_key = key, vi_bucket = fresh, vi_lastSeen = now\<rparr> # take (nat (cap - 1)) xs)"

definition lru_allow ::
  "('q, 'b, 'r) bucket_ops \<Rightarrow> string \<Rightarrow> int \<Rightarrow> 'b \<Rightarrow> int \<Rightarrow> 'b visitor list \<Rightarrow> (bool \<times> int) \<times> 'b visitor list" where
  "lru_allow ops key now fresh cap xs =
     (let ys = lru_touch key now fresh cap xs;
          (res, b1) = bk_reserve ops now (vi_bucket (hd ys));
          put = (\<lambda>b. (hd ys)\<lparr>vi_bucket := b\<rparr> # tl ys);
          delay = bk_delay ops res now
      in if \<not> bk_ok ops res then ((False, 0), put b1)
         else if delay > 0 then ((False, delay), put (bk_cancel ops res now b1))
         else ((True, 0), put b1))"

definition is_stale :: "int \<Rightarrow> int \<Rightarrow> 'b visitor \<Rightarrow> bool" where
  "is_stale now after v \<longleftrightarrow> after < time_since now (vi_lastSeen v)"

definition lru_abs :: "('q, 'b) limiter \<Rightarrow> 'b visitor list" where
  "lru_abs l = map (elem_visitor l) (lm_order l)"

text \<open>
  The map and the list agree: each element of the list is in the store and is what the map holds under its
  visitor's key, and the map holds nothing else.
\<close>

definition keyed :: "('q, 'b) limiter \<Rightarrow> nat \<Rightarrow> string \<times> nat" where
  "keyed l el = (vi_key (elem_visitor l el), el)"

definition lim_ok :: "('q, 'b) limiter \<Rightarrow> bool" where
  "lim_ok l \<longleftrightarrow>
     list_all (\<lambda>el. el < lm_next l \<and> lm_elems l el \<noteq> None) (lm_order l) \<and>
     distinct (map fst (lm_visitors l)) \<and> mset (lm_visitors l) = mset (map (keyed l) (lm_order l))"

section \<open>Lemmas: map and list\<close>

lemma lim_ok_facts:
  assumes "lim_ok l"
  shows "length (lm_visitors l) = length (lm_order l)" "distinct (lm_order l)"
    "distinct (map vi_key (lru_abs l))" "set (lm_visitors l) = keyed l ` set (lm_order l)"
proof -
  have ms: "mset (lm_visitors l) = mset (map (keyed l) (lm_order l))" and d: "distinct (map fst (lm_visitors l))"
    using assms by (simp_all add: lim_ok_def)
  show "length (lm_visitors l) = length (lm_order l)" using mset_eq_length [OF ms] by simp
  have "mset (map fst (lm_visitors l)) = mset (map vi_key (lru_abs l))"
    unfolding mset_map ms by (simp add: lru_abs_def keyed_def image_mset.compositionality comp_def)
  then show keys: "distinct (map vi_key (lru_abs l))" using d by (metis mset_eq_imp_distinct_iff)
  then show "distinct (lm_order l)" by (simp add: lru_abs_def distinct_map)
  show "set (lm_visitors l) = keyed l ` set (lm_order l)" using mset_eq_setD [OF ms] by simp
qed

lemma visitors_lookup:
  assumes "lim_ok l"
  shows "map_of (lm_visitors l) key = Some el \<longleftrightarrow> el \<in> set (lm_order l) \<and> vi_key (elem_visitor l el) = key"
proof -
  have "map_of (lm_visitors l) key = Some el \<longleftrightarrow> (key, el) \<in> set (lm_visitors l)"
    using assms by (simp add: lim_ok_def)
  also have "\<dots> \<longleftrightarrow> (key, el) \<in> keyed l ` set (lm_order l)" by (simp add: lim_ok_facts(4) [OF assms])
  also have "\<dots> \<longleftrightarrow> el \<in> set (lm_order l) \<and> vi_key (elem_visitor l el) = key" by (auto simp: keyed_def)
  finally show ?thesis .
qed

lemma visitors_lookup_None:
  assumes "lim_ok l"
  shows "map_of (lm_visitors l) key = None \<longleftrightarrow> key \<notin> vi_key ` set (lru_abs l)"
proof -
  have "(\<exists>el. map_of (lm_visitors l) key = Some el) \<longleftrightarrow> key \<in> vi_key ` set (lru_abs l)"
    by (auto simp: visitors_lookup [OF assms] lru_abs_def)
  then show ?thesis by (metis not_None_eq)
qed

lemma drop_oldest_ok:
  assumes "lim_ok l" and "lm_order l \<noteq> []"
  shows "lim_ok (drop_oldest l) \<and> lru_abs (drop_oldest l) = butlast (lru_abs l)"
proof -
  obtain xs el where ord: "lm_order l = xs @ [el]" using assms(2) by (metis rev_exhaust)
  have ev: "elem_visitor (drop_oldest l) = elem_visitor l" "keyed (drop_oldest l) = keyed l"
    by (auto simp: drop_oldest_def elem_visitor_def keyed_def)
  let ?k = "vi_key (elem_visitor l el)"
  let ?P = "\<lambda>(k', e :: nat). ?k \<noteq> k'"
  have "?k \<notin> (\<lambda>e. vi_key (elem_visitor l e)) ` set xs"
    using lim_ok_facts(3) [OF assms(1)] by (simp add: lru_abs_def ord comp_def)
  then have other: "?k \<noteq> vi_key (elem_visitor l e)" if "e \<in> set xs" for e
    using that by (metis (mono_tags, lifting) image_eqI)
  have del: "AList.delete ?k (lm_visitors l) = filter ?P (lm_visitors l)" by (simp add: AList.delete_eq)
  have "mset (filter ?P (lm_visitors l)) = filter_mset ?P (mset (map (keyed l) (lm_order l)))"
    using assms(1) by (simp add: lim_ok_def)
  also have "\<dots> = mset (filter ?P (map (keyed l) (lm_order l)))" by simp
  also have "filter ?P (map (keyed l) (lm_order l)) = map (keyed l) xs"
  proof -
    have "filter ?P (map (keyed l) xs) = map (keyed l) xs"
      by (rule filter_True) (use other in \<open>auto simp: keyed_def\<close>)
    then show ?thesis by (simp add: ord keyed_def)
  qed
  finally have ms: "mset (lm_visitors (drop_oldest l)) = mset (map (keyed l) (lm_order (drop_oldest l)))"
    by (simp add: drop_oldest_def ord del)
  have "distinct (map fst (lm_visitors (drop_oldest l)))"
    using assms(1) by (simp add: drop_oldest_def lim_ok_def AList.distinct_delete)
  moreover have "list_all (\<lambda>e. e < lm_next (drop_oldest l) \<and> lm_elems (drop_oldest l) e \<noteq> None) (lm_order (drop_oldest l))"
    using assms(1) ord by (simp add: drop_oldest_def lim_ok_def)
  moreover have "lru_abs (drop_oldest l) = butlast (lru_abs l)"
    unfolding lru_abs_def ev by (simp add: drop_oldest_def map_butlast)
  ultimately show ?thesis using ms by (simp add: lim_ok_def ev)
qed

lemma drop_oldest_frame:
  "lm_rate (drop_oldest l) = lm_rate l" "lm_burst (drop_oldest l) = lm_burst l"
  "lm_maxVisitors (drop_oldest l) = lm_maxVisitors l" "lm_staleAfter (drop_oldest l) = lm_staleAfter l"
  "lm_next (drop_oldest l) = lm_next l" "lm_elems (drop_oldest l) = lm_elems l"
  by (simp_all add: drop_oldest_def)

definition same_settings :: "('q, 'b) limiter \<Rightarrow> ('q, 'b) limiter \<Rightarrow> bool" where
  "same_settings l l' \<longleftrightarrow>
     lm_rate l' = lm_rate l \<and> lm_burst l' = lm_burst l \<and> lm_maxVisitors l' = lm_maxVisitors l \<and>
     lm_staleAfter l' = lm_staleAfter l"

lemma length_lru_abs: "lim_ok l \<Longrightarrow> length (lru_abs l) = length (lm_visitors l)"
  by (simp add: lru_abs_def lim_ok_facts(1))

lemma evict_full_ok:
  "lim_ok l \<Longrightarrow>
   lim_ok (evict_full l) \<and> lru_abs (evict_full l) = take (nat (lm_maxVisitors l - 1)) (lru_abs l) \<and>
   same_settings l (evict_full l)"
proof (induction l rule: evict_full.induct)
  case (1 l)
  show ?case
  proof (cases "int (length (lm_visitors l)) \<ge> lm_maxVisitors l \<and> lm_order l \<noteq> []")
    case True
    let ?d = "drop_oldest l"
    have d: "lim_ok ?d" "lru_abs ?d = butlast (lru_abs l)" using drop_oldest_ok [OF "1.prems"] True by simp_all
    have "nat (lm_maxVisitors l - 1) \<le> length (lru_abs l) - 1"
      using True length_lru_abs [OF "1.prems"] by linarith
    then have "take (nat (lm_maxVisitors l - 1)) (butlast (lru_abs l)) = take (nat (lm_maxVisitors l - 1)) (lru_abs l)"
      by (rule take_butlast_le)
    moreover have "evict_full l = evict_full ?d" using True by (simp add: evict_full.simps [of l])
    ultimately show ?thesis using "1.IH" True d by (simp add: same_settings_def drop_oldest_frame)
  next
    case False
    have "length (lru_abs l) \<le> nat (lm_maxVisitors l - 1)"
      using False length_lru_abs [OF "1.prems"] lim_ok_facts(1) [OF "1.prems"] by auto
    moreover have "evict_full l = l" by (subst evict_full.simps) (simp only: False if_False)
    ultimately show ?thesis using "1.prems" by (simp add: same_settings_def)
  qed
qed

lemma evict_stale_ok:
  "lim_ok l \<Longrightarrow>
   lim_ok (evict_stale now l) \<and>
   lru_abs (evict_stale now l) = rev (dropWhile (is_stale now (lm_staleAfter l)) (rev (lru_abs l)))"
proof (induction now l rule: evict_stale.induct)
  case (1 now l)
  show ?case
  proof (cases "lm_order l = []")
    case True
    then show ?thesis using "1.prems" by (simp add: evict_stale.simps [of now l] lru_abs_def)
  next
    case False
    then obtain xs el where ord: "lm_order l = xs @ [el]" by (metis rev_exhaust)
    then have abs: "rev (lru_abs l) = elem_visitor l el # rev (map (elem_visitor l) xs)" by (simp add: lru_abs_def)
    have stale: "is_stale now (lm_staleAfter l) (elem_visitor l el) \<longleftrightarrow>
        \<not> time_since now (vi_lastSeen (elem_visitor l (last (lm_order l)))) \<le> lm_staleAfter l"
      by (simp add: is_stale_def ord not_le)
    show ?thesis
    proof (cases "is_stale now (lm_staleAfter l) (elem_visitor l el)")
      case True
      have d: "lim_ok (drop_oldest l)" "lru_abs (drop_oldest l) = butlast (lru_abs l)"
        using drop_oldest_ok [OF "1.prems" False] by simp_all
      have "evict_stale now l = evict_stale now (drop_oldest l)"
        using True stale False by (simp add: evict_stale.simps [of now l])
      moreover have "rev (butlast (lru_abs l)) = rev (map (elem_visitor l) xs)" by (simp add: lru_abs_def ord)
      ultimately show ?thesis using "1.IH" True stale False d abs by (simp add: drop_oldest_frame)
    next
      case fresh: False
      then show ?thesis using stale abs "1.prems"
        by (simp add: evict_stale.simps [of now l] lru_abs_def ord)
    qed
  qed
qed

section \<open>Lemmas: the limiter implements the cache\<close>

lemma find_key:
  assumes "distinct (map vi_key xs)" and "v \<in> set xs" and "vi_key v = key"
  shows "find (\<lambda>w. vi_key w = key) xs = Some v"
  using assms
proof (induction xs)
  case (Cons x xs)
  show ?case
  proof (cases "x = v")
    case False
    then have v: "v \<in> set xs" using Cons.prems(2) by simp
    then have "vi_key x \<noteq> key" using Cons.prems by force
    then show ?thesis using Cons.IH [OF _ v] Cons.prems by simp
  qed (use Cons.prems in simp)
qed simp

lemma remove1_filter_key:
  assumes "distinct (map (vi_key \<circ> f) ord)" and "el \<in> set ord"
  shows "map f (remove1 el ord) = filter (\<lambda>w. vi_key w \<noteq> vi_key (f el)) (map f ord)"
proof -
  have d: "distinct ord" using assms(1) by (simp add: distinct_map)
  have "remove1 el ord = filter (\<lambda>e. el \<noteq> e) ord" using d by (simp add: distinct_remove1_removeAll removeAll_filter_not_eq)
  moreover have "el \<noteq> e \<longleftrightarrow> vi_key (f e) \<noteq> vi_key (f el)" if "e \<in> set ord" for e
    using assms that by (auto simp: distinct_map inj_on_def)
  ultimately show ?thesis by (simp add: filter_map comp_def cong: filter_cong)
qed

lemma touch_found:
  assumes "lim_ok l" and "map_of (lm_visitors l) key = Some el" and "touch ops key now l = (el', l')"
  shows "el' = el \<and> lim_ok l' \<and> lru_abs l' = lru_touch key now fresh cap (lru_abs l) \<and>
    same_settings l l' \<and> hd (lm_order l') = el' \<and> lm_order l' \<noteq> []"
proof -
  have el: "el \<in> set (lm_order l)" and key: "vi_key (elem_visitor l el) = key"
    using visitors_lookup [OF assms(1)] assms(2) by simp_all
  have dist: "distinct (map (vi_key \<circ> elem_visitor l) (lm_order l))"
    using lim_ok_facts(3) [OF assms(1)] by (simp add: lru_abs_def)
  let ?v = "(elem_visitor l el)\<lparr>vi_lastSeen := now\<rparr>"
  have l': "el' = el" "l' = l\<lparr>lm_order := el # remove1 el (lm_order l), lm_elems := (lm_elems l)(el \<mapsto> ?v)\<rparr>"
    using assms(2,3) by (auto simp: touch_def)
  have ev: "elem_visitor l' e = (if e = el then ?v else elem_visitor l e)" for e
    by (simp add: l' elem_visitor_def)
  have keyed: "keyed l' = keyed l" by (auto simp: keyed_def ev)
  have "mset (el # remove1 el (lm_order l)) = mset (lm_order l)" using el by simp
  then have "mset (map (keyed l) (el # remove1 el (lm_order l))) = mset (map (keyed l) (lm_order l))"
    unfolding mset_map by (rule arg_cong)
  then have ms: "mset (lm_visitors l') = mset (map (keyed l') (lm_order l'))"
    using assms(1) by (simp add: keyed) (simp add: l' lim_ok_def)
  have ok: "lim_ok l'" using assms(1) el ms
    by (auto simp: lim_ok_def l' list_all_iff dest: notin_set_remove1)
  have same: "map (elem_visitor l') (remove1 el (lm_order l)) = map (elem_visitor l) (remove1 el (lm_order l))"
    using lim_ok_facts(2) [OF assms(1)] by (simp add: ev)
  have "find (\<lambda>w. vi_key w = key) (lru_abs l) = Some (elem_visitor l el)"
    by (rule find_key [OF lim_ok_facts(3) [OF assms(1)]]) (use el key in \<open>simp_all add: lru_abs_def\<close>)
  then have "lru_abs l' = lru_touch key now fresh cap (lru_abs l)"
    using remove1_filter_key [OF dist el] same key by (simp add: lru_touch_def lru_abs_def l'(2)) (simp add: ev flip: l'(2))
  then show ?thesis using l' ok by (simp add: same_settings_def)
qed

lemma alist_update_new: "k \<notin> fst ` set al \<Longrightarrow> AList.update k v al = al @ [(k, v)]"
  by (induction al) auto

lemma touch_new:
  assumes "lim_ok l" and "map_of (lm_visitors l) key = None" and "touch ops key now l = (el', l')"
  shows "lim_ok l' \<and>
    lru_abs l' = lru_touch key now (bk_new ops (lm_rate l) (lm_burst l)) (lm_maxVisitors l) (lru_abs l) \<and>
    same_settings l l' \<and> hd (lm_order l') = el' \<and> lm_order l' \<noteq> []"
proof -
  let ?l1 = "evict_full l"
  note ev = evict_full_ok [OF assms(1)]
  then have ok1: "lim_ok ?l1" and abs1: "lru_abs ?l1 = take (nat (lm_maxVisitors l - 1)) (lru_abs l)"
    and same: "same_settings l ?l1" by simp_all
  let ?el = "lm_next ?l1"
  let ?v = "\<lparr>vi_key = key, vi_bucket = bk_new ops (lm_rate l) (lm_burst l), vi_lastSeen = now\<rparr>"
  have l': "el' = ?el" "l' = ?l1\<lparr>lm_visitors := AList.update key ?el (lm_visitors ?l1), lm_order := ?el # lm_order ?l1,
      lm_elems := (lm_elems ?l1)(?el \<mapsto> ?v), lm_next := ?el + 1\<rparr>"
    using assms(2,3) same by (auto simp: touch_def Let_def same_settings_def)
  have notin: "key \<notin> vi_key ` set (lru_abs l)" using visitors_lookup_None [OF assms(1)] assms(2) by simp
  then have "key \<notin> vi_key ` set (lru_abs ?l1)" unfolding abs1 by (meson image_mono set_take_subset subsetD)
  then have "map_of (lm_visitors ?l1) key = None" using visitors_lookup_None [OF ok1] by simp
  then have upd: "AList.update key ?el (lm_visitors ?l1) = lm_visitors ?l1 @ [(key, ?el)]"
    by (intro alist_update_new) (simp add: map_of_eq_None_iff)
  have new: "?el \<notin> set (lm_order ?l1)" using ok1 by (auto simp: lim_ok_def list_all_iff)
  have evs: "elem_visitor l' e = (if e = ?el then ?v else elem_visitor ?l1 e)" for e
    by (simp add: l' elem_visitor_def)
  have old: "map (elem_visitor l') (lm_order ?l1) = lru_abs ?l1" "map (keyed l') (lm_order ?l1) = map (keyed ?l1) (lm_order ?l1)"
    using new by (auto simp: evs lru_abs_def keyed_def)
  have fields: "lm_visitors l' = lm_visitors ?l1 @ [(key, ?el)]" "lm_order l' = ?el # lm_order ?l1"
    "lm_next l' = ?el + 1" "lm_elems l' = (lm_elems ?l1)(?el \<mapsto> ?v)" by (simp_all add: l'(2) upd)
  have kel: "keyed l' ?el = (key, ?el)" by (simp add: keyed_def evs)
  have "distinct (map fst (lm_visitors l'))"
    using ok1 \<open>map_of (lm_visitors ?l1) key = None\<close> by (simp add: fields lim_ok_def map_of_eq_None_iff)
  moreover have "mset (lm_visitors l') = mset (map (keyed l') (lm_order l'))"
  proof -
    have "mset (lm_visitors l') = add_mset (key, ?el) (mset (map (keyed ?l1) (lm_order ?l1)))"
      using ok1 by (simp add: fields(1) lim_ok_def)
    also have "\<dots> = mset (map (keyed l') (?el # lm_order ?l1))"
      unfolding list.map kel old(2) by simp
    finally show ?thesis by (simp only: fields(2))
  qed
  moreover have "list_all (\<lambda>e. e < lm_next l' \<and> lm_elems l' e \<noteq> None) (lm_order l')"
    using ok1 by (auto simp: fields lim_ok_def list_all_iff)
  ultimately have "lim_ok l'" by (simp add: lim_ok_def)
  moreover have "find (\<lambda>w. vi_key w = key) (lru_abs l) = None" using notin by (auto simp: find_None_iff)
  then have "lru_abs l' = lru_touch key now (bk_new ops (lm_rate l) (lm_burst l)) (lm_maxVisitors l) (lru_abs l)"
  proof -
    assume none: "find (\<lambda>w. vi_key w = key) (lru_abs l) = None"
    have "lru_abs l' = elem_visitor l' ?el # lru_abs ?l1" unfolding lru_abs_def [of l'] fields(2) list.map old(1) ..
    then show ?thesis by (simp add: lru_touch_def none abs1 evs)
  qed
  ultimately show ?thesis using same l' by (simp add: same_settings_def)
qed

lemma touch_ok:
  assumes "lim_ok l" and "touch ops key now l = (el, l')"
  shows "lim_ok l' \<and>
    lru_abs l' = lru_touch key now (bk_new ops (lm_rate l) (lm_burst l)) (lm_maxVisitors l) (lru_abs l) \<and>
    same_settings l l' \<and> hd (lm_order l') = el \<and> lm_order l' \<noteq> []"
  using touch_found [OF assms(1) _ assms(2)] touch_new [OF assms(1) _ assms(2)]
  by (cases "map_of (lm_visitors l) key") simp_all

lemma set_bucket_ok:
  assumes "lim_ok l" and "hd (lm_order l) = el" and "lm_order l \<noteq> []"
  shows "lim_ok (set_bucket el b l) \<and> same_settings l (set_bucket el b l) \<and>
    lru_abs (set_bucket el b l) = (hd (lru_abs l))\<lparr>vi_bucket := b\<rparr> # tl (lru_abs l)"
proof -
  obtain xs where ord: "lm_order l = el # xs" using assms(2,3) by (cases "lm_order l") auto
  have el: "el \<notin> set xs" using lim_ok_facts(2) [OF assms(1)] ord by simp
  have ev: "elem_visitor (set_bucket el b l) e = (if e = el then (elem_visitor l el)\<lparr>vi_bucket := b\<rparr> else elem_visitor l e)" for e
    by (simp add: set_bucket_def elem_visitor_def)
  have "keyed (set_bucket el b l) = keyed l" by (auto simp: keyed_def ev)
  moreover have "map (elem_visitor (set_bucket el b l)) xs = map (elem_visitor l) xs" using el by (auto simp: ev)
  moreover have "lm_visitors (set_bucket el b l) = lm_visitors l" "lm_order (set_bucket el b l) = lm_order l"
    "lm_next (set_bucket el b l) = lm_next l" "same_settings l (set_bucket el b l)"
    "e \<in> set (lm_order l) \<Longrightarrow> lm_elems l e \<noteq> None \<Longrightarrow> lm_elems (set_bucket el b l) e \<noteq> None" for e
    by (auto simp: set_bucket_def same_settings_def)
  ultimately show ?thesis using assms(1) ord ev [of el] by (simp add: lim_ok_def lru_abs_def list_all_iff)
qed

lemma allow_refines:
  assumes "lim_ok l"
  shows "fst (allow ops key now l) =
      fst (lru_allow ops key now (bk_new ops (lm_rate l) (lm_burst l)) (lm_maxVisitors l) (lru_abs l)) \<and>
    lru_abs (snd (allow ops key now l)) =
      snd (lru_allow ops key now (bk_new ops (lm_rate l) (lm_burst l)) (lm_maxVisitors l) (lru_abs l)) \<and>
    lim_ok (snd (allow ops key now l)) \<and> same_settings l (snd (allow ops key now l))"
proof -
  obtain el l1 where t: "touch ops key now l = (el, l1)" by fastforce
  note ok = touch_ok [OF assms t]
  have hd: "vi_bucket (elem_visitor l1 el) = vi_bucket (hd (lru_abs l1))"
    using ok by (cases "lm_order l1") (auto simp: lru_abs_def)
  obtain res b1 where r: "bk_reserve ops now (vi_bucket (hd (lru_abs l1))) = (res, b1)" by fastforce
  have sb: "lim_ok (set_bucket el b l1) \<and> same_settings l (set_bucket el b l1) \<and>
    lru_abs (set_bucket el b l1) = (hd (lru_abs l1))\<lparr>vi_bucket := b\<rparr> # tl (lru_abs l1)" for b
    using set_bucket_ok [of l1 el b] ok by (auto simp: same_settings_def)
  have abs: "lru_touch key now (bk_new ops (lm_rate l) (lm_burst l)) (lm_maxVisitors l) (lru_abs l) = lru_abs l1"
    using ok by simp
  show ?thesis using sb
    by (simp add: allow_def reserve_on_def lru_allow_def Let_def t hd r abs)
qed

section \<open>Lemmas: recency\<close>

definition by_recency :: "'b visitor list \<Rightarrow> bool" where
  "by_recency xs \<longleftrightarrow> sorted_wrt (\<lambda>v w. vi_lastSeen w \<le> vi_lastSeen v) xs"

lemma by_recency_cut:
  assumes "by_recency xs" and "u \<in> set (drop n xs)" and "w \<in> set (take n xs)"
  shows "vi_lastSeen u \<le> vi_lastSeen w"
proof -
  have "by_recency (take n xs @ drop n xs)" using assms(1) by simp
  then show ?thesis using assms(2,3) unfolding by_recency_def sorted_wrt_append by blast
qed

lemma by_recency_touch:
  assumes "by_recency xs" and "\<forall>v \<in> set xs. vi_lastSeen v \<le> now"
  shows "by_recency (lru_touch key now fresh cap xs)"
  using assms
  by (auto simp: by_recency_def lru_touch_def sorted_wrt_filter sorted_wrt_take split: option.splits
      dest: in_set_takeD)

lemma lru_touch_shape:
  "\<exists>v rest. lru_touch key now fresh cap xs = v # rest \<and> vi_key v = key \<and> vi_lastSeen v = now \<and> set rest \<subseteq> set xs"
  by (auto simp: lru_touch_def find_Some_iff split: option.splits dest: in_set_takeD)

lemma dropWhile_sorted:
  assumes "sorted_wrt (\<lambda>v w. P w \<longrightarrow> P v) xs"
  shows "dropWhile P xs = filter (\<lambda>v. \<not> P v) xs"
  using assms
proof (induction xs)
  case (Cons x xs)
  then show ?case by (cases "P x") (auto simp: filter_id_conv)
qed simp

lemma touch_capped:
  assumes "lim_ok l" and "by_recency (lru_abs l)" and "\<forall>v \<in> set (lru_abs l). vi_lastSeen v \<le> now"
    and "1 \<le> lm_maxVisitors l" and "int (length (lm_visitors l)) \<le> lm_maxVisitors l"
    and "touch ops key now l = (el, l')"
  shows "int (length (lm_visitors l')) \<le> lm_maxVisitors l' \<and>
    key \<in> vi_key ` set (lru_abs l') \<and> by_recency (lru_abs l') \<and> (\<forall>v \<in> set (lru_abs l'). vi_lastSeen v \<le> now) \<and>
    (\<forall>v \<in> set (lru_abs l). vi_key v \<notin> vi_key ` set (lru_abs l') \<longrightarrow>
       int (length (lm_visitors l)) = lm_maxVisitors l \<and> (\<forall>w \<in> set (lru_abs l'). vi_lastSeen v \<le> vi_lastSeen w))"
proof -
  let ?xs = "lru_abs l" and ?fresh = "bk_new ops (lm_rate l) (lm_burst l)" and ?cap = "lm_maxVisitors l"
  have ok': "lim_ok l'" "lm_maxVisitors l' = ?cap" and abs': "lru_abs l' = lru_touch key now ?fresh ?cap ?xs"
    using touch_ok [OF assms(1,6)] by (auto simp: same_settings_def)
  obtain v rest where a: "lru_abs l' = v # rest" and v: "vi_key v = key" "vi_lastSeen v = now" "set rest \<subseteq> set ?xs"
    using lru_touch_shape [of key now ?fresh ?cap ?xs] abs' by auto
  have rec: "by_recency (v # rest)" using by_recency_touch [OF assms(2,3)] abs' a by metis
  have len: "length ?xs = length (lm_visitors l)" by (rule length_lru_abs [OF assms(1)])
  have shape: "(key \<in> vi_key ` set ?xs \<and> rest = filter (\<lambda>w. vi_key w \<noteq> key) ?xs) \<or> rest = take (nat (?cap - 1)) ?xs"
    using a unfolding abs' by (auto simp: lru_touch_def find_Some_iff split: option.splits)
  have "length rest < nat ?cap"
    using shape assms(4,5) len length_filter_less [of _ ?xs "\<lambda>w. vi_key w \<noteq> key"] by fastforce
  then have cap: "int (length (lm_visitors l')) \<le> ?cap"
    using length_lru_abs [OF ok'(1)] a assms(4) by simp
  have evicted: "int (length (lm_visitors l)) = ?cap \<and> (\<forall>w \<in> set (lru_abs l'). vi_lastSeen u \<le> vi_lastSeen w)"
    if u: "u \<in> set ?xs" "vi_key u \<notin> vi_key ` set (lru_abs l')" for u
  proof -
    have "u \<notin> set rest" "vi_key u \<noteq> key" using u(2) a v(1) by auto
    with shape u(1) have rest: "rest = take (nat (?cap - 1)) ?xs" by auto
    then have d: "u \<in> set (drop (nat (?cap - 1)) ?xs)"
      using u(1) \<open>u \<notin> set rest\<close> by (metis UnE append_take_drop_id set_append)
    then have "nat (?cap - 1) < length ?xs" by (metis drop_eq_Nil2 emptyE list.set(1) not_le)
    then have "int (length (lm_visitors l)) = ?cap" using assms(4,5) len by linarith
    moreover have "vi_lastSeen u \<le> vi_lastSeen w" if "w \<in> set rest" for w
      using by_recency_cut [OF assms(2) d] that rest by simp
    ultimately show ?thesis using a v(2) assms(3) u(1) by auto
  qed
  have "by_recency (lru_abs l')" "\<forall>w \<in> set (lru_abs l'). vi_lastSeen w \<le> now" "key \<in> vi_key ` set (lru_abs l')"
    using rec v assms(3) by (auto simp: a by_recency_def)
  then show ?thesis using cap ok'(2) evicted by simp
qed

lemma evict_stale_filter:
  assumes "lim_ok l" and "by_recency (lru_abs l)"
  shows "lru_abs (evict_stale now l) = filter (\<lambda>v. time_since now (vi_lastSeen v) \<le> lm_staleAfter l) (lru_abs l) \<and>
    lim_ok (evict_stale now l)"
proof -
  let ?P = "is_stale now (lm_staleAfter l)"
  have "sorted_wrt (\<lambda>v w. ?P w \<longrightarrow> ?P v) (rev (lru_abs l))"
  proof (rule sorted_wrt_mono_rel)
    show "sorted_wrt (\<lambda>v w. vi_lastSeen v \<le> vi_lastSeen w) (rev (lru_abs l))"
      using assms(2) by (simp add: by_recency_def sorted_wrt_rev)
    fix v w :: "'b visitor"
    assume "vi_lastSeen v \<le> vi_lastSeen w"
    then show "?P w \<longrightarrow> ?P v" by (auto simp: is_stale_def time_since_def)
  qed
  then have "dropWhile ?P (rev (lru_abs l)) = rev (filter (\<lambda>v. \<not> ?P v) (lru_abs l))"
    by (simp add: dropWhile_sorted rev_filter)
  then show ?thesis using evict_stale_ok [OF assms(1)] by (simp add: is_stale_def not_less)
qed

section \<open>Lemmas: the Retry-After header\<close>

lemma f64_div_fraction:
  assumes "0 < n" "n < 10 ^ 9"
  shows "\<exists>x. f64_div n (10 ^ 9) = (x, 121) \<and> 2 ^ 91 \<le> x \<and> x \<le> 2 ^ 121"
proof -
  define q where "q = n * 2 ^ 120 div 10 ^ 9"
  define m where "m = 2 * q + (if n * 2 ^ 120 mod 10 ^ 9 = 0 then 0 else 1)"
  have "(2 :: int) ^ 90 * 10 ^ 9 \<le> n * 2 ^ 120" using assms(1) by simp
  then have "(2 :: int) ^ 90 * 10 ^ 9 div 10 ^ 9 \<le> q" unfolding q_def by (rule zdiv_mono1) simp
  moreover have "(2 :: int) ^ 90 * 10 ^ 9 div 10 ^ 9 = 2 ^ 90" by (rule nonzero_mult_div_cancel_right) simp
  ultimately have q1: "2 ^ 90 \<le> q" by (simp only:)
  have "q * 10 ^ 9 \<le> n * 2 ^ 120"
    unfolding q_def by (subst (2) div_mult_mod_eq [of "n * 2 ^ 120" "10 ^ 9", symmetric])
      (simp only: le_add_same_cancel1 pos_mod_sign zero_less_power zero_less_numeral)
  moreover have "n * 2 ^ 120 < 2 ^ 120 * 10 ^ 9" using assms(2) by simp
  ultimately have "q * 10 ^ 9 < 2 ^ 120 * 10 ^ 9" by (rule order.strict_trans1)
  then have q2: "q < 2 ^ 120" by (rule mult_right_less_imp_less) simp
  have "2 * q \<le> m" "m \<le> 2 * q + 1" by (simp_all only: m_def split: if_split) simp_all
  then have m: "1 * 2 ^ 91 \<le> m" "m \<le> 1 * 2 ^ 121" using q1 q2 by simp_all
  have "round53 (1 * 2 ^ 91) \<le> round53 m" "round53 m \<le> round53 (1 * 2 ^ 121)"
    using m by (intro round53_mono; simp)+
  moreover have "round53 (1 * 2 ^ 91) = 1 * 2 ^ 91" "round53 (1 * 2 ^ 121) = 1 * 2 ^ 121" by (rule round53_exact; simp)+
  moreover have "0 \<le> m" using m by simp
  moreover have "f64_div n (10 ^ 9) = f64_round (m, 121)" by (simp only: f64_div_def q_def m_def)
  ultimately show ?thesis by (simp add: f64_round_nonneg)
qed

lemma f64_ceil_between:
  assumes "s * 2 ^ k < y" and "y \<le> (s + 1) * 2 ^ k"
  shows "f64_ceil (y, k) = s + 1"
proof -
  have "- y = 2 ^ k * (- (s + 1)) + ((s + 1) * 2 ^ k - y)" by (simp add: algebra_simps)
  moreover have "0 \<le> (s + 1) * 2 ^ k - y" "(s + 1) * 2 ^ k - y < 2 ^ k"
    using assms unfolding distrib_right by linarith+
  ultimately have "- y div 2 ^ k = - (s + 1)" by (rule int_div_pos_eq)
  then show ?thesis by (simp add: f64_ceil_def)
qed

lemma seconds_ceil:
  assumes "0 \<le> s" "s < 2 ^ 23" "0 \<le> n" "n < 10 ^ 9"
  shows "f64_ceil (duration_seconds (s * 10 ^ 9 + n)) = (if n = 0 then s else s + 1)"
proof -
  have "(s * 10 ^ 9 + n) div 10 ^ 9 = s" by (rule int_div_pos_eq [of _ _ _ n]) (use assms in simp_all)
  moreover have "(s * 10 ^ 9 + n) mod 10 ^ 9 = n" using assms by simp
  moreover have "f64_of_int s = (s, 0)" using f64_round_exact [of s 0 0] assms by (simp add: f64_of_int_def)
  ultimately have dur: "duration_seconds (s * 10 ^ 9 + n) = f64_add (s, 0) (f64_div n (10 ^ 9))"
    by (simp only: duration_seconds_def)
  show ?thesis
  proof (cases "n = 0")
    case True
    have "f64_div 0 (10 ^ 9) = (0, 121)" by (simp add: f64_div_def f64_round_def)
    moreover have "f64_round (s * 2 ^ 121, 121) = (s * 2 ^ 121, 121)" by (rule f64_round_exact) (use assms in simp)
    ultimately have "duration_seconds (s * 10 ^ 9 + n) = (s * 2 ^ 121, 121)"
      unfolding dur by (simp add: True f64_add_def)
    then show ?thesis using True by (simp add: f64_ceil_def)
  next
    case False
    then obtain x where x: "f64_div n (10 ^ 9) = (x, 121)" "2 ^ 91 \<le> x" "x \<le> 2 ^ 121"
      using f64_div_fraction [of n] assms by auto
    have sum: "duration_seconds (s * 10 ^ 9 + n) = (round53 (s * 2 ^ 121 + x), 121)"
      unfolding dur x(1) using assms x(2) by (simp add: f64_add_def f64_round_nonneg)
    have "round53 ((s * 2 ^ 30 + 1) * 2 ^ 91) = (s * 2 ^ 30 + 1) * 2 ^ 91"
      "round53 ((s + 1) * 2 ^ 121) = (s + 1) * 2 ^ 121"
      by (rule round53_exact; use assms in simp)+
    moreover have "round53 ((s * 2 ^ 30 + 1) * 2 ^ 91) \<le> round53 (s * 2 ^ 121 + x)"
      "round53 (s * 2 ^ 121 + x) \<le> round53 ((s + 1) * 2 ^ 121)"
      using assms x(2,3) by (intro round53_mono; simp)+
    ultimately have "s * 2 ^ 121 < round53 (s * 2 ^ 121 + x)" "round53 (s * 2 ^ 121 + x) \<le> (s + 1) * 2 ^ 121"
      by simp_all
    then show ?thesis using False sum f64_ceil_between by simp
  qed
qed

section \<open>Lemmas: the client's key\<close>

lemma split_on_snoc: "split_on c (s @ c # p) = split_on c s @ split_on c p"
  by (induction s) (auto split: list.splits)

lemma lastHeaderValue_last:
  assumes "CHR '','' \<notin> set p" and "trim_space p \<noteq> []"
  shows "lastHeaderValue p = trim_space p" "lastHeaderValue (s @ CHR '','' # p) = trim_space p"
  using assms by (simp_all add: lastHeaderValue_def split_on_snoc split_on_notin)

lemma join_snoc: "vs \<noteq> [] \<Longrightarrow> join '','' (vs @ [v]) = join '','' vs @ CHR '','' # v"
proof (induction vs rule: list_nonempty_induct)
  case (cons x xs)
  then show ?case by (cases "xs @ [v]"; cases xs) auto
qed simp

section \<open>The middleware is a guard\<close>

interpretation throttle: http_guard "Middleware ops ip now" 429 RateLimited
proof unfold_locales
  fix r g
  obtain ok ra l' where a: "allow ops (clientIP ip g r) now g = ((ok, ra), l')" by (metis prod.exhaust)
  show "\<exists>ok g' resp. resp_status resp = 429 \<and>
    (\<forall>nxt st. Middleware ops ip now nxt r (g, st) =
       (if ok then case nxt r st of (rs, es, st') \<Rightarrow> (rs, es, g', st') else (Some resp, [Inc RateLimited []], g', st)))"
    by (intro exI [of _ ok] exI [of _ l'] exI [of _ "http_error ''rate limit exceeded'' 429 [(''Retry-After'', itoa (retryAfterSeconds ra))]"])
      (simp add: Middleware_def a Let_def)
qed

section \<open>A concrete limiter\<close>

text \<open>
  A bucket that only counts: it holds a number of tokens and never refills. Every address is opaque.
\<close>

definition demo_bucket :: "(unit, int, int) bucket_ops" where
  "demo_bucket =
     \<lparr>bk_new = (\<lambda>q b. b), bk_reserve = (\<lambda>now b. (b, b - 1)), bk_ok = (\<lambda>r. True),
      bk_delay = (\<lambda>r now. if r > 0 then 0 else 10 ^ 9), bk_cancel = (\<lambda>r now b. b + 1)\<rparr>"

definition demo_netip :: "unit netip" where
  "demo_netip =
     \<lparr>ip_parse = (\<lambda>s. None), ip_no_zone = id, ip_unmap = id, ip_is4 = (\<lambda>a. False), ip_string = (\<lambda>a. []),
      ip_prefix = (\<lambda>a n. None)\<rparr>"

definition demo_limiter :: "(unit, int) limiter" where
  "demo_limiter =
     snd (allow demo_bucket ''b'' 2 (snd (allow demo_bucket ''a'' 1 (New () 1 [withMaxVisitors 2]))))"

lemma lim_ok_New: "lim_ok (New q burst [withMaxVisitors n])" "lru_abs (New q burst [withMaxVisitors n]) = []"
  by (simp_all add: New_def withMaxVisitors_def lim_ok_def lru_abs_def)

lemma demo_limiter_ok: "lim_ok demo_limiter"
  unfolding demo_limiter_def by (intro allow_refines [THEN conjunct2, THEN conjunct2, THEN conjunct1] lim_ok_New)

lemma demo_limiter_facts:
  "map vi_key (lru_abs demo_limiter) = [''b'', ''a'']" "map vi_lastSeen (lru_abs demo_limiter) = [2, 1]"
  "lm_maxVisitors demo_limiter = 2" "length (lm_visitors demo_limiter) = 2" "lm_staleAfter demo_limiter = defaultStaleAfter"
  by code_simp+

section \<open>Properties\<close>

text \<open>
  C18: the map and the linked list implement an LRU cache of visitors. Whatever the bucket does, \<^verbatim>\<open>allow\<close> answers
  and changes the clients as the one-list specification does, and the map, the list and the store stay in
  agreement: no entry of the map dangles and no element of the list is lost.
\<close>

theorem limiter_refines_lru:
  assumes "lim_ok l"
  shows "fst (allow ops key now l) =
      fst (lru_allow ops key now (bk_new ops (lm_rate l) (lm_burst l)) (lm_maxVisitors l) (lru_abs l)) \<and>
    lru_abs (snd (allow ops key now l)) =
      snd (lru_allow ops key now (bk_new ops (lm_rate l) (lm_burst l)) (lm_maxVisitors l) (lru_abs l)) \<and>
    lim_ok (snd (allow ops key now l))"
  using allow_refines [OF assms] by blast

theorem limiter_refines_lru_witness:
  "fst (allow demo_bucket ''a'' 3 demo_limiter) =
     fst (lru_allow demo_bucket ''a'' 3 (bk_new demo_bucket (lm_rate demo_limiter) (lm_burst demo_limiter))
       (lm_maxVisitors demo_limiter) (lru_abs demo_limiter)) \<and>
   lru_abs (snd (allow demo_bucket ''a'' 3 demo_limiter)) =
     snd (lru_allow demo_bucket ''a'' 3 (bk_new demo_bucket (lm_rate demo_limiter) (lm_burst demo_limiter))
       (lm_maxVisitors demo_limiter) (lru_abs demo_limiter)) \<and>
   lim_ok (snd (allow demo_bucket ''a'' 3 demo_limiter))"
  by (rule limiter_refines_lru [OF demo_limiter_ok])

text \<open>
  C36: behind a proxy a client cannot pick its bucket. With a client IP header configured, whatever header
  lines and entries the client sends, the key is the entry the proxy adds last, as its own line or at the
  end of the last line.
\<close>

theorem proxy_entry_wins:
  assumes "lm_clientIPHeader l \<noteq> []" and "CHR '','' \<notin> set entry" and "trim_space entry \<noteq> []"
    and "header_values (lm_clientIPHeader l) r = client_lines @ [client_entries @ entry]"
    and "client_entries = [] \<or> last client_entries = CHR '',''"
  shows "clientIP ip l r = normalizeIP ip l (stripPort (trim_space entry))"
proof -
  have "\<exists>s. join '','' (client_lines @ [client_entries @ entry]) = s @ CHR '','' # entry \<or>
      join '','' (client_lines @ [client_entries @ entry]) = entry"
  proof (cases "client_entries = []")
    case True
    then show ?thesis using join_snoc [of client_lines entry] by (cases "client_lines = []") auto
  next
    case False
    then obtain pre where pre: "client_entries = pre @ [CHR '','']" using assms(5) by (metis append_butlast_last_id)
    show ?thesis
    proof (cases "client_lines = []")
      case True
      then show ?thesis using pre by auto
    next
      case lines: False
      have "join '','' (client_lines @ [client_entries @ entry]) =
          (join '','' client_lines @ CHR '','' # pre) @ CHR '','' # entry"
        using join_snoc [OF lines, of "client_entries @ entry"] pre by simp
      then show ?thesis by blast
    qed
  qed
  then have "lastHeaderValue (join '','' (client_lines @ [client_entries @ entry])) = trim_space entry"
    using lastHeaderValue_last [OF assms(2,3)] by auto
  then show ?thesis using assms(1,3) by (simp add: clientIP_def assms(4) Let_def)
qed

theorem proxy_entry_wins_witness:
  "clientIP demo_netip (WithClientIPHeader ''X-Forwarded-For'' demo_limiter)
     \<lparr>req_method = ''POST'', req_path = [],
      req_headers = [(''X-Forwarded-For'', ''6.6.6.6''), (''x-forwarded-for'', ''7.7.7.7,10.0.0.9:1234'')],
      req_remote = ''10.0.0.1:5000'', req_data = [], req_fails = False\<rparr> = ''10.0.0.9''"
proof -
  let ?l = "WithClientIPHeader ''X-Forwarded-For'' demo_limiter"
  let ?r = "\<lparr>req_method = ''POST'', req_path = [],
      req_headers = [(''X-Forwarded-For'', ''6.6.6.6''), (''x-forwarded-for'', ''7.7.7.7,10.0.0.9:1234'')],
      req_remote = ''10.0.0.1:5000'', req_data = [], req_fails = False\<rparr>"
  have t: "trim_space ''10.0.0.9:1234'' = ''10.0.0.9:1234''" by code_simp
  have "clientIP demo_netip ?l ?r = normalizeIP demo_netip ?l (stripPort (trim_space ''10.0.0.9:1234''))"
  proof (rule proxy_entry_wins)
    show "header_values (lm_clientIPHeader ?l) ?r = [''6.6.6.6''] @ [''7.7.7.7,'' @ ''10.0.0.9:1234'']" by code_simp
  qed (simp_all add: WithClientIPHeader_def t)
  then show ?thesis unfolding t by (simp add: normalizeIP_def demo_netip_def) code_simp
qed

text \<open>
  C37: the \<^verbatim>\<open>Retry-After\<close> of a 429 is the delay rounded up to whole seconds, at least one. For delays below 97
  days the float64 arithmetic is exact enough: the header never asks a client to come back too early, nor a
  second too late.
\<close>

theorem retry_after_rounds_up:
  assumes "0 \<le> d" and "d < 2 ^ 23 * 10 ^ 9"
  shows "d \<le> retryAfterSeconds d * 10 ^ 9 \<and> 1 \<le> retryAfterSeconds d \<and>
    (retryAfterSeconds d = 1 \<or> (retryAfterSeconds d - 1) * 10 ^ 9 < d)"
proof -
  define s where "s = d div 10 ^ 9"
  define n where "n = d mod 10 ^ 9"
  have d: "d = s * 10 ^ 9 + n" by (simp add: s_def n_def)
  have n: "0 \<le> n" "n < 10 ^ 9" by (simp_all add: n_def)
  have "0 \<le> s" using assms(1) by (simp add: s_def pos_imp_zdiv_nonneg_iff)
  moreover have "s * 10 ^ 9 < 2 ^ 23 * 10 ^ 9" using assms(2) d n by linarith
  then have "s < 2 ^ 23" by (rule mult_right_less_imp_less) simp
  ultimately have "f64_ceil (duration_seconds d) = (if n = 0 then s else s + 1)"
    unfolding d using n by (intro seconds_ceil)
  then have "retryAfterSeconds d = max 1 (if n = 0 then s else s + 1)"
    by (simp add: retryAfterSeconds_def Let_def max_def)
  then show ?thesis using \<open>0 \<le> s\<close> n by (auto simp: d max_def algebra_simps)
qed

theorem retry_after_rounds_up_witness:
  "retryAfterSeconds 2500000000 = 3"
proof -
  define k where "k = retryAfterSeconds 2500000000"
  have "2500000000 \<le> k * 10 ^ 9 \<and> 1 \<le> k \<and> (k = 1 \<or> (k - 1) * 10 ^ 9 < 2500000000)"
    unfolding k_def by (rule retry_after_rounds_up) simp_all
  then have "5 \<le> 2 * k \<and> (k = 1 \<or> 2 * k < 7)" by auto
  then show ?thesis unfolding k_def [symmetric] by presburger
qed

end
