(* ===== verification/Config.thy ===== *)
theory Config
  imports Go_Values Tokenfile Auth Processor Forward Ratelimit
begin

text \<open>
  The settings of \<^verbatim>\<open>cmd/otherlode-collector/main.go\<close>: each \<^verbatim>\<open>resolve\<close> function reads environment variables and
  returns a value or an error, and the program does not start on an error. \<open>getenv\<close> is the environment and
  \<open>fs\<close> what a read of a path meets at that moment.

  \<^verbatim>\<open>strconv.ParseFloat\<close> and \<^verbatim>\<open>regexp.Compile\<close> are the parameters \<open>parse_float\<close> and \<open>compile\<close>, and
  \<^verbatim>\<open>runtime.GOMAXPROCS(0)\<close> is \<open>gomaxprocs\<close>. The rest of the library calls is in the theories this one imports.
\<close>

section \<open>Errors\<close>

text \<open>
  The errors, by the variable they name: a text of the program's own, or the wrapped error of the library call
  that refused the value.
\<close>

datatype config_error =
    CfgText string
  | CfgWrap string string
  | CfgAtoi string string
  | CfgFloat string string
  | CfgDuration string string
  | CfgBool string string
  | CfgLevel string string
  | CfgAction string action_error
  | CfgRegexp string nat string

type_synonym env = "string \<Rightarrow> string"
type_synonym files = "string \<Rightarrow> file_view"

section \<open>Log level and tokens\<close>

definition authFileLabel :: string where
  "authFileLabel = ''auth''"

definition forwardFileLabel :: string where
  "forwardFileLabel = ''forward''"

definition resolveLogLevel :: "string \<Rightarrow> config_error + int" where
  "resolveLogLevel raw =
     (if raw = [] then Inr 0
      else (case UnmarshalLevel raw of
              None \<Rightarrow> Inl (CfgLevel ''OTHERLODE_COLLECTOR_LOG_LEVEL'' raw)
            | Some level \<Rightarrow> Inr level))"

fun token_entries :: "nat \<Rightarrow> nat \<Rightarrow> string list \<Rightarrow> string + string list" where
  "token_entries i n [] = Inr []"
| "token_entries i n (part # parts) =
     (let token = trim_space part in
      if token = [] then Inl (''entry '' @ utoa (i + 1) @ '' of '' @ utoa n @ '' is empty'')
      else (case token_entries (i + 1) n parts of Inl e \<Rightarrow> Inl e | Inr tokens \<Rightarrow> Inr (token # tokens)))"

definition parseTokenList :: "string \<Rightarrow> string + string list" where
  "parseTokenList raw = (let parts = split_on CHR '','' raw in token_entries 0 (length parts) parts)"

text \<open>\<^verbatim>\<open>tokens.Store\<close> as the function a token file applies; it cannot panic.\<close>

definition store_tokens :: "(string \<Rightarrow> 'h) \<Rightarrow> 'h TokenSet token_apply" where
  "store_tokens sha tokens s = Some (Store sha tokens s)"

text \<open>The result is \<open>None\<close> when a function the program calls panics.\<close>

definition resolveAuthTokens ::
  "(string \<Rightarrow> 'h) \<Rightarrow> env \<Rightarrow> files \<Rightarrow> (config_error + ('h TokenSet option \<times> 'h TokenSet File option)) option" where
  "resolveAuthTokens sha getenv fs =
     (let raw = getenv ''OTHERLODE_COLLECTOR_AUTH_TOKEN'';
          path = getenv ''OTHERLODE_COLLECTOR_AUTH_TOKEN_FILE''
      in if raw \<noteq> [] \<and> path \<noteq> [] then
           Some (Inl (CfgText ''OTHERLODE_COLLECTOR_AUTH_TOKEN and OTHERLODE_COLLECTOR_AUTH_TOKEN_FILE are both set; set one''))
         else if path \<noteq> [] then
           (case Open path authFileLabel AtLeastOne (store_tokens sha) (fs path) zero_TokenSet of
              None \<Rightarrow> None
            | Some (Inl e, s) \<Rightarrow> Some (Inl (CfgWrap ''OTHERLODE_COLLECTOR_AUTH_TOKEN_FILE'' e))
            | Some (Inr f, s) \<Rightarrow> Some (Inr (Some s, Some f)))
         else if raw \<noteq> [] then
           (case parseTokenList raw of
              Inl e \<Rightarrow> Some (Inl (CfgWrap ''OTHERLODE_COLLECTOR_AUTH_TOKEN'' e))
            | Inr tokens \<Rightarrow> Some (Inr (Some (NewTokenSet sha tokens), None)))
         else
           (case parse_bool (getenv ''OTHERLODE_COLLECTOR_INSECURE_NO_AUTH'') of
              Some True \<Rightarrow> Some (Inr (None, None))
            | _ \<Rightarrow> Some (Inl (CfgText
                (''neither OTHERLODE_COLLECTOR_AUTH_TOKEN nor OTHERLODE_COLLECTOR_AUTH_TOKEN_FILE is set; '' @
                 ''refusing to start without auth (set OTHERLODE_COLLECTOR_INSECURE_NO_AUTH=1 to run unauthenticated)'')))))"

section \<open>The backend key\<close>

record forwardKey =
  fk_key :: "string option"

definition new_forwardKey :: forwardKey where
  "new_forwardKey = \<lparr>fk_key = None\<rparr>"

definition Token :: "forwardKey token_source" where
  "Token k = (case fk_key k of Some t \<Rightarrow> t | None \<Rightarrow> [])"

text \<open>\<^verbatim>\<open>tokens[0]\<close> panics on an empty list.\<close>

definition store :: "forwardKey token_apply" where
  "store tokens k = (case tokens of [] \<Rightarrow> None | t # ts \<Rightarrow> Some (k\<lparr>fk_key := Some t\<rparr>))"

definition is_control :: "char \<Rightarrow> bool" where
  "is_control c \<longleftrightarrow> (of_char c :: nat) < 0x20 \<or> (of_char c :: nat) = 0x7F"

fun header_value_from :: "nat \<Rightarrow> string \<Rightarrow> string option" where
  "header_value_from i [] = None"
| "header_value_from i (c # s) =
     (if is_control c then Some (''the key holds a control character at byte '' @ utoa i)
      else header_value_from (i + 1) s)"

definition checkHeaderValue :: "string \<Rightarrow> string option" where
  "checkHeaderValue key = header_value_from 0 key"

definition checkForwardKeys :: token_check where
  "checkForwardKeys tokens =
     (case ExactlyOne tokens of Some e \<Rightarrow> Some e | None \<Rightarrow> checkHeaderValue (hd tokens))"

section \<open>Rate limit\<close>

datatype go_float = FNaN | FInf bool | FFin f64

definition f64_finite :: "go_float \<Rightarrow> bool" where
  "f64_finite x = (case x of FFin r \<Rightarrow> True | _ \<Rightarrow> False)"

definition f64_neg :: "go_float \<Rightarrow> bool" where
  "f64_neg x = (case x of FFin (m, k) \<Rightarrow> m < 0 | _ \<Rightarrow> False)"

definition f64_pos :: "go_float \<Rightarrow> bool" where
  "f64_pos x = (case x of FFin (m, k) \<Rightarrow> m > 0 | _ \<Rightarrow> False)"

definition defaultRateLimitRPS :: go_float where
  "defaultRateLimitRPS = FFin (5, 0)"

definition defaultRateLimitBurst :: int where
  "defaultRateLimitBurst = 20"

definition resolveRateLimit ::
  "(string \<Rightarrow> go_float option) \<Rightarrow> string \<Rightarrow> string \<Rightarrow> config_error + (go_float \<times> int)" where
  "resolveRateLimit parse_float rpsRaw burstRaw =
     (case (if rpsRaw = [] then Some defaultRateLimitRPS else parse_float rpsRaw) of
        None \<Rightarrow> Inl (CfgFloat ''OTHERLODE_COLLECTOR_RATE_LIMIT_RPS'' rpsRaw)
      | Some rps \<Rightarrow>
     (case (if burstRaw = [] then Some defaultRateLimitBurst else atoi burstRaw) of
        None \<Rightarrow> Inl (CfgAtoi ''OTHERLODE_COLLECTOR_RATE_LIMIT_BURST'' burstRaw)
      | Some burst \<Rightarrow>
      if \<not> f64_finite rps then Inl (CfgText ''OTHERLODE_COLLECTOR_RATE_LIMIT_RPS must be a finite number'')
      else if f64_neg rps then Inl (CfgText ''OTHERLODE_COLLECTOR_RATE_LIMIT_RPS must not be negative'')
      else if f64_pos rps \<and> burst \<le> 0 then
        Inl (CfgText ''OTHERLODE_COLLECTOR_RATE_LIMIT_BURST must be positive when rate limiting is enabled'')
      else Inr (rps, burst)))"

definition resolveIPv6Prefix :: "string \<Rightarrow> config_error + int" where
  "resolveIPv6Prefix raw =
     (if raw = [] then Inr DefaultIPv6Prefix
      else (case atoi raw of
              None \<Rightarrow> Inl (CfgAtoi ''OTHERLODE_COLLECTOR_RATE_LIMIT_IPV6_PREFIX'' raw)
            | Some bits \<Rightarrow>
                if bits < 1 \<or> bits > 128 then Inl (CfgText ''OTHERLODE_COLLECTOR_RATE_LIMIT_IPV6_PREFIX must be from 1 to 128'')
                else Inr bits))"

section \<open>Forwarding\<close>

definition positiveIntEnv :: "env \<Rightarrow> string \<Rightarrow> config_error + int" where
  "positiveIntEnv getenv name =
     (let raw = getenv name in
      if raw = [] then Inr 0
      else (case atoi raw of
              None \<Rightarrow> Inl (CfgAtoi name raw)
            | Some n \<Rightarrow> if n \<le> 0 then Inl (CfgText (name @ '' must be positive'')) else Inr n))"

definition positiveDurationEnv :: "env \<Rightarrow> string \<Rightarrow> config_error + int" where
  "positiveDurationEnv getenv name =
     (let raw = getenv name in
      if raw = [] then Inr 0
      else (case ParseDuration raw of
              None \<Rightarrow> Inl (CfgDuration name raw)
            | Some d \<Rightarrow> if d \<le> 0 then Inl (CfgText (name @ '' must be positive'')) else Inr d))"

text \<open>The key part of \<^verbatim>\<open>resolveForwardConfig\<close>: the token source, the file it comes from, and the state of the key.\<close>

definition resolve_forward_key ::
  "env \<Rightarrow> files \<Rightarrow> (config_error + (forwardKey token_source option \<times> forwardKey File option \<times> forwardKey)) option" where
  "resolve_forward_key getenv fs =
     (let url = getenv ''OTHERLODE_COLLECTOR_FORWARD_URL'';
          raw = getenv ''OTHERLODE_COLLECTOR_FORWARD_AUTH_TOKEN'';
          token = trim_space raw;
          path = getenv ''OTHERLODE_COLLECTOR_FORWARD_AUTH_TOKEN_FILE''
      in if url = [] \<and> (raw \<noteq> [] \<or> path \<noteq> []) then
           Some (Inl (CfgText
             (''OTHERLODE_COLLECTOR_FORWARD_AUTH_TOKEN or OTHERLODE_COLLECTOR_FORWARD_AUTH_TOKEN_FILE is set but OTHERLODE_COLLECTOR_FORWARD_URL is empty; '' @
              ''set OTHERLODE_COLLECTOR_FORWARD_URL or unset the key variable'')))
         else if raw \<noteq> [] \<and> path \<noteq> [] then
           Some (Inl (CfgText ''OTHERLODE_COLLECTOR_FORWARD_AUTH_TOKEN and OTHERLODE_COLLECTOR_FORWARD_AUTH_TOKEN_FILE are both set; set one''))
         else if raw \<noteq> [] \<and> token = [] then
           Some (Inl (CfgText ''OTHERLODE_COLLECTOR_FORWARD_AUTH_TOKEN holds only spaces''))
         else if path \<noteq> [] then
           (case Open path forwardFileLabel checkForwardKeys store (fs path) new_forwardKey of
              None \<Rightarrow> None
            | Some (Inl e, k) \<Rightarrow> Some (Inl (CfgWrap ''OTHERLODE_COLLECTOR_FORWARD_AUTH_TOKEN_FILE'' e))
            | Some (Inr f, k) \<Rightarrow> Some (Inr (Some Token, Some f, k)))
         else if token \<noteq> [] then
           (case checkHeaderValue token of
              Some e \<Rightarrow> Some (Inl (CfgWrap ''OTHERLODE_COLLECTOR_FORWARD_AUTH_TOKEN'' e))
            | None \<Rightarrow> Some (Inr (Some (StaticToken token), None, new_forwardKey)))
         else Some (Inr (None, None, new_forwardKey)))"

text \<open>The settings that fall back to the defaults of the forward package when they are 0.\<close>

definition resolve_forward_limits :: "env \<Rightarrow> 'k config \<Rightarrow> config_error + 'k config" where
  "resolve_forward_limits getenv cfg =
     (case positiveIntEnv getenv ''OTHERLODE_COLLECTOR_FORWARD_SHARDS'' of Inl e \<Rightarrow> Inl e | Inr shards \<Rightarrow>
     (case positiveIntEnv getenv ''OTHERLODE_COLLECTOR_FORWARD_QUEUE_SIZE'' of Inl e \<Rightarrow> Inl e | Inr qsize \<Rightarrow>
     (case positiveIntEnv getenv ''OTHERLODE_COLLECTOR_FORWARD_QUEUE_BYTES'' of Inl e \<Rightarrow> Inl e | Inr bytes \<Rightarrow>
     (case positiveDurationEnv getenv ''OTHERLODE_COLLECTOR_FORWARD_REQUEST_TIMEOUT'' of Inl e \<Rightarrow> Inl e | Inr timeout \<Rightarrow>
     (case positiveDurationEnv getenv ''OTHERLODE_COLLECTOR_FORWARD_RETRY_INITIAL_INTERVAL'' of Inl e \<Rightarrow> Inl e | Inr initial \<Rightarrow>
     (case positiveDurationEnv getenv ''OTHERLODE_COLLECTOR_FORWARD_RETRY_MAX_INTERVAL'' of Inl e \<Rightarrow> Inl e | Inr maxi \<Rightarrow>
     (case positiveDurationEnv getenv ''OTHERLODE_COLLECTOR_FORWARD_RETRY_MAX_ELAPSED_TIME'' of Inl e \<Rightarrow> Inl e | Inr elapsed \<Rightarrow>
      Inr (cfg\<lparr>cf_Shards := shards, cf_QueueSize := qsize, cf_QueueBytes := bytes, cf_RequestTimeout := timeout,
              cf_RetryInitialInterval := initial, cf_RetryMaxInterval := maxi, cf_RetryMaxElapsedTime := elapsed\<rparr>))))))))"

definition zero_config :: "string \<Rightarrow> 'k token_source option \<Rightarrow> 'k config" where
  "zero_config url src =
     \<lparr>cf_URL = url, cf_AuthToken = src, cf_Shards = 0, cf_QueueSize = 0, cf_QueueBytes = 0, cf_HTTPClient = None,
      cf_RequestTimeout = 0, cf_RetryInitialInterval = 0, cf_RetryMaxInterval = 0, cf_RetryMaxElapsedTime = 0\<rparr>"

definition resolveForwardConfig ::
  "env \<Rightarrow> files \<Rightarrow> (config_error + (forwardKey config \<times> forwardKey File option \<times> forwardKey)) option" where
  "resolveForwardConfig getenv fs =
     (case resolve_forward_key getenv fs of
        None \<Rightarrow> None
      | Some (Inl e) \<Rightarrow> Some (Inl e)
      | Some (Inr (src, file, k)) \<Rightarrow>
          (case resolve_forward_limits getenv (zero_config (getenv ''OTHERLODE_COLLECTOR_FORWARD_URL'') src) of
             Inl e \<Rightarrow> Some (Inl e)
           | Inr cfg \<Rightarrow> Some (Inr (cfg, file, k))))"

definition resolveMaxConcurrentDecodes :: "int \<Rightarrow> env \<Rightarrow> config_error + int" where
  "resolveMaxConcurrentDecodes gomaxprocs getenv =
     (case positiveIntEnv getenv ''OTHERLODE_COLLECTOR_MAX_CONCURRENT_DECODES'' of
        Inl e \<Rightarrow> Inl e
      | Inr n \<Rightarrow> if n = 0 then Inr gomaxprocs else Inr n)"

section \<open>Processors\<close>

definition resolveEnvironment :: "string \<Rightarrow> string \<Rightarrow> config_error + env_config" where
  "resolveEnvironment valueRaw actionRaw =
     (let value = trim_space valueRaw in
      if \<not> ValidString value then Inl (CfgText ''OTHERLODE_COLLECTOR_ENVIRONMENT is not valid UTF-8'')
      else
     (case ParseAction actionRaw of
        Inl e \<Rightarrow> Inl (CfgAction ''OTHERLODE_COLLECTOR_ENVIRONMENT_ACTION'' e)
      | Inr act \<Rightarrow>
      if value = [] then
        (if actionRaw \<noteq> [] then
           Inl (CfgText (''OTHERLODE_COLLECTOR_ENVIRONMENT_ACTION is set but OTHERLODE_COLLECTOR_ENVIRONMENT is empty; '' @
             ''set OTHERLODE_COLLECTOR_ENVIRONMENT or unset OTHERLODE_COLLECTOR_ENVIRONMENT_ACTION''))
         else Inr \<lparr>ec_value = [], ec_action = Insert\<rparr>)
      else Inr \<lparr>ec_value = value, ec_action = act\<rparr>))"

definition resolveNamespace :: "string \<Rightarrow> string \<Rightarrow> config_error + ns_config" where
  "resolveNamespace valueRaw actionRaw =
     (let value = trim_space valueRaw in
      if \<not> ValidString value then Inl (CfgText ''OTHERLODE_COLLECTOR_SERVICE_NAMESPACE is not valid UTF-8'')
      else
     (case ParseAction actionRaw of
        Inl e \<Rightarrow> Inl (CfgAction ''OTHERLODE_COLLECTOR_SERVICE_NAMESPACE_ACTION'' e)
      | Inr act \<Rightarrow>
      if value = [] then
        (if actionRaw \<noteq> [] then
           Inl (CfgText (''OTHERLODE_COLLECTOR_SERVICE_NAMESPACE_ACTION is set but OTHERLODE_COLLECTOR_SERVICE_NAMESPACE is empty; '' @
             ''set OTHERLODE_COLLECTOR_SERVICE_NAMESPACE or unset OTHERLODE_COLLECTOR_SERVICE_NAMESPACE_ACTION''))
         else Inr \<lparr>nc_value = [], nc_action = Insert\<rparr>)
      else if value = ''.'' \<or> value = ''..'' then
        Inl (CfgText (''OTHERLODE_COLLECTOR_SERVICE_NAMESPACE is '' @ CHR 0x22 # value @ CHR 0x22 # '', which no URL path can name''))
      else Inr \<lparr>nc_value = value, nc_action = act\<rparr>))"

fun blocked_values :: "(string \<Rightarrow> (string \<Rightarrow> bool) option) \<Rightarrow> nat \<Rightarrow> string list \<Rightarrow> config_error + (string \<Rightarrow> bool) list" where
  "blocked_values compile i [] = Inr []"
| "blocked_values compile i (raw # rest) =
     (let line = trim_suffix [CHR 0x0D] raw in
      if trim_space line = [] then blocked_values compile (i + 1) rest
      else
     (case compile line of
        None \<Rightarrow> Inl (CfgRegexp ''OTHERLODE_COLLECTOR_REDACT_BLOCKED_VALUES'' (i + 1) line)
      | Some re \<Rightarrow>
     (case blocked_values compile (i + 1) rest of Inl e \<Rightarrow> Inl e | Inr res \<Rightarrow> Inr (re # res))))"

definition resolveRedaction ::
  "(string \<Rightarrow> (string \<Rightarrow> bool) option) \<Rightarrow> string \<Rightarrow> string \<Rightarrow> config_error + redaction_config" where
  "resolveRedaction compile blockedRaw allLiteralsRaw =
     (case blocked_values compile 0 (split_on CHR 0x0A blockedRaw) of
        Inl e \<Rightarrow> Inl e
      | Inr res \<Rightarrow>
          if allLiteralsRaw = [] then Inr \<lparr>rc_blocked = res, rc_all = False\<rparr>
          else
            (case parse_bool allLiteralsRaw of
               None \<Rightarrow> Inl (CfgBool ''OTHERLODE_COLLECTOR_REDACT_ALL_LITERALS'' allLiteralsRaw)
             | Some all \<Rightarrow> Inr \<lparr>rc_blocked = res, rc_all = all\<rparr>))"

section \<open>Users of token files\<close>

text \<open>
  The token set and the backend key both keep the contract of a user of token files. For the key it is the
  check that keeps \<^verbatim>\<open>tokens[0]\<close> from panicking.
\<close>

interpretation token_set: token_consumer AtLeastOne "store_tokens sha" "\<lambda>s toks. s = NewTokenSet sha toks \<and> toks \<noteq> []"
  by unfold_locales (auto simp: store_tokens_def Store_NewTokenSet AtLeastOne_def split: if_splits)

definition header_safe :: "string \<Rightarrow> bool" where
  "header_safe s \<longleftrightarrow> list_all (\<lambda>c. \<not> is_control c) s"

lemma header_value_from_None: "header_value_from i s = None \<longleftrightarrow> header_safe s"
  by (induction i s rule: header_value_from.induct) (auto simp: header_safe_def)

lemma checkHeaderValue_None: "checkHeaderValue s = None \<longleftrightarrow> header_safe s"
  by (simp add: checkHeaderValue_def header_value_from_None)

lemma checkForwardKeys_None: "checkForwardKeys toks = None \<longleftrightarrow> (\<exists>t. toks = [t] \<and> header_safe t)"
  by (cases toks) (auto simp: checkForwardKeys_def ExactlyOne_def checkHeaderValue_None split: option.splits)

interpretation forward_key: token_consumer checkForwardKeys store "\<lambda>k toks. toks = [Token k] \<and> header_safe (Token k)"
  by unfold_locales (auto simp: checkForwardKeys_None store_def Token_def)

section \<open>Lemmas\<close>

lemma token_entries_Inr:
  "token_entries i n parts = Inr toks \<longleftrightarrow> toks = map trim_space parts \<and> [] \<notin> set toks"
proof (induction parts arbitrary: i toks)
  case (Cons part parts)
  show ?case using Cons.IH [of "i + 1" "map trim_space parts"] Cons.IH [of "i + 1"]
    by (auto simp: Let_def split: sum.splits)
qed auto

lemma parseTokenList_Inr:
  "parseTokenList raw = Inr toks \<longleftrightarrow> toks = map trim_space (split_on CHR '','' raw) \<and> [] \<notin> set toks"
  by (simp add: parseTokenList_def Let_def token_entries_Inr)

lemma parseTokenList_nonempty: "parseTokenList raw = Inr toks \<Longrightarrow> toks \<noteq> [] \<and> [] \<notin> set toks"
  by (auto simp: parseTokenList_Inr)

lemma load_nonempty: "load path AtLeastOne v = Inr toks \<Longrightarrow> toks \<noteq> [] \<and> [] \<notin> set toks"
  using Parse_tokens
  by (fastforce simp: load_def Read_def AtLeastOne_def is_token_def split: sum.splits option.splits if_splits)

lemma positiveIntEnv_range: "positiveIntEnv getenv name = Inr n \<Longrightarrow> 0 \<le> n \<and> in_int64 n"
  using atoi_range by (auto simp: positiveIntEnv_def in_int64_def Let_def split: option.splits if_splits)

lemma positiveDurationEnv_range: "positiveDurationEnv getenv name = Inr n \<Longrightarrow> 0 \<le> n \<and> in_int64 n"
  using ParseDuration_range by (auto simp: positiveDurationEnv_def in_int64_def Let_def split: option.splits if_splits)

lemma resolve_forward_limits_fields:
  assumes "resolve_forward_limits getenv cfg = Inr cfg'"
  shows "cf_URL cfg' = cf_URL cfg \<and> cf_AuthToken cfg' = cf_AuthToken cfg \<and>
    (\<forall>x \<in> {cf_Shards cfg', cf_QueueSize cfg', cf_QueueBytes cfg', cf_RequestTimeout cfg', cf_RetryInitialInterval cfg',
       cf_RetryMaxInterval cfg', cf_RetryMaxElapsedTime cfg'}. 0 \<le> x \<and> in_int64 x)"
  using assms
  by (auto simp: resolve_forward_limits_def split: sum.splits
      dest: positiveIntEnv_range positiveDurationEnv_range)

text \<open>What the key part yields: no key, a key from the variable, or a key from an open file.\<close>

lemma resolve_forward_key_cases:
  fixes getenv :: env and fs :: files
  defines "path \<equiv> getenv ''OTHERLODE_COLLECTOR_FORWARD_AUTH_TOKEN_FILE''"
  shows "(\<exists>e. resolve_forward_key getenv fs = Some (Inl e)) \<or>
    resolve_forward_key getenv fs = Some (Inr (None, None, new_forwardKey)) \<or>
    getenv ''OTHERLODE_COLLECTOR_FORWARD_URL'' \<noteq> [] \<and>
     ((\<exists>t. header_safe t \<and> resolve_forward_key getenv fs = Some (Inr (Some (StaticToken t), None, new_forwardKey))) \<or>
      (\<exists>f k. Open path forwardFileLabel checkForwardKeys store (fs path) new_forwardKey = Some (Inr f, k) \<and>
         resolve_forward_key getenv fs = Some (Inr (Some Token, Some f, k))))"
proof -
  let ?url = "getenv ''OTHERLODE_COLLECTOR_FORWARD_URL''" and ?raw = "getenv ''OTHERLODE_COLLECTOR_FORWARD_AUTH_TOKEN''"
  note def = resolve_forward_key_def [of getenv fs, folded path_def, unfolded Let_def]
  consider "?url = []" "?raw \<noteq> [] \<or> path \<noteq> []" | "?url \<noteq> []" "?raw \<noteq> []" "path \<noteq> []"
    | "?url \<noteq> []" "?raw \<noteq> []" "path = []" "trim_space ?raw = []"
    | "?raw = []" "path = []" | "?raw = []" "path \<noteq> []" "?url \<noteq> []"
    | "path = []" "trim_space ?raw \<noteq> []" "?url \<noteq> []" "?raw \<noteq> []"
    by blast
  then show ?thesis
  proof cases
    case 5
    then show ?thesis using forward_key.open_cases [of path "fs path" forwardFileLabel new_forwardKey]
      unfolding def by auto
  next
    case 6
    then show ?thesis unfolding def by (cases "checkHeaderValue (trim_space ?raw)") (auto simp flip: checkHeaderValue_None)
  qed (simp_all add: def)
qed

lemma parse_bool_True: "parse_bool s = Some True \<Longrightarrow> s \<in> {''1'', ''t'', ''T'', ''TRUE'', ''true'', ''True''}"
  unfolding parse_bool_def by (metis option.distinct(1) option.inject)

text \<open>The three outcomes of resolving the tokens: an error, no authentication, or a set of tokens.\<close>

lemma resolveAuthTokens_cases:
  fixes getenv :: env and fs :: files and sha :: "string \<Rightarrow> 'h"
  defines "raw \<equiv> getenv ''OTHERLODE_COLLECTOR_AUTH_TOKEN''" and "path \<equiv> getenv ''OTHERLODE_COLLECTOR_AUTH_TOKEN_FILE''"
  obtains (refused) e where "resolveAuthTokens sha getenv fs = Some (Inl e)"
  | (open_access) "resolveAuthTokens sha getenv fs = Some (Inr (None, None))" "raw = []" "path = []"
      "getenv ''OTHERLODE_COLLECTOR_INSECURE_NO_AUTH'' \<in> {''1'', ''t'', ''T'', ''TRUE'', ''true'', ''True''}"
  | (listed) toks where "resolveAuthTokens sha getenv fs = Some (Inr (Some (NewTokenSet sha toks), None))"
      "parseTokenList raw = Inr toks" "path = []"
  | (from_file) toks f where "resolveAuthTokens sha getenv fs = Some (Inr (Some (NewTokenSet sha toks), Some f))"
      "load path AtLeastOne (fs path) = Inr toks" "raw = []"
proof -
  let ?no = "getenv ''OTHERLODE_COLLECTOR_INSECURE_NO_AUTH''"
  note def = resolveAuthTokens_def [of sha getenv fs, folded raw_def path_def, unfolded Let_def]
  consider "raw \<noteq> []" "path \<noteq> []" | "raw = []" "path \<noteq> []" | "raw \<noteq> []" "path = []" | "raw = []" "path = []" by blast
  then show thesis
  proof cases
    case 1
    then show thesis using refused by (simp add: def)
  next
    case 2
    show thesis using token_set.open_cases [of path "fs path" authFileLabel sha zero_TokenSet]
    proof (elim disjE exE conjE)
      fix e assume "Open path authFileLabel AtLeastOne (store_tokens sha) (fs path) zero_TokenSet = Some (Inl e, zero_TokenSet)"
      then show thesis using 2 refused by (simp add: def)
    next
      fix f s assume o: "load path AtLeastOne (fs path) = Inr (f_last f)" "token_set.watched sha path authFileLabel f s"
        "Open path authFileLabel AtLeastOne (store_tokens sha) (fs path) zero_TokenSet = Some (Inr f, s)"
      then have "s = NewTokenSet sha (f_last f)" by (simp add: token_set.watched_def)
      then show thesis using 2 o from_file by (simp add: def)
    qed
  next
    case 3
    then show thesis using refused listed by (cases "parseTokenList raw") (simp_all add: def)
  next
    case 4
    show thesis
    proof (cases "parse_bool ?no = Some True")
      case True
      then show thesis using 4 open_access parse_bool_True by (simp add: def)
    next
      case False
      then have "parse_bool ?no = None \<or> parse_bool ?no = Some False" by (cases "parse_bool ?no") simp_all
      then show thesis using 4 refused by (elim disjE) (simp_all add: def)
    qed
  qed
qed

section \<open>Properties\<close>

text \<open>
  C24: authentication fails closed. Resolving the tokens never panics. When it succeeds, either a non-empty set of
  non-empty tokens is required, from exactly one of the two variables, or none is, and then neither variable
  was set and the operator opted out in so many words. A token file that cannot be read or holds no token is an
  error, whatever the opt-out says.
\<close>

theorem auth_fails_closed:
  "\<exists>result. resolveAuthTokens sha getenv fs = Some result \<and>
    (\<forall>file. result = Inr (None, file) \<longrightarrow>
       file = None \<and> getenv ''OTHERLODE_COLLECTOR_AUTH_TOKEN'' = [] \<and> getenv ''OTHERLODE_COLLECTOR_AUTH_TOKEN_FILE'' = [] \<and>
       getenv ''OTHERLODE_COLLECTOR_INSECURE_NO_AUTH'' \<in> {''1'', ''t'', ''T'', ''TRUE'', ''true'', ''True''}) \<and>
    (\<forall>s file. result = Inr (Some s, file) \<longrightarrow>
       (\<exists>toks. toks \<noteq> [] \<and> [] \<notin> set toks \<and> s = NewTokenSet sha toks \<and>
          (if file = None then parseTokenList (getenv ''OTHERLODE_COLLECTOR_AUTH_TOKEN'') = Inr toks \<and>
             getenv ''OTHERLODE_COLLECTOR_AUTH_TOKEN_FILE'' = []
           else load (getenv ''OTHERLODE_COLLECTOR_AUTH_TOKEN_FILE'') AtLeastOne (fs (getenv ''OTHERLODE_COLLECTOR_AUTH_TOKEN_FILE'')) = Inr toks \<and>
             getenv ''OTHERLODE_COLLECTOR_AUTH_TOKEN'' = [])))"
proof (cases rule: resolveAuthTokens_cases [of sha getenv fs])
  case (listed toks)
  then show ?thesis using parseTokenList_nonempty by auto
next
  case (from_file toks f)
  then show ?thesis using load_nonempty by auto
qed simp_all

theorem auth_fails_closed_witness:
  "resolveAuthTokens id (\<lambda>name. if name = ''OTHERLODE_COLLECTOR_AUTH_TOKEN'' then ''a, b'' else []) (\<lambda>path. undefined) =
     Some (Inr (Some (NewTokenSet id [''a'', ''b'']), None))"
proof -
  let ?env = "\<lambda>name. if name = ''OTHERLODE_COLLECTOR_AUTH_TOKEN'' then ''a, b'' else []"
  have p: "parseTokenList ''a, b'' = Inr [''a'', ''b'']" by code_simp
  obtain r where r: "resolveAuthTokens id ?env (\<lambda>path. undefined) = Some r"
    "\<forall>file. r = Inr (None, file) \<longrightarrow> ?env ''OTHERLODE_COLLECTOR_AUTH_TOKEN'' = []"
    using auth_fails_closed [of id ?env "\<lambda>path. undefined"] by blast
  then show ?thesis using p by (auto simp: resolveAuthTokens_def)
qed

text \<open>
  C25: rotating the token file is safe. Whatever the re-reads meet, nothing panics, and at every moment the token
  set accepts exactly the tokens of the last read that passed, of which there is at least one: a file that is
  gone, truncated or broken changes nothing, and each such read is counted once.
\<close>

theorem auth_rotation:
  assumes "resolveAuthTokens sha getenv fs = Some (Inr (Some s, Some f))"
    and "path = getenv ''OTHERLODE_COLLECTOR_AUTH_TOKEN_FILE''"
  shows "load path AtLeastOne (fs path) = Inr (f_last f) \<and>
    (\<exists>f' s' es. Watch evs f s = Some (f', s', es) \<and>
       s' = NewTokenSet sha (last_good path AtLeastOne (f_last f) (ticks evs)) \<and>
       last_good path AtLeastOne (f_last f) (ticks evs) \<noteq> [] \<and>
       metric_total TokenReloadFailures [''auth''] es = int (bad_reads path AtLeastOne (ticks evs)))"
proof -
  have "Open path authFileLabel AtLeastOne (store_tokens sha) (fs path) zero_TokenSet = Some (Inr f, s)"
    using assms by (auto simp: resolveAuthTokens_def Let_def split: if_splits option.splits sum.splits prod.splits bool.splits)
  from token_set.watch_keeps [OF this, of evs] show ?thesis by (auto simp: authFileLabel_def)
qed

definition demo_view :: "string \<Rightarrow> file_view" where
  "demo_view data = \<lparr>fv_open_err = None, fv_stat_err = None, fv_regular = True, fv_data = data, fv_read_err = None\<rparr>"

definition demo_env :: env where
  "demo_env name =
     (if name = ''OTHERLODE_COLLECTOR_AUTH_TOKEN_FILE'' then ''/auth''
      else if name = ''OTHERLODE_COLLECTOR_FORWARD_AUTH_TOKEN_FILE'' then ''/key''
      else if name = ''OTHERLODE_COLLECTOR_FORWARD_URL'' then ''https://b''
      else if name = ''OTHERLODE_COLLECTOR_FORWARD_REQUEST_TIMEOUT'' then ''30s''
      else [])"

definition demo_files :: files where
  "demo_files path = demo_view (if path = ''/auth'' then ''tok1'' else ''key1'')"

lemma demo_loads:
  "load ''/auth'' AtLeastOne (demo_files ''/auth'') = Inr [''tok1'']"
  "load ''/auth'' AtLeastOne (demo_view ''tok2'') = Inr [''tok2'']"
  "load ''/auth'' AtLeastOne (demo_view []) = Inl ''/auth: no token found''"
  "load ''/key'' checkForwardKeys (demo_files ''/key'') = Inr [''key1'']"
proof -
  have read: "Read path (demo_view data) = Inr (Parse data)" if "length data \<le> maxFileBytes" for path data
    using that by (simp add: Read_def demo_view_def read_limited_def)
  have parse: "Parse ''tok1'' = [''tok1'']" "Parse ''tok2'' = [''tok2'']" "Parse [] = []" "Parse ''key1'' = [''key1'']"
    "checkForwardKeys [''key1''] = None" by code_simp+
  show "load ''/auth'' AtLeastOne (demo_files ''/auth'') = Inr [''tok1'']"
    "load ''/auth'' AtLeastOne (demo_view ''tok2'') = Inr [''tok2'']"
    "load ''/auth'' AtLeastOne (demo_view []) = Inl ''/auth: no token found''"
    "load ''/key'' checkForwardKeys (demo_files ''/key'') = Inr [''key1'']"
    by (simp_all add: load_def demo_files_def read parse AtLeastOne_def maxFileBytes_def)
qed

theorem auth_rotation_witness:
  "\<exists>f s f' es. resolveAuthTokens id demo_env demo_files = Some (Inr (Some s, Some f)) \<and>
     Watch [WatchTick (demo_view ''tok2''), WatchTick (demo_view [])] f s = Some (f', NewTokenSet id [''tok2''], es) \<and>
     metric_total TokenReloadFailures [''auth''] es = 1"
proof -
  have env: "demo_env ''OTHERLODE_COLLECTOR_AUTH_TOKEN_FILE'' = ''/auth''" "demo_env ''OTHERLODE_COLLECTOR_AUTH_TOKEN'' = []"
    by (simp_all add: demo_env_def)
  obtain f s where r: "resolveAuthTokens id demo_env demo_files = Some (Inr (Some s, Some f))"
    using demo_loads(1) by (simp add: resolveAuthTokens_def env Open_def store_tokens_def)
  have last: "f_last f = [''tok1'']" using auth_rotation [OF r env(1) [symmetric], of "[]"] demo_loads(1) by simp
  show ?thesis
    using r auth_rotation [OF r env(1) [symmetric], of "[WatchTick (demo_view ''tok2''), WatchTick (demo_view [])]"]
    by (auto simp: last last_good_def bad_reads_def demo_loads)
qed

text \<open>
  C26: resolving the forwarding settings never panics, and what it yields can be used. Every limit is 0, which
  stands for the default, or a positive 64-bit number. A key comes only with a backend to send it to, and is fit
  for a header; when it comes from a file, that stays so through every re-read: the key sent is the one token of
  the last read that passed.
\<close>

theorem forward_config_usable:
  "\<exists>result. resolveForwardConfig getenv fs = Some result \<and>
    (\<forall>cfg file k. result = Inr (cfg, file, k) \<longrightarrow>
      (\<forall>x \<in> {cf_Shards cfg, cf_QueueSize cfg, cf_QueueBytes cfg, cf_RequestTimeout cfg, cf_RetryInitialInterval cfg,
          cf_RetryMaxInterval cfg, cf_RetryMaxElapsedTime cfg}. 0 \<le> x \<and> in_int64 x) \<and>
      (cf_AuthToken cfg \<noteq> None \<longrightarrow> cf_URL cfg \<noteq> []) \<and> header_safe (authToken cfg k) \<and>
      (\<forall>f evs. file = Some f \<longrightarrow>
         (\<exists>f' k' es. Watch evs f k = Some (f', k', es) \<and> header_safe (authToken cfg k') \<and>
            [authToken cfg k'] =
              last_good (getenv ''OTHERLODE_COLLECTOR_FORWARD_AUTH_TOKEN_FILE'') checkForwardKeys (f_last f) (ticks evs))))"
proof -
  let ?path = "getenv ''OTHERLODE_COLLECTOR_FORWARD_AUTH_TOKEN_FILE''" and ?url = "getenv ''OTHERLODE_COLLECTOR_FORWARD_URL''"
  have key: "(\<exists>f' k' es. Watch evs f k = Some (f', k', es) \<and> header_safe (Token k') \<and>
      [Token k'] = last_good ?path checkForwardKeys (f_last f) (ticks evs))"
    if "Open ?path forwardFileLabel checkForwardKeys store (fs ?path) new_forwardKey = Some (Inr f, k)" for f k evs
    using forward_key.watch_keeps [OF that, of evs] by auto
  have now: "header_safe (Token k)"
    if "Open ?path forwardFileLabel checkForwardKeys store (fs ?path) new_forwardKey = Some (Inr f, k)" for f k
    using forward_key.open_cases [of ?path "fs ?path" forwardFileLabel new_forwardKey] that
    by (auto simp: forward_key.watched_def)
  consider e where "resolve_forward_key getenv fs = Some (Inl e)"
    | "resolve_forward_key getenv fs = Some (Inr (None, None, new_forwardKey))"
    | t where "?url \<noteq> []" "header_safe t" "resolve_forward_key getenv fs = Some (Inr (Some (StaticToken t), None, new_forwardKey))"
    | f k where "?url \<noteq> []" "Open ?path forwardFileLabel checkForwardKeys store (fs ?path) new_forwardKey = Some (Inr f, k)"
        "resolve_forward_key getenv fs = Some (Inr (Some Token, Some f, k))"
    using resolve_forward_key_cases [of getenv fs] by blast
  then show ?thesis
  proof cases
    case 1
    then show ?thesis by (simp add: resolveForwardConfig_def)
  next
    case 2
    let ?c = "zero_config ?url None :: forwardKey config"
    show ?thesis using 2 resolve_forward_limits_fields [of getenv ?c]
      by (cases "resolve_forward_limits getenv ?c")
        (auto simp: resolveForwardConfig_def zero_config_def authToken_def header_safe_def)
  next
    case 3
    let ?c = "zero_config ?url (Some (StaticToken t)) :: forwardKey config"
    show ?thesis using 3 resolve_forward_limits_fields [of getenv ?c]
      by (cases "resolve_forward_limits getenv ?c")
        (auto simp: resolveForwardConfig_def zero_config_def authToken_def StaticToken_def)
  next
    case 4
    let ?c = "zero_config ?url (Some Token)"
    show ?thesis using 4 resolve_forward_limits_fields [of getenv ?c] key [OF 4(2)] now [OF 4(2)]
      by (cases "resolve_forward_limits getenv ?c")
        (auto simp: resolveForwardConfig_def zero_config_def authToken_def)
  qed
qed

theorem forward_config_usable_witness:
  "\<exists>cfg f k. resolveForwardConfig demo_env demo_files = Some (Inr (cfg, Some f, k)) \<and>
     header_safe (authToken cfg k) \<and> cf_RequestTimeout cfg = 30000000000"
proof -
  have d: "ParseDuration ''30s'' = Some 30000000000" by code_simp
  obtain cfg f k where r: "resolveForwardConfig demo_env demo_files = Some (Inr (cfg, Some f, k))" "cf_RequestTimeout cfg = 30000000000"
    using demo_loads(4)
    by (simp add: resolveForwardConfig_def resolve_forward_key_def resolve_forward_limits_def positiveIntEnv_def
        positiveDurationEnv_def demo_env_def d Open_def store_def zero_config_def)
  then show ?thesis using forward_config_usable [of demo_env demo_files] by auto
qed

text \<open>
  C27: the values the processors stamp are fit for every payload. A namespace or environment that resolves is
  trimmed, valid UTF-8 and is the value the operator set; an action without a value is refused. A resolved
  namespace is never a dot segment, so stamping it keeps every valid payload valid, and so does stamping the
  environment.
\<close>

theorem stamps_valid:
  "(\<forall>cfg. resolveNamespace v a = Inr cfg \<longrightarrow>
      nc_value cfg = trim_space v \<and> ValidString (nc_value cfg) \<and> (nc_value cfg = [] \<longrightarrow> a = []) \<and>
      (\<forall>p m l. validator_of p m = None \<longrightarrow> validator_of p (fst (stamp_payload (ns_stamp cfg l) m)) = None)) \<and>
   (\<forall>cfg. resolveEnvironment v a = Inr cfg \<longrightarrow>
      ec_value cfg = trim_space v \<and> ValidString (ec_value cfg) \<and> (ec_value cfg = [] \<longrightarrow> a = []) \<and>
      (\<forall>p m l. validator_of p m = None \<longrightarrow> validator_of p (fst (stamp_payload (env_stamp cfg l) m)) = None))"
proof (intro conjI allI impI)
  fix cfg assume r: "resolveNamespace v a = Inr cfg"
  then have n: "nc_value cfg = trim_space v \<and> ValidString (trim_space v) \<and> (trim_space v = [] \<longrightarrow> a = []) \<and>
      trim_space v \<noteq> ''.'' \<and> trim_space v \<noteq> ''..''"
    by (auto simp: resolveNamespace_def Let_def split: sum.splits if_splits)
  then show "nc_value cfg = trim_space v" "ValidString (nc_value cfg)" "nc_value cfg = [] \<Longrightarrow> a = []" by simp_all
  fix p m l assume "validator_of p m = None"
  then show "validator_of p (fst (stamp_payload (ns_stamp cfg l) m)) = None"
    by (rule stamp_payload_valid) (use n in \<open>simp add: ns_stamp_valid isDotSegment_def\<close>)
next
  fix cfg assume r: "resolveEnvironment v a = Inr cfg"
  then have n: "ec_value cfg = trim_space v \<and> ValidString (trim_space v) \<and> (trim_space v = [] \<longrightarrow> a = [])"
    by (auto simp: resolveEnvironment_def Let_def split: sum.splits if_splits)
  then show "ec_value cfg = trim_space v" "ValidString (ec_value cfg)" "ec_value cfg = [] \<Longrightarrow> a = []" by simp_all
  fix p m l assume "validator_of p m = None"
  then show "validator_of p (fst (stamp_payload (env_stamp cfg l) m)) = None"
    by (rule stamp_payload_valid) (simp add: env_stamp_valid)
qed

theorem stamps_valid_witness:
  "resolveNamespace '' prod '' ''Upsert'' = Inr \<lparr>nc_value = ''prod'', nc_action = Upsert\<rparr> \<and> ValidString ''prod'' \<and>
   resolveNamespace ''..'' [] \<noteq> Inr \<lparr>nc_value = ''..'', nc_action = Insert\<rparr>"
proof -
  have r: "resolveNamespace '' prod '' ''Upsert'' = Inr \<lparr>nc_value = ''prod'', nc_action = Upsert\<rparr>"
    "resolveNamespace ''..'' [] \<noteq> Inr \<lparr>nc_value = ''..'', nc_action = Insert\<rparr>" by code_simp+
  have "\<forall>cfg. resolveNamespace '' prod '' ''Upsert'' = Inr cfg \<longrightarrow> ValidString (nc_value cfg)"
    using stamps_valid [of "'' prod ''" "''Upsert''"] by blast
  then show ?thesis using r by fastforce
qed

text \<open>
  A comma-separated token list is read back as it was written: tokens that are trimmed, not empty and free of
  commas come back in order; and an entry that is blank after trimming, anywhere in a list, is an error.
\<close>

theorem token_list_roundtrip:
  assumes "toks \<noteq> []" and "\<forall>t \<in> set toks. trimmed t \<and> t \<noteq> [] \<and> CHR '','' \<notin> set t"
  shows "parseTokenList (join '','' toks) = Inr toks \<and>
    (\<forall>parts. parts \<noteq> [] \<and> (\<forall>p \<in> set parts. CHR '','' \<notin> set p) \<and> (\<exists>p \<in> set parts. trim_space p = []) \<longrightarrow>
       (\<exists>e. parseTokenList (join '','' parts) = Inl e))"
proof (intro conjI allI impI)
  have "map trim_space toks = toks" using assms(2) by (simp add: map_idI trim_space_id)
  then show "parseTokenList (join '','' toks) = Inr toks"
    using assms by (auto simp: parseTokenList_Inr split_on_join)
  fix parts assume p: "parts \<noteq> [] \<and> (\<forall>p \<in> set parts. CHR '','' \<notin> set p) \<and> (\<exists>p \<in> set parts. trim_space p = [])"
  then have "[] \<in> set (map trim_space (split_on CHR '','' (join '','' parts)))" by (force simp: split_on_join)
  then have "parseTokenList (join '','' parts) \<noteq> Inr ts" for ts by (auto simp: parseTokenList_Inr)
  then show "\<exists>e. parseTokenList (join '','' parts) = Inl e" by (metis sumE)
qed

theorem token_list_roundtrip_witness:
  "parseTokenList ''a,b c'' = Inr [''a'', ''b c'']"
  using token_list_roundtrip [of "[''a'', ''b c'']"] by (simp add: trimmed_def space_seqs_def)

end
