(* ===== verification/Routes.thy ===== *)
theory Routes
  imports Config
begin

text \<open>
  \<^verbatim>\<open>cmd/otherlode-collector/routes.go\<close> and the routes of \<^verbatim>\<open>ingest\<close> and \<^verbatim>\<open>metrics\<close>: how the sink, the processors, the
  ingest handler, the bearer check and the rate limit are put together, and where a request goes.

  \<open>net/http\<close>'s \<^verbatim>\<open>ServeMux\<close> is modelled for the patterns the program registers. A request whose path is not in
  canonical form is redirected; \<open>redirect\<close> stands for that answer, which depends on the server's version.
\<close>

section \<open>The mux\<close>

text \<open>\<^verbatim>\<open>path.Clean\<close> on a rooted path: no empty, dot or dot-dot segment is left.\<close>

fun clean_segments :: "string list \<Rightarrow> string list \<Rightarrow> string list" where
  "clean_segments stack [] = rev stack"
| "clean_segments stack (s # ss) =
     (if s = [] \<or> s = ''.'' then clean_segments stack ss
      else if s = ''..'' then clean_segments (tl stack) ss
      else clean_segments (s # stack) ss)"

definition cleanPath :: "string \<Rightarrow> string" where
  "cleanPath p =
     (if p = [] then ''/''
      else
        (let p = (if hd p \<noteq> CHR ''/'' then CHR ''/'' # p else p);
             np = CHR ''/'' # join ''/'' (clean_segments [] (split_on CHR ''/'' p))
         in if last p = CHR ''/'' \<and> np \<noteq> ''/'' then np @ ''/'' else np))"

text \<open>\<^verbatim>\<open>CONNECT\<close> requests are not brought into canonical form.\<close>

definition canonical :: "request \<Rightarrow> bool" where
  "canonical r \<longleftrightarrow> req_method r = ''CONNECT'' \<or> cleanPath (req_path r) = req_path r"

definition NotFound :: response where
  "NotFound = http_error ''404 page not found'' 404 []"

definition MethodNotAllowed :: "string \<Rightarrow> response" where
  "MethodNotAllowed methods = http_error ''Method Not Allowed'' 405 [(''Allow'', methods)]"

definition healthzPath :: string where
  "healthzPath = ''/healthz''"

definition ingestPrefix :: string where
  "ingestPrefix = ''/v1/otherlode/''"

text \<open>A \<^verbatim>\<open>GET\<close> pattern takes \<^verbatim>\<open>HEAD\<close> requests too. A path that only lacks the slash of the subtree is redirected.\<close>

datatype top_route = TopRedirect | TopIngest | TopHealthz | TopMetrics | TopMethod string | TopNone

definition top_route_of :: "request \<Rightarrow> top_route" where
  "top_route_of r =
     (let get = req_method r = ''GET'' \<or> req_method r = ''HEAD'' in
      if \<not> canonical r \<or> req_path r @ ''/'' = ingestPrefix then TopRedirect
      else if has_prefix (req_path r) ingestPrefix then TopIngest
      else if req_path r = healthzPath then (if get then TopHealthz else TopMethod ''GET, HEAD'')
      else if req_path r = ''/metrics'' then (if get then TopMetrics else TopMethod ''GET, HEAD'')
      else TopNone)"

section \<open>The ingest routes\<close>

definition payload_at :: "string \<Rightarrow> payload option" where
  "payload_at path =
     (if path = DeltaBatchPath then Some DeltaBatch
      else if path = ManifestPath then Some Manifest
      else if path = StaticBaselinePath then Some StaticBaseline
      else None)"

text \<open>
  \<^verbatim>\<open>Handler.Register\<close> on a mux of its own. \<open>ev\<close> and \<open>used\<close> say what the wait for a decode slot meets. A request
  that still waits has written nothing and changed nothing.
\<close>

definition Register :: "codec \<Rightarrow> handler \<Rightarrow> 's sink \<Rightarrow> slot_event \<Rightarrow> nat \<Rightarrow> 's http_handler" where
  "Register cd h snk ev used r st =
     (case payload_at (req_path r) of
        None \<Rightarrow> (Some NotFound, [], st)
      | Some p \<Rightarrow>
          (if req_method r \<noteq> ''POST'' then (Some (MethodNotAllowed ''POST''), [], st)
           else
             (case handle_payload cd h snk p r ev used st of
                None \<Rightarrow> (None, [], st)
              | Some (served, used') \<Rightarrow> served)))"

section \<open>The chain of sinks\<close>

record ('h, 'q, 'b, 'k) routeConfig =
  rt_AuthTokens :: "'h TokenSet option"
  rt_Limiter :: "('q, 'b) limiter option"
  rt_MaxDecodes :: int
  rt_Forward :: "'k config"
  rt_Environment :: env_config
  rt_Namespace :: ns_config
  rt_Redaction :: redaction_config

text \<open>\<^verbatim>\<open>Action\<close> is an integer type; logged as it is, its number is written.\<close>

definition action_int :: "action \<Rightarrow> int" where
  "action_int a = (case a of Insert \<Rightarrow> 0 | Upsert \<Rightarrow> 1)"

definition add_environment :: "env_config \<Rightarrow> 's sink \<Rightarrow> effect list \<times> 's sink" where
  "add_environment cfg snk =
     (if ec_value cfg \<noteq> [] then
        ([LogLine LInfo ''stamping environment on ingested payloads''
            [(''environment'', LStr (ec_value cfg)), (''action'', LInt (action_int (ec_action cfg)))]],
         NewEnvironment snk cfg)
      else ([], snk))"

definition add_namespace :: "ns_config \<Rightarrow> 's sink \<Rightarrow> effect list \<times> 's sink" where
  "add_namespace cfg snk =
     (if nc_value cfg \<noteq> [] then
        ([LogLine LInfo ''stamping service namespace on ingested payloads''
            [(''namespace'', LStr (nc_value cfg)), (''action'', LInt (action_int (nc_action cfg)))]],
         NewNamespace snk cfg)
      else ([], snk))"

definition add_redaction :: "redaction_config \<Rightarrow> 's sink \<Rightarrow> effect list \<times> 's sink" where
  "add_redaction cfg snk =
     (if redaction_Enabled cfg then
        ([LogLine LInfo ''redacting string literals in ingested payloads''
            [(''blocked_values'', LInt (int (length (rc_blocked cfg)))), (''all_literals'', LBool (rc_all cfg))]],
         NewRedaction snk cfg)
      else ([], snk))"

text \<open>Environment inside, namespace around it, redaction outermost.\<close>

definition add_processors :: "('h, 'q, 'b, 'k) routeConfig \<Rightarrow> 's sink \<Rightarrow> effect list \<times> 's sink" where
  "add_processors cfg snk0 =
     (let (es1, snk1) = add_environment (rt_Environment cfg) snk0;
          (es2, snk2) = add_namespace (rt_Namespace cfg) snk1;
          (es3, snk3) = add_redaction (rt_Redaction cfg) snk2
      in (es1 @ es2 @ es3, snk3))"

text \<open>
  What \<^verbatim>\<open>registerRoutes\<close> makes: the forwarding sink, if any, with its settings and first state, the head of the
  chain of sinks, and the ingest handler. A log sink has no state; the chain in front of it is given an empty
  forwarding state, which it leaves alone.
\<close>

record 'k routes =
  ro_forward :: "('k config \<times> fsink) option"
  ro_sink :: "fsink sink"
  ro_handler :: handler

definition choose_sink ::
  "(string \<Rightarrow> string) \<Rightarrow> (string \<Rightarrow> string + url) \<Rightarrow> (pbmsg \<Rightarrow> go_error + string) \<Rightarrow> 'k \<Rightarrow> 'k config \<Rightarrow>
   effect list \<times> (string + (('k config \<times> fsink) option \<times> fsink sink)) option" where
  "choose_sink quote url_parse marshal k fcfg =
     (if cf_URL fcfg \<noteq> [] then
        (case NewForwardingSink quote url_parse k fcfg of
           (es, None) \<Rightarrow> (es, None)
         | (es, Some (Inl err)) \<Rightarrow> (es, Some (Inl err))
         | (es, Some (Inr (cfg2, s0))) \<Rightarrow> (es, Some (Inr (Some (cfg2, s0), ForwardingSink cfg2 marshal))))
      else
        ([LogLine LWarn ''OTHERLODE_COLLECTOR_FORWARD_URL not set; ingest payloads are only logged, not forwarded'' []],
         Some (Inr (None, LogSink))))"

text \<open>The result is \<open>None\<close> when the making of the forwarding sink panics.\<close>

definition registerRoutes ::
  "(string \<Rightarrow> string) \<Rightarrow> (string \<Rightarrow> string + url) \<Rightarrow> (pbmsg \<Rightarrow> go_error + string) \<Rightarrow> 'k \<Rightarrow>
   ('h, 'q, 'b, 'k) routeConfig \<Rightarrow> effect list \<times> (string + 'k routes) option" where
  "registerRoutes quote url_parse marshal k cfg =
     (case choose_sink quote url_parse marshal k (rt_Forward cfg) of
        (es, None) \<Rightarrow> (es, None)
      | (es, Some (Inl err)) \<Rightarrow> (es, Some (Inl err))
      | (es, Some (Inr (fwd, snk0))) \<Rightarrow>
          (let (es1, snk) = add_processors cfg snk0;
               es2 = (if rt_AuthTokens cfg = None
                      then [LogLine LWarn ''OTHERLODE_COLLECTOR_AUTH_TOKEN and OTHERLODE_COLLECTOR_AUTH_TOKEN_FILE not set; ingest endpoints are unauthenticated'' []]
                      else []);
               es3 = (if rt_Limiter cfg = None
                      then [LogLine LWarn ''rate limiting disabled; ingest endpoints accept requests unthrottled'' []]
                      else [])
           in (es @ es1 @ es2 @ es3,
               Some (Inr \<lparr>ro_forward = fwd, ro_sink = snk, ro_handler = NewHandler [WithMaxConcurrentDecodes (rt_MaxDecodes cfg)]\<rparr>))))"

section \<open>Serving\<close>

text \<open>
  The state a request meets: the limiter and the token set, where configured, and the sink's. The limiter is
  outside the bearer check, which is outside the ingest mux.
\<close>

type_synonym ('h, 'q, 'b) server_state = "('q, 'b) limiter option \<times> 'h TokenSet option \<times> fsink"

definition ingestHandler ::
  "('q, 'b, 'r) bucket_ops \<Rightarrow> 'a netip \<Rightarrow> (string \<Rightarrow> 'h) \<Rightarrow> codec \<Rightarrow> 'k routes \<Rightarrow> int \<Rightarrow> slot_event \<Rightarrow> nat \<Rightarrow>
   ('h, 'q, 'b) server_state http_handler" where
  "ingestHandler ops ip sha cd ro now ev used =
     opt_guard (Middleware ops ip now)
       (opt_guard (RequireBearerToken sha) (Register cd (ro_handler ro) (ro_sink ro) ev used))"

text \<open>\<^verbatim>\<open>metrics.Handler\<close> answers with the registry as it is at that moment.\<close>

definition metrics_Handler :: "registry \<Rightarrow> response" where
  "metrics_Handler reg =
     \<lparr>resp_status = 200, resp_headers = [(''Content-Type'', ''text/plain; version=0.0.4; charset=utf-8'')],
      resp_body = Render reg\<rparr>"

definition serve ::
  "('q, 'b, 'r) bucket_ops \<Rightarrow> 'a netip \<Rightarrow> (string \<Rightarrow> 'h) \<Rightarrow> codec \<Rightarrow> (request \<Rightarrow> response) \<Rightarrow> 'k routes \<Rightarrow> registry \<Rightarrow>
   int \<Rightarrow> slot_event \<Rightarrow> nat \<Rightarrow> ('h, 'q, 'b) server_state http_handler" where
  "serve ops ip sha cd redirect ro reg now ev used r st =
     (case top_route_of r of
        TopRedirect \<Rightarrow> (Some (redirect r), [], st)
      | TopIngest \<Rightarrow> ingestHandler ops ip sha cd ro now ev used r st
      | TopHealthz \<Rightarrow> (Some (write_header 200 []), [], st)
      | TopMetrics \<Rightarrow> (Some (metrics_Handler reg), [], st)
      | TopMethod methods \<Rightarrow> (Some (MethodNotAllowed methods), [], st)
      | TopNone \<Rightarrow> (Some NotFound, [], st))"

section \<open>Lemmas: the chain of sinks\<close>

text \<open>What the processors make of a payload, from the outermost to the innermost.\<close>

definition processed :: "('h, 'q, 'b, 'k) routeConfig \<Rightarrow> payload \<Rightarrow> pbmsg \<Rightarrow> pbmsg \<times> effect list" where
  "processed cfg p m =
     (let (m1, es1) = (if redaction_Enabled (rt_Redaction cfg) then redact (rt_Redaction cfg) p m else (m, []));
          (m2, es2) = (if nc_value (rt_Namespace cfg) \<noteq> [] then stamp_payload (ns_stamp (rt_Namespace cfg) (proc_label p)) m1 else (m1, []));
          (m3, es3) = (if ec_value (rt_Environment cfg) \<noteq> [] then stamp_payload (env_stamp (rt_Environment cfg) (proc_label p)) m2 else (m2, []))
      in (m3, es1 @ es2 @ es3))"

lemma pass_on_pass_on: "pass_on (m, es) (\<lambda>m' st'. pass_on (g m') acc st') st = pass_on (fst (g m), es @ snd (g m)) acc st"
  by (cases "g m") (simp add: pass_on_def split: prod.split)

lemma pass_on_none: "acc m st = pass_on (m, []) acc st"
  by (simp add: pass_on_def split: prod.split)

lemma add_environment_accept:
  "accept_of (snd (add_environment cfg snk)) p m st =
     pass_on (if ec_value cfg \<noteq> [] then stamp_payload (env_stamp cfg (proc_label p)) m else (m, [])) (accept_of snk p) st"
  by (cases p) (simp_all add: add_environment_def NewEnvironment_def flip: pass_on_none)

lemma add_namespace_accept:
  "accept_of (snd (add_namespace cfg snk)) p m st =
     pass_on (if nc_value cfg \<noteq> [] then stamp_payload (ns_stamp cfg (proc_label p)) m else (m, [])) (accept_of snk p) st"
  by (cases p) (simp_all add: add_namespace_def NewNamespace_def flip: pass_on_none)

lemma add_redaction_accept:
  "accept_of (snd (add_redaction cfg snk)) p m st =
     pass_on (if redaction_Enabled cfg then redact cfg p m else (m, [])) (accept_of snk p) st"
  by (simp add: add_redaction_def NewRedaction_accept flip: pass_on_none)

lemma add_processors_snd:
  "snd (add_processors cfg snk) =
     snd (add_redaction (rt_Redaction cfg) (snd (add_namespace (rt_Namespace cfg) (snd (add_environment (rt_Environment cfg) snk)))))"
  by (simp add: add_processors_def split: prod.split)

lemma chain_accept: "accept_of (snd (add_processors cfg snk)) p m st = pass_on (processed cfg p m) (accept_of snk p) st"
proof -
  let ?r = "\<lambda>m. if redaction_Enabled (rt_Redaction cfg) then redact (rt_Redaction cfg) p m else (m, [])"
  let ?n = "\<lambda>m. if nc_value (rt_Namespace cfg) \<noteq> [] then stamp_payload (ns_stamp (rt_Namespace cfg) (proc_label p)) m else (m, [])"
  let ?e = "\<lambda>m. if ec_value (rt_Environment cfg) \<noteq> [] then stamp_payload (env_stamp (rt_Environment cfg) (proc_label p)) m else (m, [])"
  have "processed cfg p m = (let (m1, es1) = ?r m; (m2, es2) = ?n m1; (m3, es3) = ?e m2 in (m3, es1 @ es2 @ es3))"
    by (simp only: processed_def)
  moreover have "accept_of (snd (add_processors cfg snk)) p m st =
      pass_on (?r m) (\<lambda>m1 st. pass_on (?n m1) (\<lambda>m2 st. pass_on (?e m2) (accept_of snk p) st) st) st"
    unfolding add_processors_snd add_redaction_accept
    by (rule arg_cong [where f = "\<lambda>a. pass_on (?r m) a st"], intro ext)
      (simp only: add_namespace_accept, rule arg_cong [where f = "\<lambda>a. pass_on _ a _"], intro ext,
       simp only: add_environment_accept)
  moreover obtain m1 es1 where "?r m = (m1, es1)" by fastforce
  moreover obtain m2 es2 where "?n m1 = (m2, es2)" by fastforce
  moreover obtain m3 es3 where "?e m2 = (m3, es3)" by fastforce
  ultimately show ?thesis by (simp only: pass_on_pass_on Let_def prod.case fst_conv snd_conv append_assoc)
qed

lemma chain_contract:
  assumes "sink_contract snk I" and "\<not> isDotSegment (trim_space (nc_value (rt_Namespace cfg)))"
  shows "sink_contract (snd (add_processors cfg snk)) I"
proof -
  have "sink_contract (snd (add_environment (rt_Environment cfg) snk)) I"
    using assms(1) by (simp add: add_environment_def NewEnvironment_contract)
  then have "sink_contract (snd (add_namespace (rt_Namespace cfg) (snd (add_environment (rt_Environment cfg) snk)))) I"
    using assms(2) by (simp add: add_namespace_def NewNamespace_contract)
  then show ?thesis by (simp add: add_processors_snd add_redaction_def NewRedaction_contract)
qed

text \<open>The state the chosen sink works on: any state for the log sink, one of the right shape for the forwarding sink.\<close>

definition ready :: "'k routes \<Rightarrow> fsink \<Rightarrow> bool" where
  "ready ro s \<longleftrightarrow> (case ro_forward ro of None \<Rightarrow> True | Some (c, s0) \<Rightarrow> fsink_shape c s)"

lemma registerRoutes_cases:
  assumes "registerRoutes quote url_parse marshal k cfg = (es0, Some (Inr ro))"
  obtains (log) "cf_URL (rt_Forward cfg) = []" "ro_forward ro = None" "ro_sink ro = snd (add_processors cfg LogSink)"
  | (forward) c s0 es where "cf_URL (rt_Forward cfg) \<noteq> []" "ro_forward ro = Some (c, s0)"
      "NewForwardingSink quote url_parse k (rt_Forward cfg) = (es, Some (Inr (c, s0)))"
      "ro_sink ro = snd (add_processors cfg (ForwardingSink c marshal))"
  using assms
  by (auto simp: registerRoutes_def choose_sink_def Let_def split: prod.splits sum.splits option.splits if_splits)

lemma registerRoutes_None:
  "snd (registerRoutes quote url_parse marshal k cfg) = None \<longleftrightarrow>
     cf_URL (rt_Forward cfg) \<noteq> [] \<and> (\<exists>u. validateURL quote url_parse (cf_URL (rt_Forward cfg)) = Inr u) \<and>
     (2 ^ 45 < cf_Shards (withDefaults (rt_Forward cfg)) \<or> 3198579280801 < cf_QueueSize (withDefaults (rt_Forward cfg)))"
proof -
  let ?c = "withDefaults (rt_Forward cfg)"
  note url = withDefaults_fields(1) [of "rt_Forward cfg"]
  have none: "make_shards (?c\<lparr>cf_URL := base\<rparr>) = None \<longleftrightarrow> 2 ^ 45 < cf_Shards ?c \<or> 3198579280801 < cf_QueueSize ?c" for base
    using make_shards_None [of "?c\<lparr>cf_URL := base\<rparr>"] by (simp add: withDefaults_positive)
  have "snd (NewForwardingSink quote url_parse k (rt_Forward cfg)) = None \<longleftrightarrow>
      (\<exists>u. validateURL quote url_parse (cf_URL (rt_Forward cfg)) = Inr u) \<and> (2 ^ 45 < cf_Shards ?c \<or> 3198579280801 < cf_QueueSize ?c)"
    unfolding NewForwardingSink_def Let_def url none [symmetric, of "fst (projr (validateURL quote url_parse (cf_URL (rt_Forward cfg))))"]
    by (auto split: sum.split option.split prod.split)
  then show ?thesis
    by (auto simp: registerRoutes_def choose_sink_def Let_def split: prod.splits sum.splits option.splits)
qed

lemma new_sink_shape:
  assumes "NewForwardingSink quote url_parse k fcfg = (es, Some (Inr (c, s0)))"
  shows "fsink_shape c s0"
  using assms
  by (auto simp: NewForwardingSink_def Let_def fsink_shape_def list_all_iff dest!: make_shards_Some
      split: sum.splits prod.splits option.splits)

lemma routes_ready:
  assumes "registerRoutes quote url_parse marshal k cfg = (es0, Some (Inr ro))" and "ro_forward ro = Some (c, s0)"
  shows "ready ro s0"
  using assms(1) by (cases rule: registerRoutes_cases) (use assms(2) in \<open>auto simp: ready_def new_sink_shape\<close>)

lemma routes_contract:
  assumes "registerRoutes quote url_parse marshal k cfg = (es0, Some (Inr ro))"
    and "\<not> isDotSegment (trim_space (nc_value (rt_Namespace cfg)))"
  shows "sink_contract (ro_sink ro) (ready ro)"
  using assms(1)
proof (cases rule: registerRoutes_cases)
  case log
  have "ready ro = (\<lambda>s. True)" by (simp add: ready_def log fun_eq_iff)
  then show ?thesis using chain_contract [OF logsink.sink_contract_axioms assms(2)] log(3) by simp
next
  case (forward c s0 es)
  have "ready ro = fsink_shape c" by (simp add: ready_def forward fun_eq_iff)
  then show ?thesis using chain_contract [OF forwarding.sink_contract_axioms assms(2)] forward(4) by simp
qed

section \<open>Lemmas: serving\<close>

interpretation opt_throttle: http_guard "opt_guard (Middleware ops ip now)" 429 RateLimited
  by (rule throttle.opt_guard_guard)

interpretation opt_bearer: http_guard "opt_guard (RequireBearerToken sha)" 401 AuthRejected
  by (rule bearer.opt_guard_guard)

text \<open>A request to the ingest routes is throttled, or rejected, or goes to the ingest mux.\<close>

lemma ingestHandler_cases:
  assumes "ingestHandler ops ip sha cd ro now ev used r (l, t, s) = (resp, es, (l', t', s'))"
  obtains (throttled) "map_option resp_status resp = Some 429" "es = [Inc RateLimited []]" "s' = s"
  | (rejected) "map_option resp_status resp = Some 401" "es = [Inc AuthRejected []]" "s' = s"
  | (passed) "Register cd (ro_handler ro) (ro_sink ro) ev used r s = (resp, es, s')"
proof -
  let ?auth = "opt_guard (RequireBearerToken sha) (Register cd (ro_handler ro) (ro_sink ro) ev used)"
  from opt_throttle.passed_or_rejected [OF assms [unfolded ingestHandler_def]]
  consider "map_option resp_status resp = Some 429" "es = [Inc RateLimited []]" "s' = s"
    | "?auth r (t, s) = (resp, es, (t', s'))" by auto
  then show thesis
  proof cases
    case 2
    from opt_bearer.passed_or_rejected [OF this] show thesis using rejected passed by auto
  qed (rule throttled)
qed

lemma payload_at_top:
  assumes "payload_at (req_path r) = Some p"
  shows "top_route_of r = TopIngest"
proof -
  have "cleanPath DeltaBatchPath = DeltaBatchPath" "cleanPath ManifestPath = ManifestPath"
    "cleanPath StaticBaselinePath = StaticBaselinePath" by code_simp+
  moreover have "has_prefix DeltaBatchPath ingestPrefix" "has_prefix ManifestPath ingestPrefix"
    "has_prefix StaticBaselinePath ingestPrefix" by code_simp+
  moreover have "DeltaBatchPath @ ''/'' \<noteq> ingestPrefix" "ManifestPath @ ''/'' \<noteq> ingestPrefix"
    "StaticBaselinePath @ ''/'' \<noteq> ingestPrefix" by code_simp+
  moreover have "req_path r \<in> {DeltaBatchPath, ManifestPath, StaticBaselinePath}"
    using assms by (auto simp: payload_at_def split: if_splits)
  ultimately have "canonical r" "has_prefix (req_path r) ingestPrefix" "req_path r @ ''/'' \<noteq> ingestPrefix"
    by (auto simp: canonical_def)
  then show ?thesis by (simp only: top_route_of_def Let_def simp_thms if_True if_False)
qed

lemma no_ingest_total: "ingest_events es = 0 \<Longrightarrow> metric_total IngestAccepted vs es = 0"
proof (induction es)
  case (Cons e es)
  then show ?case by (cases e) (auto split: if_splits)
qed simp

lemma unread_total: "readRequest cd kind r = Inl (resp, es) \<Longrightarrow> metric_total IngestAccepted vs es = 0"
  by (auto simp: readRequest_def split: option.splits sum.splits)

lemma no_slot_total: "acquire h kind ev used = (SlotFailed resp es, u) \<Longrightarrow> metric_total IngestAccepted vs es = 0"
  by (auto simp: acquire_def split: option.splits slot_event.splits if_splits)

text \<open>The label under which a request to an ingest route counts.\<close>

definition request_label :: "request \<Rightarrow> string" where
  "request_label r = (case payload_at (req_path r) of None \<Rightarrow> [] | Some p \<Rightarrow> pk_label (kind_of p))"

definition is_accepted :: "response option \<Rightarrow> bool" where
  "is_accepted resp \<longleftrightarrow> map_option resp_status resp = Some 202"

context sink_contract
begin

lemma handle_counts:
  assumes "I st" and "handle_payload cd h snk p r ev used st = Some ((resp, es, st'), used')"
  shows "metric_total IngestAccepted [lbl] es = (if is_accepted resp \<and> lbl = pk_label (kind_of p) then 1 else 0)"
  using assms(2) unfolding handle_payload_def
proof (cases rule: handle_cases)
  case (unread rs)
  then show ?thesis using readRequest_rejected [OF unread(1)] unread_total [OF unread(1)] by (auto simp: is_accepted_def)
next
  case (no_slot body u)
  then show ?thesis using acquire_failed [OF no_slot(2)] no_slot_total [OF no_slot(2)] by (auto simp: is_accepted_def)
next
  case (held body u rs)
  from held(3) show ?thesis
  proof (cases rule: decode_and_accept_cases)
    case (sink_failed msg err es0)
    then show ?thesis using accept_effects [OF assms(1) sink_failed(2,3)] held(4) by (simp add: no_ingest_total is_accepted_def)
  next
    case (taken msg es0)
    then show ?thesis using accept_effects [OF assms(1) taken(2,3)] held(4) by (simp add: no_ingest_total is_accepted_def)
  qed (use held(4) in \<open>simp_all add: is_accepted_def\<close>)
qed

lemma register_ok:
  assumes "I st" and "Register cd h snk ev used r st = (resp, es, st')"
  shows "I st' \<and> effects_ok es \<and> metric_total IngestAccepted [lbl] es = (if is_accepted resp \<and> lbl = request_label r then 1 else 0)"
proof (cases "payload_at (req_path r)")
  case None
  then show ?thesis using assms by (auto simp: Register_def is_accepted_def NotFound_def)
next
  case (Some p)
  show ?thesis
  proof (cases "req_method r = ''POST''")
    case True
    show ?thesis
    proof (cases "handle_payload cd h snk p r ev used st")
      case None
      then show ?thesis using assms Some True by (auto simp: Register_def is_accepted_def)
    next
      case (Some out)
      obtain used' where h: "handle_payload cd h snk p r ev used st = Some ((resp, es, st'), used')"
        using assms(2) Some True \<open>payload_at (req_path r) = Some p\<close> by (cases out) (auto simp: Register_def)
      then show ?thesis
        using handle_ok [OF assms(1) h] handle_counts [OF assms(1) h] \<open>payload_at (req_path r) = Some p\<close>
        by (simp add: request_label_def)
    qed
  qed (use assms Some in \<open>auto simp: Register_def is_accepted_def MethodNotAllowed_def\<close>)
qed

end

section \<open>Lemmas: the whole server\<close>

text \<open>Answers outside the ingest routes are never a 202, and count nothing.\<close>

lemma serve_ok:
  assumes "sink_contract (ro_sink ro) (ready ro)" and "resp_status (redirect r) \<noteq> 202" and "ready ro s"
    and "serve ops ip sha cd redirect ro reg now ev used r (l, t, s) = (resp, es, (l', t', s'))"
  shows "ready ro s' \<and> effects_ok es \<and>
    metric_total IngestAccepted [lbl] es = (if is_accepted resp \<and> lbl = request_label r then 1 else 0)"
proof (cases "top_route_of r")
  case TopIngest
  with assms(4) have "ingestHandler ops ip sha cd ro now ev used r (l, t, s) = (resp, es, (l', t', s'))"
    by (simp add: serve_def)
  then show ?thesis
  proof (cases rule: ingestHandler_cases)
    case passed
    then show ?thesis using sink_contract.register_ok [OF assms(1,3)] by blast
  qed (use assms(3) in \<open>auto simp: is_accepted_def\<close>)
qed (use assms in \<open>auto simp: serve_def is_accepted_def metrics_Handler_def MethodNotAllowed_def NotFound_def\<close>)

lemma opt_bearer_rejects:
  assumes "\<not> admits sha toks r"
  shows "opt_guard (RequireBearerToken sha) nxt r (Some toks, s) = (Some unauthorized, [Inc AuthRejected []], (Some toks, s))"
  using assms by (simp add: opt_guard_def RequireBearerToken_cases)

lemma enqueue_taken:
  assumes "enqueue cfg item s = (None, es, s')"
  shows "\<exists>i. shard_for s item = Some i \<and> i < length (fs_shards s) \<and> es = [] \<and> \<not> fs_closed s \<and>
    sh_queue (fs_shards s' ! i) = sh_queue (fs_shards s ! i) @ [item] \<and>
    (\<forall>j. j \<noteq> i \<longrightarrow> fs_shards s' ! j = fs_shards s ! j)"
proof -
  obtain i where i: "shardIndex (shardKey (it_owner item)) (int (length (fs_shards s))) = Some i" and c: "\<not> fs_closed s"
    using assms by (auto simp: enqueue_def split: if_splits option.splits)
  have lt: "i < length (fs_shards s)" by (rule shardIndex_range [OF i])
  obtain sh where r: "reserve (body_len item) (cf_QueueBytes cfg) (fs_shards s ! i) = (True, sh)"
    using assms c i by (auto simp: enqueue_def split: prod.splits bool.splits)
  then have q: "sh_queue sh = sh_queue (fs_shards s ! i)" by simp
  obtain sh' where t: "try_send (cf_QueueSize cfg) item sh = (True, sh')"
    using assms c i r by (auto simp: enqueue_def split: prod.splits bool.splits)
  then have "sh_queue sh' = sh_queue sh @ [item]" by (auto simp: try_send_def split: if_splits)
  then show ?thesis using assms c i r t lt q by (auto simp: enqueue_def shard_for_def)
qed

lemma register_accepted:
  assumes "Register cd h snk ev used r s = (resp, es, s')" and "is_accepted resp"
  shows "\<exists>p msg es1. payload_at (req_path r) = Some p \<and> req_method r = ''POST'' \<and>
    unmarshal_msg cd (kind_of p) (req_data r) = Inr msg \<and> validator_of p msg = None \<and>
    accept_of snk p msg s = (None, es1, s') \<and> es = es1 @ [Inc IngestAccepted [pk_label (kind_of p)]]"
proof -
  obtain p where p: "payload_at (req_path r) = Some p" "req_method r = ''POST''"
    using assms by (auto simp: Register_def is_accepted_def NotFound_def MethodNotAllowed_def split: option.splits if_splits)
  obtain u where "handle_payload cd h snk p r ev used s = Some ((resp, es, s'), u)"
    using assms p by (auto simp: Register_def is_accepted_def split: option.splits)
  then show ?thesis unfolding handle_payload_def
  proof (cases rule: handle_cases)
    case (unread rs)
    then show ?thesis using assms(2) readRequest_rejected [OF unread(1)] by (auto simp: is_accepted_def)
  next
    case (no_slot body u)
    then show ?thesis using assms(2) acquire_failed [OF no_slot(2)] by (auto simp: is_accepted_def)
  next
    case (held body u' rs)
    have body: "body = req_data r" using held(1) by (auto simp: readRequest_def readBody_def split: option.splits sum.splits if_splits)
    from held(3) show ?thesis
      by (cases rule: decode_and_accept_cases) (use assms(2) held(4) p body in \<open>auto simp: is_accepted_def\<close>)
  qed
qed

end
