(* ===== verification/Ratelimit_Machine.thy ===== *)
theory Ratelimit_Machine
  imports Ratelimit
begin

text \<open>
  The goroutines that share a \<^verbatim>\<open>Limiter\<close>: any number of concurrent \<^verbatim>\<open>allow\<close> calls and the eviction loop. A step
  is one critical section of the limiter's mutex, one reservation on a bucket (a \<^verbatim>\<open>rate.Limiter\<close> has its own
  lock), or a move of the clock. Between its critical section and its reservation a call holds only a pointer
  to its visitor, which the loop or another call may take out of the map and the list meanwhile.
\<close>

section \<open>State and steps\<close>

text \<open>\<open>ls_calls\<close> are the calls past the lock, each with the element of its visitor and the time it read.\<close>

record ('q, 'b) lim_state =
  ls_clock :: int
  ls_limiter :: "('q, 'b) limiter"
  ls_calls :: "(nat \<times> int) list"
  ls_running :: bool

definition ls_init :: "int \<Rightarrow> ('q, 'b) limiter \<Rightarrow> ('q, 'b) lim_state" where
  "ls_init t l = \<lparr>ls_clock = t, ls_limiter = l, ls_calls = [], ls_running = True\<rparr>"

definition drop_nth :: "nat \<Rightarrow> 'a list \<Rightarrow> 'a list" where
  "drop_nth j xs = take j xs @ drop (Suc j) xs"

text \<open>
  \<open>evict\<close> handles one tick of \<^verbatim>\<open>evictStaleLoop\<close>, which may arrive late; when both cases of the \<^verbatim>\<open>select\<close> are ready
  either may be taken, so a tick can still be handled after \<^verbatim>\<open>Stop\<close>, until the loop returns.
\<close>

inductive lim_step :: "('q, 'b, 'r) bucket_ops \<Rightarrow> ('q, 'b) lim_state \<Rightarrow> ('q, 'b) lim_state \<Rightarrow> bool"
  for ops :: "('q, 'b, 'r) bucket_ops" where
  clock: "ls_clock s \<le> t \<Longrightarrow> lim_step ops s (s\<lparr>ls_clock := t\<rparr>)"
| lock:
    "touch ops key (ls_clock s) (ls_limiter s) = (el, l) \<Longrightarrow>
     lim_step ops s (s\<lparr>ls_limiter := l, ls_calls := ls_calls s @ [(el, ls_clock s)]\<rparr>)"
| reserve:
    "j < length (ls_calls s) \<Longrightarrow> ls_calls s ! j = (el, now) \<Longrightarrow>
     reserve_on ops el now (ls_limiter s) = (answer, l) \<Longrightarrow>
     lim_step ops s (s\<lparr>ls_limiter := l, ls_calls := drop_nth j (ls_calls s)\<rparr>)"
| evict:
    "ls_running s \<Longrightarrow> t \<le> ls_clock s \<Longrightarrow>
     lim_step ops s (s\<lparr>ls_limiter := evict_stale t (ls_limiter s)\<rparr>)"
| stop: "lim_step ops s (s\<lparr>ls_limiter := Stop (ls_limiter s)\<rparr>)"
| return: "ls_running s \<Longrightarrow> lm_stopped (ls_limiter s) \<Longrightarrow> lim_step ops s (s\<lparr>ls_running := False\<rparr>)"

inductive lim_reach :: "('q, 'b, 'r) bucket_ops \<Rightarrow> ('q, 'b) limiter \<Rightarrow> ('q, 'b) lim_state \<Rightarrow> bool"
  for ops :: "('q, 'b, 'r) bucket_ops" and l0 :: "('q, 'b) limiter" where
  start: "lim_reach ops l0 (ls_init t l0)"
| step: "lim_reach ops l0 s \<Longrightarrow> lim_step ops s s' \<Longrightarrow> lim_reach ops l0 s'"

inductive_cases lim_stepE: "lim_step ops s s'"

text \<open>The options the package offers.\<close>

inductive limiter_option :: "('q, 'b) lim_option \<Rightarrow> bool" where
  "limiter_option (WithClientIPHeader name)"
| "limiter_option (WithIPv6Prefix bits)"
| "limiter_option (withStaleAfter d)"
| "limiter_option (withMaxVisitors n)"

section \<open>What the operations keep\<close>

lemma lim_ok_settings:
  "limiter_option opt \<Longrightarrow> lm_visitors (opt l) = lm_visitors l \<and> lm_order (opt l) = lm_order l \<and> lm_elems (opt l) = lm_elems l"
  by (induction opt rule: limiter_option.induct)
    (auto simp: WithClientIPHeader_def WithIPv6Prefix_def withStaleAfter_def withMaxVisitors_def)

lemma New_empty:
  assumes "\<forall>opt \<in> set opts. limiter_option opt"
  shows "lm_visitors (New q burst opts) = [] \<and> lm_order (New q burst opts) = []"
proof -
  have "lm_visitors (foldl (\<lambda>l opt. opt l) l opts) = lm_visitors l \<and> lm_order (foldl (\<lambda>l opt. opt l) l opts) = lm_order l"
    for l :: "('a, 'b) limiter"
    using assms by (induction opts arbitrary: l) (auto simp: lim_ok_settings)
  then show ?thesis by (simp add: New_def)
qed

lemma set_bucket_fields [simp]:
  "lm_visitors (set_bucket el b l) = lm_visitors l" "lm_order (set_bucket el b l) = lm_order l"
  "lm_next (set_bucket el b l) = lm_next l" "lm_maxVisitors (set_bucket el b l) = lm_maxVisitors l"
  "lm_staleAfter (set_bucket el b l) = lm_staleAfter l"
  "(\<exists>v. lm_elems (set_bucket el b l) e = Some v) \<longleftrightarrow> e = el \<or> (\<exists>v. lm_elems l e = Some v)"
  by (auto simp: set_bucket_def)

lemma set_bucket_visitor [simp]:
  "vi_key (elem_visitor (set_bucket el b l) e) = vi_key (elem_visitor l e)"
  "vi_lastSeen (elem_visitor (set_bucket el b l) e) = vi_lastSeen (elem_visitor l e)"
  by (simp_all add: set_bucket_def elem_visitor_def)

lemma by_recency_order:
  "by_recency (lru_abs l) \<longleftrightarrow>
   sorted_wrt (\<lambda>d e. vi_lastSeen (elem_visitor l e) \<le> vi_lastSeen (elem_visitor l d)) (lm_order l)"
  by (simp add: by_recency_def lru_abs_def sorted_wrt_map)

text \<open>
  The invariant of the limiter at the time of the clock: the map and the list agree, the list is ordered by
  recency, nobody was seen in the future, and the cap holds.
\<close>

definition lim_inv :: "int \<Rightarrow> int \<Rightarrow> ('q, 'b) limiter \<Rightarrow> bool" where
  "lim_inv cap now l \<longleftrightarrow>
     lim_ok l \<and> by_recency (lru_abs l) \<and> (\<forall>v \<in> set (lru_abs l). vi_lastSeen v \<le> now) \<and>
     lm_maxVisitors l = cap \<and> int (length (lm_visitors l)) \<le> cap"

lemma lim_inv_set_bucket: "lim_inv cap now l \<Longrightarrow> lim_inv cap now (set_bucket el b l)"
  unfolding lim_inv_def by_recency_order
  by (auto simp: lim_ok_def list_all_iff lru_abs_def keyed_def [abs_def])

lemma lim_inv_reserve_on:
  "lim_inv cap now l \<Longrightarrow> reserve_on ops el t l = (answer, l') \<Longrightarrow> lim_inv cap now l'"
  by (auto simp: reserve_on_def Let_def lim_inv_set_bucket split: prod.splits if_splits)

lemma lim_inv_touch:
  assumes "lim_inv cap now l" and "1 \<le> cap" and "touch ops key now l = (el, l')"
  shows "lim_inv cap now l'"
  using touch_capped [of l now ops key el l'] touch_ok [of l ops key now el l'] assms
  by (simp add: lim_inv_def same_settings_def)

lemma evict_stale_frame: "lm_maxVisitors (evict_stale t l) = lm_maxVisitors l" for l :: "('q, 'b) limiter"
  by (induction t l rule: evict_stale.induct) (subst evict_stale.simps, simp add: drop_oldest_frame)

lemma lim_inv_evict_stale:
  assumes "lim_inv cap now l"
  shows "lim_inv cap now (evict_stale t l)"
proof -
  let ?e = "evict_stale t l"
  have ok: "lim_ok l" "by_recency (lru_abs l)" using assms by (simp_all add: lim_inv_def)
  have e: "lru_abs ?e = filter (\<lambda>v. time_since t (vi_lastSeen v) \<le> lm_staleAfter l) (lru_abs l)" "lim_ok ?e"
    using evict_stale_filter [OF ok] by simp_all
  have "length (lm_visitors ?e) \<le> length (lm_visitors l)"
    using length_lru_abs [OF ok(1)] length_lru_abs [OF e(2)] length_filter_le e(1) by metis
  moreover have "by_recency (lru_abs ?e)" using ok(2) by (simp add: e(1) by_recency_def sorted_wrt_filter)
  ultimately show ?thesis using assms e by (auto simp: lim_inv_def evict_stale_frame)
qed

section \<open>Every reachable state\<close>

lemma lim_inv_step:
  assumes "lim_step ops s s'" and "lim_inv cap (ls_clock s) (ls_limiter s)" and "1 \<le> cap"
  shows "lim_inv cap (ls_clock s') (ls_limiter s')"
  using assms(1)
proof cases
  case (clock t)
  then show ?thesis using assms(2) by (auto simp: lim_inv_def)
next
  case (lock key el l)
  then show ?thesis using lim_inv_touch assms(2,3) by auto
next
  case (reserve j el now answer l)
  then show ?thesis using lim_inv_reserve_on [OF assms(2) reserve(4)] by simp
next
  case (evict t)
  then show ?thesis using lim_inv_evict_stale assms(2) by auto
next
  case stop
  then show ?thesis using assms(2) by (simp add: lim_inv_def Stop_def lim_ok_def lru_abs_def elem_visitor_def [abs_def] keyed_def [abs_def])
next
  case return
  then show ?thesis using assms(2) by simp
qed

lemma lim_inv_reach:
  assumes "lim_reach ops (New q burst opts) s"
    and "\<forall>opt \<in> set opts. limiter_option opt" and "1 \<le> lm_maxVisitors (New q burst opts :: ('q, 'b) limiter)"
  shows "lim_inv (lm_maxVisitors (New q burst opts :: ('q, 'b) limiter)) (ls_clock s) (ls_limiter s)"
  using assms(1)
proof induction
  case (start t)
  show ?case using New_empty [OF assms(2), of q burst] assms(3)
    by (simp add: ls_init_def lim_inv_def lim_ok_def lru_abs_def by_recency_def)
next
  case (step s s')
  then show ?case using lim_inv_step assms(3) by blast
qed

section \<open>A run\<close>

text \<open>Two clients arrive at a limiter with room for two, and both calls finish.\<close>

definition demo_opts :: "(unit, int) lim_option list" where
  "demo_opts = [withMaxVisitors 2, WithIPv6Prefix 64]"

definition demo_ls :: "(unit, int) lim_state" where
  "demo_ls =
     \<lparr>ls_clock = 2,
      ls_limiter = snd (allow demo_bucket ''b'' 2 (snd (allow demo_bucket ''a'' 1 (New () 1 demo_opts)))),
      ls_calls = [], ls_running = True\<rparr>"

lemma demo_opts_ok: "\<forall>opt \<in> set demo_opts. limiter_option opt"
  by (auto simp: demo_opts_def intro: limiter_option.intros)

text \<open>A call that nobody interrupts is the lock step and the reserve step.\<close>

lemma allow_steps:
  assumes "lim_reach ops l0 s" and "ls_calls s = []"
  shows "lim_reach ops l0 (s\<lparr>ls_limiter := snd (allow ops key (ls_clock s) (ls_limiter s))\<rparr>)"
proof -
  obtain el l1 where t: "touch ops key (ls_clock s) (ls_limiter s) = (el, l1)" by fastforce
  obtain ans l2 where r: "reserve_on ops el (ls_clock s) l1 = (ans, l2)" by fastforce
  let ?s1 = "s\<lparr>ls_limiter := l1, ls_calls := ls_calls s @ [(el, ls_clock s)]\<rparr>"
  have "lim_reach ops l0 ?s1" using lim_reach.step [OF assms(1) lim_step.lock [OF t]] .
  moreover have "lim_step ops ?s1 (?s1\<lparr>ls_limiter := l2, ls_calls := drop_nth 0 (ls_calls ?s1)\<rparr>)"
    by (rule lim_step.reserve [of 0 _ el "ls_clock s" _ ans]) (use r assms(2) in simp_all)
  ultimately have "lim_reach ops l0 (?s1\<lparr>ls_limiter := l2, ls_calls := drop_nth 0 (ls_calls ?s1)\<rparr>)"
    by (rule lim_reach.step)
  moreover have "?s1\<lparr>ls_limiter := l2, ls_calls := drop_nth 0 (ls_calls ?s1)\<rparr> = s\<lparr>ls_limiter := l2\<rparr>"
    using assms(2) by (cases s) (simp add: drop_nth_def)
  ultimately show ?thesis by (simp add: allow_def t r)
qed

lemma demo_ls_reach: "lim_reach demo_bucket (New () 1 demo_opts) demo_ls"
proof -
  let ?l0 = "New () 1 demo_opts :: (unit, int) limiter"
  let ?s1 = "(ls_init 1 ?l0)\<lparr>ls_limiter := snd (allow demo_bucket ''a'' 1 ?l0)\<rparr>"
  have "lim_reach demo_bucket ?l0 ?s1"
    using allow_steps [OF lim_reach.start, of 1 ?l0 demo_bucket "''a''"] by (simp add: ls_init_def)
  then have "lim_reach demo_bucket ?l0 (?s1\<lparr>ls_clock := 2\<rparr>)"
    by (rule lim_reach.step) (rule lim_step.clock, simp add: ls_init_def)
  from allow_steps [OF this, of "''b''"] show ?thesis by (simp add: ls_init_def demo_ls_def)
qed

lemma demo_ls_facts:
  "map vi_key (lru_abs (ls_limiter demo_ls)) = [''b'', ''a'']"
  "lm_maxVisitors (New () 1 demo_opts :: (unit, int) limiter) = 2"
  "map vi_key (lru_abs (snd (touch demo_bucket ''c'' 2 (ls_limiter demo_ls)))) = [''c'', ''b'']"
  "map vi_key (lru_abs (evict_stale (defaultStaleAfter + 2) (ls_limiter demo_ls))) = [''b'']"
  "ls_clock demo_ls = 2"
  by code_simp+

section \<open>Properties\<close>

text \<open>
  Under every interleaving of calls, ticks and \<^verbatim>\<open>Stop\<close>, the limiter tracks at most as many clients as its
  cap, and its map and list agree. A new client is never turned away for lack of room: after its critical
  section it is tracked, and a client lost its place only when the cap was reached, and only if nobody left
  has been idle for longer.
\<close>

theorem visitors_capped:
  assumes "\<forall>opt \<in> set opts. limiter_option opt" and "1 \<le> lm_maxVisitors (New q burst opts :: ('q, 'b) limiter)"
    and "lim_reach ops (New q burst opts) s" and "ls_limiter s = (l :: ('q, 'b) limiter)"
    and "touch ops key (ls_clock s) l = (el, l')"
  shows "lim_ok l \<and> int (length (lm_visitors l)) \<le> lm_maxVisitors (New q burst opts :: ('q, 'b) limiter) \<and>
    key \<in> vi_key ` set (lru_abs l') \<and>
    (\<forall>v \<in> set (lru_abs l). vi_key v \<notin> vi_key ` set (lru_abs l') \<longrightarrow>
       int (length (lm_visitors l)) = lm_maxVisitors (New q burst opts :: ('q, 'b) limiter) \<and>
       (\<forall>w \<in> set (lru_abs l'). vi_lastSeen v \<le> vi_lastSeen w))"
  using lim_inv_reach [OF assms(3,1,2)] touch_capped [OF _ _ _ _ _ assms(5)] assms(2,4)
  by (simp add: lim_inv_def)

theorem visitors_capped_witness:
  "length (lm_visitors (ls_limiter demo_ls)) \<le> 2 \<and>
   ''c'' \<in> vi_key ` set (lru_abs (snd (touch demo_bucket ''c'' 2 (ls_limiter demo_ls)))) \<and>
   map vi_key (lru_abs (snd (touch demo_bucket ''c'' 2 (ls_limiter demo_ls)))) = [''c'', ''b'']"
  using visitors_capped [OF demo_opts_ok _ demo_ls_reach refl surjective_pairing, of "''c''"]
  by (simp add: demo_ls_facts)

text \<open>
  In every reachable state one tick of the eviction loop removes exactly the clients that are stale at the
  tick's time. The list is ordered by recency, so stopping at the first client that is not stale misses none
  and removes no other.
\<close>

theorem stale_clients_evicted:
  assumes "\<forall>opt \<in> set opts. limiter_option opt" and "1 \<le> lm_maxVisitors (New q burst opts :: ('q, 'b) limiter)"
    and "lim_reach ops (New q burst opts) s" and "ls_limiter s = (l :: ('q, 'b) limiter)"
  shows "lru_abs (evict_stale t l) = filter (\<lambda>v. time_since t (vi_lastSeen v) \<le> lm_staleAfter l) (lru_abs l)"
  using lim_inv_reach [OF assms(3,1,2)] evict_stale_filter [of l t] assms(4) by (simp add: lim_inv_def)

theorem stale_clients_evicted_witness:
  "map vi_key (filter (\<lambda>v. time_since (defaultStaleAfter + 2) (vi_lastSeen v) \<le> lm_staleAfter (ls_limiter demo_ls))
     (lru_abs (ls_limiter demo_ls))) = [''b'']"
  using stale_clients_evicted [OF demo_opts_ok _ demo_ls_reach refl, of "defaultStaleAfter + 2"] demo_ls_facts(2,4)
  by simp

end
