(* ===== verification/Program.thy ===== *)
theory Program
  imports Routes Ratelimit_Machine
begin

text \<open>
  \<^verbatim>\<open>main\<close> of \<^verbatim>\<open>cmd/otherlode-collector/main.go\<close>: the settings are resolved in order, the first error ends the program,
  and the routes are put together from what they yield. How the program runs and ends is in \<open>Collector_Main\<close>.

  What is left out of \<^verbatim>\<open>main\<close> is input and output: the logger's construction, the listening server with its
  timeouts, and the delivery of signals.
\<close>

section \<open>Starting\<close>

definition defaultAddr :: string where
  "defaultAddr = '':4319''"

definition resolveAddr :: "string \<Rightarrow> string" where
  "resolveAddr raw = (if raw = [] then defaultAddr else raw)"

definition new_limiter :: "env \<Rightarrow> go_float \<Rightarrow> int \<Rightarrow> int \<Rightarrow> (go_float, 'b) limiter option" where
  "new_limiter getenv rps burst ipv6Prefix =
     (if f64_pos rps then
        (let header = getenv ''OTHERLODE_COLLECTOR_CLIENT_IP_HEADER'';
             opts = [WithIPv6Prefix ipv6Prefix] @ (if header \<noteq> [] then [WithClientIPHeader header] else [])
         in Some (New rps burst opts))
      else None)"

text \<open>The library functions \<^verbatim>\<open>main\<close> depends on, and the number of processors.\<close>

record 'h platform =
  pf_sha :: "string \<Rightarrow> 'h"
  pf_parse_float :: "string \<Rightarrow> go_float option"
  pf_compile :: "string \<Rightarrow> (string \<Rightarrow> bool) option"
  pf_gomaxprocs :: int

text \<open>What the settings give: the configuration of the routes and the two watched files, with the backend key.\<close>

record ('h, 'b) program =
  pg_level :: int
  pg_addr :: string
  pg_config :: "('h, go_float, 'b, forwardKey) routeConfig"
  pg_authFile :: "'h TokenSet File option"
  pg_forwardFile :: "forwardKey File option"
  pg_key :: forwardKey

text \<open>\<open>None\<close> is a panic, \<open>Some (Inl e)\<close> the error that is logged before the program exits with code 1.\<close>

definition resolve_settings :: "'h platform \<Rightarrow> env \<Rightarrow> files \<Rightarrow> (config_error + ('h, 'b) program) option" where
  "resolve_settings pf getenv fs =
     (case resolveLogLevel (getenv ''OTHERLODE_COLLECTOR_LOG_LEVEL'') of Inl e \<Rightarrow> Some (Inl e) | Inr level \<Rightarrow>
     (case resolveAuthTokens (pf_sha pf) getenv fs of None \<Rightarrow> None | Some (Inl e) \<Rightarrow> Some (Inl e) | Some (Inr (authTokens, authFile)) \<Rightarrow>
     (case resolveRateLimit (pf_parse_float pf) (getenv ''OTHERLODE_COLLECTOR_RATE_LIMIT_RPS'') (getenv ''OTHERLODE_COLLECTOR_RATE_LIMIT_BURST'') of
        Inl e \<Rightarrow> Some (Inl e) | Inr (rps, burst) \<Rightarrow>
     (case resolveIPv6Prefix (getenv ''OTHERLODE_COLLECTOR_RATE_LIMIT_IPV6_PREFIX'') of Inl e \<Rightarrow> Some (Inl e) | Inr ipv6Prefix \<Rightarrow>
     (case resolveMaxConcurrentDecodes (pf_gomaxprocs pf) getenv of Inl e \<Rightarrow> Some (Inl e) | Inr maxDecodes \<Rightarrow>
     (case resolveForwardConfig getenv fs of None \<Rightarrow> None | Some (Inl e) \<Rightarrow> Some (Inl e) | Some (Inr (forwardCfg, forwardFile, key)) \<Rightarrow>
     (case resolveEnvironment (getenv ''OTHERLODE_COLLECTOR_ENVIRONMENT'') (getenv ''OTHERLODE_COLLECTOR_ENVIRONMENT_ACTION'') of
        Inl e \<Rightarrow> Some (Inl e) | Inr envCfg \<Rightarrow>
     (case resolveNamespace (getenv ''OTHERLODE_COLLECTOR_SERVICE_NAMESPACE'') (getenv ''OTHERLODE_COLLECTOR_SERVICE_NAMESPACE_ACTION'') of
        Inl e \<Rightarrow> Some (Inl e) | Inr nsCfg \<Rightarrow>
     (case resolveRedaction (pf_compile pf) (getenv ''OTHERLODE_COLLECTOR_REDACT_BLOCKED_VALUES'') (getenv ''OTHERLODE_COLLECTOR_REDACT_ALL_LITERALS'') of
        Inl e \<Rightarrow> Some (Inl e) | Inr redactCfg \<Rightarrow>
      Some (Inr
        \<lparr>pg_level = level, pg_addr = resolveAddr (getenv ''OTHERLODE_COLLECTOR_ADDR''),
         pg_config =
           \<lparr>rt_AuthTokens = authTokens, rt_Limiter = new_limiter getenv rps burst ipv6Prefix, rt_MaxDecodes = maxDecodes,
            rt_Forward = forwardCfg, rt_Environment = envCfg, rt_Namespace = nsCfg, rt_Redaction = redactCfg\<rparr>,
         pg_authFile = authFile, pg_forwardFile = forwardFile, pg_key = key\<rparr>))))))))))"

datatype start_error = StartConfig config_error | StartRoutes string

definition start ::
  "'h platform \<Rightarrow> (string \<Rightarrow> string) \<Rightarrow> (string \<Rightarrow> string + url) \<Rightarrow> (pbmsg \<Rightarrow> go_error + string) \<Rightarrow> env \<Rightarrow> files \<Rightarrow>
   (start_error + (('h, 'b) program \<times> forwardKey routes)) option" where
  "start pf quote url_parse marshal getenv fs =
     (case resolve_settings pf getenv fs of
        None \<Rightarrow> None
      | Some (Inl e) \<Rightarrow> Some (Inl (StartConfig e))
      | Some (Inr pg) \<Rightarrow>
          (case registerRoutes quote url_parse marshal (pg_key pg) (pg_config pg) of
             (es, None) \<Rightarrow> None
           | (es, Some (Inl err)) \<Rightarrow> Some (Inl (StartRoutes err))
           | (es, Some (Inr ro)) \<Rightarrow> Some (Inr (pg, ro))))"

section \<open>Lemmas\<close>

lemma new_limiter_settings:
  assumes "new_limiter getenv rps burst bits = Some l" and "1 \<le> bits" "bits \<le> 128"
  shows "lm_rate l = rps \<and> lm_burst l = burst \<and> lm_maxVisitors l = defaultMaxVisitors \<and> lm_staleAfter l = defaultStaleAfter \<and>
    lm_ipv6Prefix l = bits \<and> lm_visitors l = [] \<and> lm_order l = [] \<and> \<not> lm_stopped l"
  using assms
  by (auto simp: new_limiter_def New_def WithIPv6Prefix_def WithClientIPHeader_def Let_def split: if_splits)

lemma new_limiter_New:
  assumes "new_limiter getenv rps burst bits = Some l"
  shows "\<exists>opts. l = New rps burst opts \<and> (\<forall>opt \<in> set opts. limiter_option opt)"
proof -
  let ?h = "getenv ''OTHERLODE_COLLECTOR_CLIENT_IP_HEADER''"
  let ?opts = "[WithIPv6Prefix bits] @ (if ?h \<noteq> [] then [WithClientIPHeader ?h] else [])"
  have "l = New rps burst ?opts" using assms by (auto simp: new_limiter_def Let_def split: if_splits)
  moreover have "\<forall>opt \<in> set ?opts. limiter_option opt" by (auto intro: limiter_option.intros)
  ultimately show ?thesis by blast
qed

lemma resolveRateLimit_burst: "resolveRateLimit pf rs bs = Inr (rps, burst) \<Longrightarrow> f64_pos rps \<Longrightarrow> 1 \<le> burst"
  by (auto simp: resolveRateLimit_def split: option.splits if_splits)

lemma resolveIPv6Prefix_range: "resolveIPv6Prefix raw = Inr bits \<Longrightarrow> 1 \<le> bits \<and> bits \<le> 128"
  by (auto simp: resolveIPv6Prefix_def DefaultIPv6Prefix_def split: option.splits if_splits)

lemma resolveMaxConcurrentDecodes_pos: "resolveMaxConcurrentDecodes g getenv = Inr n \<Longrightarrow> 1 \<le> g \<Longrightarrow> 1 \<le> n"
  using positiveIntEnv_range by (fastforce simp: resolveMaxConcurrentDecodes_def split: sum.splits if_splits)

lemma resolveNamespace_dot: "resolveNamespace v a = Inr cfg \<Longrightarrow> \<not> isDotSegment (trim_space (nc_value cfg))"
  by (auto simp: resolveNamespace_def isDotSegment_def Let_def split: sum.splits if_splits)

text \<open>What holds of every program that resolved its settings, one fact per component.\<close>

lemma resolve_settings_facts:
  assumes "resolve_settings pf getenv fs = Some (Inr pg)"
  shows "resolveAuthTokens (pf_sha pf) getenv fs = Some (Inr (rt_AuthTokens (pg_config pg), pg_authFile pg))"
    "resolveForwardConfig getenv fs = Some (Inr (rt_Forward (pg_config pg), pg_forwardFile pg, pg_key pg))"
    "\<not> isDotSegment (trim_space (nc_value (rt_Namespace (pg_config pg))))"
    "1 \<le> pf_gomaxprocs pf \<Longrightarrow> 1 \<le> rt_MaxDecodes (pg_config pg)"
    "\<exists>rps burst bits. rt_Limiter (pg_config pg) = new_limiter getenv rps burst bits \<and> 1 \<le> bits \<and> bits \<le> 128 \<and>
       (f64_pos rps \<longrightarrow> 1 \<le> burst)"
proof -
  obtain auth afile rps burst bits n fcfg ffile k ns where
    a: "resolveAuthTokens (pf_sha pf) getenv fs = Some (Inr (auth, afile))"
    and r: "resolveRateLimit (pf_parse_float pf) (getenv ''OTHERLODE_COLLECTOR_RATE_LIMIT_RPS'') (getenv ''OTHERLODE_COLLECTOR_RATE_LIMIT_BURST'') = Inr (rps, burst)"
    and i: "resolveIPv6Prefix (getenv ''OTHERLODE_COLLECTOR_RATE_LIMIT_IPV6_PREFIX'') = Inr bits"
    and m: "resolveMaxConcurrentDecodes (pf_gomaxprocs pf) getenv = Inr n"
    and f: "resolveForwardConfig getenv fs = Some (Inr (fcfg, ffile, k))"
    and s: "resolveNamespace (getenv ''OTHERLODE_COLLECTOR_SERVICE_NAMESPACE'') (getenv ''OTHERLODE_COLLECTOR_SERVICE_NAMESPACE_ACTION'') = Inr ns"
    and pg: "rt_AuthTokens (pg_config pg) = auth" "pg_authFile pg = afile" "rt_Forward (pg_config pg) = fcfg"
      "pg_forwardFile pg = ffile" "pg_key pg = k" "rt_Namespace (pg_config pg) = ns" "rt_MaxDecodes (pg_config pg) = n"
      "rt_Limiter (pg_config pg) = new_limiter getenv rps burst bits"
    using assms by (auto simp: resolve_settings_def split: sum.splits option.splits prod.splits)
  show "resolveAuthTokens (pf_sha pf) getenv fs = Some (Inr (rt_AuthTokens (pg_config pg), pg_authFile pg))"
    "resolveForwardConfig getenv fs = Some (Inr (rt_Forward (pg_config pg), pg_forwardFile pg, pg_key pg))"
    using a f pg by simp_all
  show "\<not> isDotSegment (trim_space (nc_value (rt_Namespace (pg_config pg))))" using resolveNamespace_dot [OF s] pg by simp
  show "1 \<le> rt_MaxDecodes (pg_config pg)" if "1 \<le> pf_gomaxprocs pf" using resolveMaxConcurrentDecodes_pos [OF m that] pg by simp
  show "\<exists>rps burst bits. rt_Limiter (pg_config pg) = new_limiter getenv rps burst bits \<and> 1 \<le> bits \<and> bits \<le> 128 \<and>
       (f64_pos rps \<longrightarrow> 1 \<le> burst)"
    using pg(8) resolveIPv6Prefix_range [OF i] resolveRateLimit_burst [OF r] by blast
qed

lemma start_Inr:
  assumes "start pf quote url_parse marshal getenv fs = Some (Inr (pg, ro))"
  shows "resolve_settings pf getenv fs = Some (Inr pg)"
    "\<exists>es. registerRoutes quote url_parse marshal (pg_key pg) (pg_config pg) = (es, Some (Inr ro))"
  using assms by (auto simp: start_def split: option.splits sum.splits prod.splits)

lemma resolveForwardConfig_total: "\<exists>result. resolveForwardConfig getenv fs = Some result"
  using resolve_forward_key_cases [of getenv fs]
  by (auto simp: resolveForwardConfig_def split: sum.splits)

lemma resolveAuthTokens_total: "\<exists>result. resolveAuthTokens sha getenv fs = Some result"
  by (cases rule: resolveAuthTokens_cases [of sha getenv fs]) auto

lemma resolve_settings_total: "resolve_settings pf getenv fs \<noteq> None"
proof -
  obtain a where a: "resolveAuthTokens (pf_sha pf) getenv fs = Some a" using resolveAuthTokens_total by blast
  obtain f where f: "resolveForwardConfig getenv fs = Some f" using resolveForwardConfig_total by blast
  show ?thesis by (auto simp: resolve_settings_def a f split: sum.splits)
qed

text \<open>
  The one way in which starting panics: the settings resolve and name a backend with a usable URL, but the shards or
  their queues are larger than a process can address.
\<close>

definition sink_too_large :: "(string \<Rightarrow> string) \<Rightarrow> (string \<Rightarrow> string + url) \<Rightarrow> 'k config \<Rightarrow> bool" where
  "sink_too_large quote url_parse cfg \<longleftrightarrow>
     cf_URL cfg \<noteq> [] \<and> (\<exists>u. validateURL quote url_parse (cf_URL cfg) = Inr u) \<and>
     (2 ^ 45 < cf_Shards (withDefaults cfg) \<or> 3198579280801 < cf_QueueSize (withDefaults cfg))"

lemma start_panics:
  "start pf quote url_parse marshal getenv fs = (None :: (start_error + (('h, 'b) program \<times> forwardKey routes)) option) \<longleftrightarrow>
     (\<exists>pg :: ('h, 'b) program. resolve_settings pf getenv fs = Some (Inr pg) \<and> sink_too_large quote url_parse (rt_Forward (pg_config pg)))"
proof -
  have routes: "snd (registerRoutes quote url_parse marshal (pg_key pg) (pg_config pg)) = None \<longleftrightarrow>
      sink_too_large quote url_parse (rt_Forward (pg_config pg))" for pg :: "('h, 'b) program"
    by (simp add: registerRoutes_None sink_too_large_def)
  obtain settings :: "config_error + ('h, 'b) program" where "resolve_settings pf getenv fs = Some settings"
    using resolve_settings_total by blast
  then show ?thesis
  proof (cases settings)
    case (Inr pg)
    then show ?thesis using \<open>resolve_settings pf getenv fs = Some settings\<close> routes [of pg]
      by (cases "registerRoutes quote url_parse marshal (pg_key pg) (pg_config pg)")
        (auto simp: start_def split: option.splits sum.splits)
  qed (simp add: start_def)
qed

end
