(* ===== verification/Healthcheck.thy ===== *)
theory Healthcheck
  imports Program
begin

text \<open>
  The \<^verbatim>\<open>healthcheck\<close> subcommand (\<^verbatim>\<open>cmd/otherlode-collector/healthcheck.go\<close>): it probes the health route of the collector
  that listens on the configured address, and says so with its exit code.

  Parameters that stand for the world: the port lookup and \<^verbatim>\<open>net/netip\<close> (\<open>probe_net\<close>), and the HTTP client
  (\<open>probe_client\<close>), which never uses a proxy and gives up after \<open>healthcheckTimeout\<close>.
\<close>

definition healthcheckTimeout :: int where
  "healthcheckTimeout = 2 * 10 ^ 9"

record 'a probe_net = "'a netip" +
  ip_unspecified :: "'a \<Rightarrow> bool"
  lookup_port :: "string \<Rightarrow> string + int"

record probe_client =
  pc_new_request :: "string \<Rightarrow> string option"
  pc_do :: "string \<Rightarrow> string + (int \<times> string)"

text \<open>
  \<^verbatim>\<open>url.URL.String\<close> escapes the bytes of a host that may not stand in one; a percent sign of a zone is one of them.
\<close>

definition host_char :: "char \<Rightarrow> bool" where
  "host_char c \<longleftrightarrow>
     is_digit c \<or> byte_in 0x41 0x5A c \<or> byte_in 0x61 0x7A c \<or>
     c \<in> set (''-_.~!$&'' @ [CHR 0x27] @ ''()*+,;=:[]<>'' @ [CHR 0x22])"

definition hex_digit :: "nat \<Rightarrow> char" where
  "hex_digit d = ''0123456789ABCDEF'' ! d"

definition escape_host :: "string \<Rightarrow> string" where
  "escape_host h =
     concat (map (\<lambda>c. if host_char c then [c]
                      else [CHR ''%'', hex_digit (of_char c div 16), hex_digit (of_char c mod 16)]) h)"

definition healthzURL :: "'a probe_net \<Rightarrow> string \<Rightarrow> string + string" where
  "healthzURL net addr =
     (case SplitHostPort addr of
        None \<Rightarrow> Inl ''healthz url: the address is not a host and a port''
      | Some (host, port) \<Rightarrow>
     (case lookup_port net port of
        Inl e \<Rightarrow> Inl (''healthz url: '' @ e)
      | Inr portNum \<Rightarrow>
          (let loop = host = [] \<or>
                 (case ip_parse net host of
                    None \<Rightarrow> False
                  | Some a \<Rightarrow> ip_unspecified net (ip_unmap net (ip_no_zone net a)));
               host' = (if loop then ''127.0.0.1'' else host)
           in Inr (''http://'' @ escape_host (JoinHostPort host' (itoa portNum)) @ healthzPath))))"

definition runHealthcheck :: "probe_client \<Rightarrow> string \<Rightarrow> string option" where
  "runHealthcheck client target =
     (case pc_new_request client target of
        Some e \<Rightarrow> Some (''healthz: '' @ e)
      | None \<Rightarrow>
     (case pc_do client target of
        Inl e \<Rightarrow> Some (''healthz: '' @ e)
      | Inr (code, status) \<Rightarrow> if code \<noteq> 200 then Some (''healthz: '' @ status) else None))"

definition healthcheckCommand :: "'a probe_net \<Rightarrow> probe_client \<Rightarrow> env \<Rightarrow> string option" where
  "healthcheckCommand net client getenv =
     (case healthzURL net (resolveAddr (getenv ''OTHERLODE_COLLECTOR_ADDR'')) of
        Inl e \<Rightarrow> Some e
      | Inr target \<Rightarrow> runHealthcheck client target)"

text \<open>The exit code and what is written to the error stream.\<close>

definition runSubcommand :: "'a probe_net \<Rightarrow> probe_client \<Rightarrow> string list \<Rightarrow> env \<Rightarrow> int \<times> string" where
  "runSubcommand net client args getenv =
     (if length args \<noteq> 1 \<or> hd args \<noteq> ''healthcheck'' then
        (2, ''usage: otherlode-collector [healthcheck]'' @ [CHR 0x0A])
      else
        (case healthcheckCommand net client getenv of
           Some e \<Rightarrow> (1, e @ [CHR 0x0A])
         | None \<Rightarrow> (0, [])))"

section \<open>Specification\<close>

text \<open>The host to probe: the listener's own, or the loopback address when that is empty or unspecified.\<close>

definition probe_host :: "'a probe_net \<Rightarrow> string \<Rightarrow> string" where
  "probe_host net h =
     (if h = [] \<or> (\<exists>a. ip_parse net h = Some a \<and> ip_unspecified net (ip_unmap net (ip_no_zone net a)))
      then ''127.0.0.1'' else h)"

definition probe_url :: "'a probe_net \<Rightarrow> string \<Rightarrow> int \<Rightarrow> string" where
  "probe_url net h n = ''http://'' @ escape_host (JoinHostPort (probe_host net h) (itoa n)) @ ''/healthz''"

text \<open>How a client reads the authority of a URL: it undoes the percent escapes.\<close>

definition hex_value :: "char \<Rightarrow> nat" where
  "hex_value c = length (takeWhile (\<lambda>d. d \<noteq> c) ''0123456789ABCDEF'')"

fun unescape_host :: "string \<Rightarrow> string" where
  "unescape_host (c # d # e # cs) =
     (if c = CHR ''%'' then char_of (16 * hex_value d + hex_value e) # unescape_host cs
      else c # unescape_host (d # e # cs))"
| "unescape_host cs = cs"

section \<open>Lemmas\<close>

lemma hex_value_digit: "n < 16 \<Longrightarrow> hex_value (hex_digit n) = n"
proof -
  have "list_all (\<lambda>n. hex_value (hex_digit n) = n) [0..<16]" by code_simp
  then show "n < 16 \<Longrightarrow> hex_value (hex_digit n) = n" by (simp add: list_all_iff)
qed

lemma unescape_plain: "c \<noteq> CHR ''%'' \<Longrightarrow> unescape_host (c # cs) = c # unescape_host cs"
  by (cases cs rule: unescape_host.cases) auto

lemma unescape_escape: "unescape_host (escape_host h) = h"
proof (induction h)
  case (Cons c h)
  have c: "(of_char c :: nat) < 256" by (rule nat_of_char_less_256)
  show ?case
  proof (cases "host_char c")
    case True
    then have "c \<noteq> CHR ''%''" by (auto simp: host_char_def is_digit_def byte_in_def)
    then show ?thesis using True Cons by (simp add: escape_host_def unescape_plain)
  next
    case False
    have "of_char c div 16 < (16 :: nat)" using c by (intro less_mult_imp_div_less) simp
    moreover have "of_char c mod 16 < (16 :: nat)" by simp
    ultimately have "16 * hex_value (hex_digit (of_char c div 16)) + hex_value (hex_digit (of_char c mod 16)) = of_char c"
      by (simp add: hex_value_digit)
    then show ?thesis using False Cons by (simp add: escape_host_def)
  qed
qed (simp add: escape_host_def)

text \<open>A host that \<^verbatim>\<open>net.SplitHostPort\<close> yields holds no bracket, and neither does a number.\<close>

lemma SplitHostPort_host:
  assumes "SplitHostPort s = Some (h, p)"
  shows "CHR ''['' \<notin> set h \<and> CHR '']'' \<notin> set h"
proof (cases "s \<noteq> [] \<and> hd s = CHR ''[''")
  case True
  then obtain e where e: "first_index CHR '']'' s = Some e" "h = take (e - 1) (drop 1 s)" "CHR ''['' \<notin> set (drop 1 s)"
    using assms by (auto simp: SplitHostPort_def split: option.splits if_splits)
  have pre: "take e s = takeWhile (\<lambda>x. x \<noteq> CHR '']'') s"
    using e(1) by (auto simp: first_index_def takeWhile_eq_take [symmetric] split: if_splits)
  have "h = drop 1 (take e s)" using e(2) by (simp add: drop_take)
  then have "set h \<subseteq> set (take e s)" by (simp add: set_drop_subset)
  moreover have "set h \<subseteq> set (drop 1 s)" unfolding e(2) by (rule set_take_subset)
  ultimately show ?thesis using e(3) unfolding pre by (auto dest: set_takeWhileD)
next
  case False
  then obtain i where "h = take i s" "CHR ''['' \<notin> set s" "CHR '']'' \<notin> set s"
    using assms by (auto simp: SplitHostPort_def Let_def split: option.splits if_splits)
  then show ?thesis using set_take_subset by fast
qed

lemma itoa_host: "CHR '':'' \<notin> set (itoa n) \<and> CHR ''['' \<notin> set (itoa n) \<and> CHR '']'' \<notin> set (itoa n)"
proof -
  have "\<not> is_digit CHR '':''" "\<not> is_digit CHR ''[''" "\<not> is_digit CHR '']''" by (simp_all add: is_digit_def)
  then show ?thesis using digit_in_utoa by (auto simp: itoa_def)
qed

lemma probe_host_plain:
  assumes "SplitHostPort addr = Some (h, p)"
  shows "CHR ''['' \<notin> set (probe_host net h) \<and> CHR '']'' \<notin> set (probe_host net h)"
  using SplitHostPort_host [OF assms] by (simp add: probe_host_def)

lemma healthzURL_probe:
  "healthzURL net addr = Inr url \<longleftrightarrow>
     (\<exists>h p n. SplitHostPort addr = Some (h, p) \<and> lookup_port net p = Inr n \<and> url = probe_url net h n)"
proof -
  have host: "(if h = [] \<or> (case ip_parse net h of None \<Rightarrow> False | Some a \<Rightarrow> ip_unspecified net (ip_unmap net (ip_no_zone net a)))
      then ''127.0.0.1'' else h) = probe_host net h" for h
    by (cases "ip_parse net h") (simp_all add: probe_host_def)
  show ?thesis unfolding healthzURL_def Let_def host probe_url_def healthzPath_def
    by (auto split: option.split sum.split)
qed

lemma runHealthcheck_None:
  "runHealthcheck client target = None \<longleftrightarrow>
     pc_new_request client target = None \<and> (\<exists>status. pc_do client target = Inr (200, status))"
  by (auto simp: runHealthcheck_def split: option.splits sum.splits)

lemma healthcheckCommand_None:
  "healthcheckCommand net client getenv = None \<longleftrightarrow>
     (\<exists>url. healthzURL net (resolveAddr (getenv ''OTHERLODE_COLLECTOR_ADDR'')) = Inr url \<and> runHealthcheck client url = None)"
  by (simp add: healthcheckCommand_def split: sum.split)

section \<open>Properties\<close>

definition demo_net :: "unit probe_net" where
  "demo_net =
     \<lparr>ip_parse = (\<lambda>s. if s = ''0.0.0.0'' then Some () else None), ip_no_zone = id, ip_unmap = id, ip_is4 = (\<lambda>a. True),
      ip_string = (\<lambda>a. ''0.0.0.0''), ip_prefix = (\<lambda>a n. None), ip_unspecified = (\<lambda>a. True),
      lookup_port = (\<lambda>s. case atoi s of None \<Rightarrow> Inl ''unknown port'' | Some n \<Rightarrow> Inr n)\<rparr>"

definition demo_client :: probe_client where
  "demo_client =
     \<lparr>pc_new_request = (\<lambda>u. None),
      pc_do = (\<lambda>u. if u = ''http://[fe80::1%25eth0]:4319/healthz'' then Inr (200, ''200 OK'') else Inl ''refused'')\<rparr>"

text \<open>
  C38: the health check probes the listener it should, and its exit code tells the truth, for every listening
  address. The exit code is 0 exactly when the command line is the one word \<^verbatim>\<open>healthcheck\<close>, the address splits into a
  host and a port that resolves, and the probe of the health route at that port, on that host or on the loopback
  address when the host is empty or unspecified, was answered 200. It is 2 exactly on another command line and 1
  otherwise, and something is written to the error stream exactly when it is not 0. The URL's authority, unescaped,
  splits again into that host, with its zone if it has one, and that port.
\<close>

theorem healthcheck_truthful:
  fixes net :: "'a probe_net" and client :: probe_client and args :: "string list" and getenv :: env
  defines "addr \<equiv> resolveAddr (getenv ''OTHERLODE_COLLECTOR_ADDR'')"
    and "code \<equiv> fst (runSubcommand net client args getenv)"
  shows "(code = 0 \<longleftrightarrow> args = [''healthcheck''] \<and>
       (\<exists>h p n status. SplitHostPort addr = Some (h, p) \<and> lookup_port net p = Inr n \<and>
          pc_new_request client (probe_url net h n) = None \<and> pc_do client (probe_url net h n) = Inr (200, status))) \<and>
    (code = 2 \<longleftrightarrow> args \<noteq> [''healthcheck'']) \<and> code \<in> {0, 1, 2} \<and>
    (snd (runSubcommand net client args getenv) = [] \<longleftrightarrow> code = 0) \<and>
    (\<forall>h p n. SplitHostPort addr = Some (h, p) \<longrightarrow>
       SplitHostPort (unescape_host (escape_host (JoinHostPort (probe_host net h) (itoa n)))) = Some (probe_host net h, itoa n))"
proof -
  have args: "length args \<noteq> 1 \<or> hd args \<noteq> ''healthcheck'' \<longleftrightarrow> args \<noteq> [''healthcheck'']" by (cases args) auto
  note run = runSubcommand_def [of net client args getenv, unfolded args]
  have ok: "healthcheckCommand net client getenv = None \<longleftrightarrow>
      (\<exists>h p n status. SplitHostPort addr = Some (h, p) \<and> lookup_port net p = Inr n \<and>
          pc_new_request client (probe_url net h n) = None \<and> pc_do client (probe_url net h n) = Inr (200, status))"
    unfolding healthcheckCommand_None healthzURL_probe runHealthcheck_None addr_def by blast
  have "SplitHostPort (JoinHostPort (probe_host net h) (itoa n)) = Some (probe_host net h, itoa n)"
    if "SplitHostPort addr = Some (h, p)" for h p n
    using probe_host_plain [OF that] itoa_host by (intro SplitHostPort_JoinHostPort) auto
  moreover have "(code = 0 \<longleftrightarrow> args = [''healthcheck''] \<and> healthcheckCommand net client getenv = None) \<and>
      (code = 2 \<longleftrightarrow> args \<noteq> [''healthcheck'']) \<and> code \<in> {0, 1, 2} \<and>
      (snd (runSubcommand net client args getenv) = [] \<longleftrightarrow> code = 0)"
    by (auto simp: code_def run split: option.split)
  ultimately show ?thesis unfolding ok unescape_escape by blast
qed

text \<open>A listener on a zoned address is probed there, and an address that is none is a failure.\<close>

theorem healthcheck_truthful_witness:
  "fst (runSubcommand demo_net demo_client [''healthcheck''] (\<lambda>name. ''[fe80::1%eth0]:4319'')) = 0 \<and>
   SplitHostPort (unescape_host ''[fe80::1%25eth0]:4319'') = Some (''fe80::1%eth0'', ''4319'') \<and>
   fst (runSubcommand demo_net demo_client [''healthcheck''] (\<lambda>name. ''nonsense'')) = 1"
proof -
  let ?h = "''fe80::1%eth0''"
  have s: "SplitHostPort (resolveAddr ''[fe80::1%eth0]:4319'') = Some (?h, ''4319'')" "SplitHostPort (resolveAddr ''nonsense'') = None"
    by code_simp+
  have i: "itoa 4319 = ''4319''" by (simp add: itoa_def utoa.simps digit_char_def)
  have "atoi ''4319'' = Some 4319" using atoi_itoa [of 4319] by (simp add: i in_int64_def)
  then have p: "lookup_port demo_net ''4319'' = Inr 4319" by (simp add: demo_net_def)
  have h: "probe_host demo_net ?h = ?h" by (simp add: probe_host_def demo_net_def)
  have e: "escape_host (JoinHostPort ?h ''4319'') = ''[fe80::1%25eth0]:4319''" by code_simp
  have c: "pc_new_request demo_client (probe_url demo_net ?h 4319) = None"
    "pc_do demo_client (probe_url demo_net ?h 4319) = Inr (200, ''200 OK'')"
    unfolding probe_url_def h i e by (simp_all add: demo_client_def)
  note truth = healthcheck_truthful [of demo_net demo_client "[''healthcheck'']"]
  have "fst (runSubcommand demo_net demo_client [''healthcheck''] (\<lambda>name. ''[fe80::1%eth0]:4319'')) = 0"
    using truth [of "\<lambda>name. ''[fe80::1%eth0]:4319''"] s(1) p c by blast
  moreover have "SplitHostPort (unescape_host ''[fe80::1%25eth0]:4319'') = Some (?h, ''4319'')"
    using truth [of "\<lambda>name. ''[fe80::1%eth0]:4319''"] s(1) h i e by metis
  moreover have "fst (runSubcommand demo_net demo_client [''healthcheck''] (\<lambda>name. ''nonsense'')) = 1"
    using truth [of "\<lambda>name. ''nonsense''"] s(2) by auto
  ultimately show ?thesis by blast
qed

end
