(* ===== verification/Collector_Main.thy ===== *)
theory Collector_Main
  imports Healthcheck
begin

text \<open>
  \<^verbatim>\<open>main\<close> as a whole (\<^verbatim>\<open>cmd/otherlode-collector/main.go\<close>): a subcommand, or starting, watching the token files,
  listening, and ending in order. A run of \<^verbatim>\<open>main\<close> is the list of what it sets going or ends, with the exit code last.
  What the listener and the signals do is the argument \<open>ev\<close>.
\<close>

section \<open>Running and ending\<close>










section \<open>Lemmas\<close>











section \<open>Properties\<close>


end
