(* ===== verification/Collector_Machine.thy ===== *)
theory Collector_Machine
  imports Forward_Machine Collector_Main
begin

text \<open>
  The running collector with a backend: requests on their own goroutines, the forwarding sink's goroutines, the
  re-reading of the token file, the eviction of idle clients, and the ending of the program, interleaved.

  A request goes through the same functions as in \<open>Routes\<close> and \<open>Ingest\<close>, cut where another goroutine can come in
  between: the limiter's critical section and its reservation as in \<open>Ratelimit_Machine\<close>, the bearer check, reading the
  body, waiting for a decode slot, decoding and processing, the call of \<^verbatim>\<open>enqueue\<close> with the steps of
  \<open>Forward_Machine\<close>, the answer, and the release of the slot.
\<close>

section \<open>The parts of a request\<close>

text \<open>Up to the wait for a slot: the route, the method, and the body.\<close>

definition open_request :: "codec \<Rightarrow> request \<Rightarrow> (response \<times> effect list) + (payload \<times> string)" where
  "open_request cd r =
     (case payload_at (req_path r) of
        None \<Rightarrow> Inl (NotFound, [])
      | Some p \<Rightarrow>
          (if req_method r \<noteq> ''POST'' then Inl (MethodNotAllowed ''POST'', [])
           else
             (case readRequest cd (kind_of p) r of
                Inl rejected \<Rightarrow> Inl rejected
              | Inr body \<Rightarrow> Inr (p, body))))"

text \<open>With the slot: decoding and validating, what \<^verbatim>\<open>marshalAndEnqueue\<close> does before \<^verbatim>\<open>enqueue\<close>, and the answer.\<close>

definition decoded :: "codec \<Rightarrow> payload \<Rightarrow> string \<Rightarrow> (response \<times> effect list) + pbmsg" where
  "decoded cd p body =
     (case unmarshal cd (kind_of p) body of
        Inl rejected \<Rightarrow> Inl rejected
      | Inr msg \<Rightarrow>
          (case validator_of p msg of
             Some err \<Rightarrow> Inl (reject (kind_of p) err)
           | None \<Rightarrow> Inr msg))"

definition payload_path :: "payload \<Rightarrow> string" where
  "payload_path p = (case p of DeltaBatch \<Rightarrow> DeltaBatchPath | Manifest \<Rightarrow> ManifestPath | StaticBaseline \<Rightarrow> StaticBaselinePath)"

definition marshalled :: "(pbmsg \<Rightarrow> go_error + string) \<Rightarrow> payload \<Rightarrow> pbmsg \<Rightarrow> effect list + queuedItem" where
  "marshalled marshal p msg =
     (let label = PayloadLabel (payload_path p) in
      case marshal msg of
        Inl err \<Rightarrow>
          Inl [LogLine LWarn ''dropping payload: marshal failed'' [(''payload'', LStr label), (''error'', LErr err)],
               Inc ForwardDropped [label, ''marshal'']]
      | Inr body \<Rightarrow> Inr \<lparr>it_owner = instanceOf (GetResource msg), it_path = payload_path p, it_body = body\<rparr>)"

definition sink_answer :: "payload_kind \<Rightarrow> go_error option \<Rightarrow> response \<times> effect list" where
  "sink_answer kind e =
     (case e of
        Some err \<Rightarrow> sinkFailed kind err
      | None \<Rightarrow> (write_header 202 [], [Inc IngestAccepted [pk_label kind]]))"

text \<open>What the limiter's \<^verbatim>\<open>Middleware\<close> answers a request over the limit.\<close>

definition too_many :: "int \<Rightarrow> response" where
  "too_many retryAfter = http_error ''rate limit exceeded'' 429 [(''Retry-After'', itoa (retryAfterSeconds retryAfter))]"

text \<open>These are the parts of \<^verbatim>\<open>handle\<close> and of the sink's methods, in their order.\<close>

lemma decode_and_accept_parts:
  "decode_and_accept cd (kind_of p) (validator_of p) accept body st =
     (case decoded cd p body of
        Inl (resp, es) \<Rightarrow> (resp, es, st)
      | Inr msg \<Rightarrow>
          (case accept msg st of (e, es, st') \<Rightarrow> (case sink_answer (kind_of p) e of (resp, es') \<Rightarrow> (resp, es @ es', st'))))"
  by (auto simp: decode_and_accept_def decoded_def sink_answer_def split: sum.splits option.splits prod.splits)

lemma forwarding_accept_parts:
  "accept_of (ForwardingSink cfg marshal) p msg s =
     (case marshalled marshal p msg of Inl es \<Rightarrow> (None, es, s) | Inr item \<Rightarrow> enqueue cfg item s)"
  by (auto simp: ForwardingSink_accept marshalAndEnqueue_def marshalled_def payload_path_def Let_def split: sum.splits)

section \<open>State\<close>

text \<open>
  Where a request is. \<open>AtBucket el now\<close> has left the limiter's lock, with the element of its client and the time it
  read there. \<open>Handing p j\<close> is inside the sink's call number \<open>j\<close>; from \<open>Working\<close> to \<open>Replying\<close> the request holds a
  decode slot.
\<close>

datatype stage =
    AtLimiter
  | AtBucket nat int
  | AtGate
  | AtHandler
  | WaitSlot payload string
  | Working payload string
  | Handing payload nat
  | Replying "response option"
  | Over "response option"

record job =
  jb_request :: request
  jb_stage :: stage

text \<open>How far the program is: serving, shutting the server down, shutting the sink down (the flag says that the server
  ended in time), and gone with an exit code.\<close>

datatype life = Serving | ServerStopping | SinkStopping bool | Gone int

text \<open>\<open>cs_installed\<close> is history: the token lists that were accepted so far.\<close>

record ('h, 'q, 'b) csys =
  cs_clock :: int
  cs_limiter :: "('q, 'b) limiter option"
  cs_tokens :: "'h TokenSet option"
  cs_file :: "'h TokenSet File option"
  cs_used :: nat
  cs_jobs :: "job list"
  cs_fm :: fm
  cs_life :: life
  cs_trace :: "effect list"
  cs_installed :: "string list list"

text \<open>What does not change while the program runs: its library functions and its settings.\<close>

record ('h, 'q, 'b, 'r, 'a, 'k) collector =
  co_started :: int
  co_ops :: "('q, 'b, 'r) bucket_ops"
  co_ip :: "'a netip"
  co_sha :: "string \<Rightarrow> 'h"
  co_codec :: codec
  co_marshal :: "pbmsg \<Rightarrow> go_error + string"
  co_parse_time :: "string \<Rightarrow> int option"
  co_config :: "('h, 'q, 'b, 'k) routeConfig"
  co_forward :: "'k config"

definition co_handler :: "('h, 'q, 'b, 'r, 'a, 'k) collector \<Rightarrow> handler" where
  "co_handler co = NewHandler [WithMaxConcurrentDecodes (rt_MaxDecodes (co_config co))]"

definition cs_start :: "('h, 'q, 'b, 'r, 'a, 'k) collector \<Rightarrow> 'h TokenSet File option \<Rightarrow> string list \<Rightarrow> ('h, 'q, 'b) csys" where
  "cs_start co tokfile accepted =
     \<lparr>cs_clock = co_started co, cs_limiter = rt_Limiter (co_config co), cs_tokens = rt_AuthTokens (co_config co), cs_file = tokfile, cs_used = 0,
      cs_jobs = [], cs_fm = fm_init (co_forward co), cs_life = Serving, cs_trace = [], cs_installed = [accepted]\<rparr>"

definition put_job :: "nat \<Rightarrow> stage \<Rightarrow> effect list \<Rightarrow> ('h, 'q, 'b) csys \<Rightarrow> ('h, 'q, 'b) csys" where
  "put_job i st es s =
     s\<lparr>cs_jobs := (cs_jobs s)[i := (cs_jobs s ! i)\<lparr>jb_stage := st\<rparr>], cs_trace := cs_trace s @ es\<rparr>"

section \<open>Steps\<close>

text \<open>A handler that only says that the guard let the request through.\<close>

definition let_through :: "bool http_handler" where
  "let_through r passed = (None, [], True)"

text \<open>The steps of request number \<open>i\<close>.\<close>

inductive job_step ::
  "('h, 'q, 'b, 'r, 'a, 'k) collector \<Rightarrow> nat \<Rightarrow> ('h, 'q, 'b) csys \<Rightarrow> ('h, 'q, 'b) csys \<Rightarrow> bool"
  for co :: "('h, 'q, 'b, 'r, 'a, 'k) collector" and i :: nat where
  no_limiter:
    "jb_stage (cs_jobs s ! i) = AtLimiter \<Longrightarrow> cs_limiter s = None \<Longrightarrow> job_step co i s (put_job i AtGate [] s)"
| tracked:
    "jb_stage (cs_jobs s ! i) = AtLimiter \<Longrightarrow> cs_limiter s = Some l \<Longrightarrow>
     touch (co_ops co) (clientIP (co_ip co) l (jb_request (cs_jobs s ! i))) (cs_clock s) l = (el, l') \<Longrightarrow>
     job_step co i s ((put_job i (AtBucket el (cs_clock s)) [] s)\<lparr>cs_limiter := Some l'\<rparr>)"
| token_taken:
    "jb_stage (cs_jobs s ! i) = AtBucket el now \<Longrightarrow> cs_limiter s = Some l \<Longrightarrow>
     reserve_on (co_ops co) el now l = ((True, retryAfter), l') \<Longrightarrow>
     job_step co i s ((put_job i AtGate [] s)\<lparr>cs_limiter := Some l'\<rparr>)"
| over_limit:
    "jb_stage (cs_jobs s ! i) = AtBucket el now \<Longrightarrow> cs_limiter s = Some l \<Longrightarrow>
     reserve_on (co_ops co) el now l = ((False, retryAfter), l') \<Longrightarrow>
     job_step co i s ((put_job i (Over (Some (too_many retryAfter))) [Inc RateLimited []] s)\<lparr>cs_limiter := Some l'\<rparr>)"
| gate:
    "jb_stage (cs_jobs s ! i) = AtGate \<Longrightarrow>
     opt_guard (RequireBearerToken (co_sha co)) let_through (jb_request (cs_jobs s ! i)) (cs_tokens s, False) =
       (resp, es, (tokens, passed)) \<Longrightarrow>
     job_step co i s (put_job i (if passed then AtHandler else Over resp) es s)"
| turned_away:
    "jb_stage (cs_jobs s ! i) = AtHandler \<Longrightarrow> open_request (co_codec co) (jb_request (cs_jobs s ! i)) = Inl (resp, es) \<Longrightarrow>
     job_step co i s (put_job i (Over (Some resp)) es s)"
| opened:
    "jb_stage (cs_jobs s ! i) = AtHandler \<Longrightarrow> open_request (co_codec co) (jb_request (cs_jobs s ! i)) = Inr (p, body) \<Longrightarrow>
     job_step co i s (put_job i (WaitSlot p body) [] s)"
| slot_held:
    "jb_stage (cs_jobs s ! i) = WaitSlot p body \<Longrightarrow> acquire (co_handler co) (kind_of p) ev (cs_used s) = (SlotHeld, used) \<Longrightarrow>
     job_step co i s ((put_job i (Working p body) [] s)\<lparr>cs_used := used\<rparr>)"
| slot_failed:
    "jb_stage (cs_jobs s ! i) = WaitSlot p body \<Longrightarrow>
     acquire (co_handler co) (kind_of p) ev (cs_used s) = (SlotFailed resp es, used) \<Longrightarrow>
     job_step co i s ((put_job i (Over resp) es s)\<lparr>cs_used := used\<rparr>)"
| undecodable:
    "jb_stage (cs_jobs s ! i) = Working p body \<Longrightarrow> decoded (co_codec co) p body = Inl (resp, es) \<Longrightarrow>
     job_step co i s (put_job i (Replying (Some resp)) es s)"
| unmarshallable:
    "jb_stage (cs_jobs s ! i) = Working p body \<Longrightarrow> decoded (co_codec co) p body = Inr msg \<Longrightarrow>
     processed (co_config co) p msg = (msg', es) \<Longrightarrow> marshalled (co_marshal co) p msg' = Inl es' \<Longrightarrow>
     sink_answer (kind_of p) None = (resp, es'') \<Longrightarrow>
     job_step co i s (put_job i (Replying (Some resp)) (es @ es' @ es'') s)"
| handed:
    "jb_stage (cs_jobs s ! i) = Working p body \<Longrightarrow> decoded (co_codec co) p body = Inr msg \<Longrightarrow>
     processed (co_config co) p msg = (msg', es) \<Longrightarrow> marshalled (co_marshal co) p msg' = Inr item \<Longrightarrow>
     job_step co i s
       ((put_job i (Handing p (length (m_calls (cs_fm s)))) es s)
          \<lparr>cs_fm := (cs_fm s)\<lparr>m_calls := m_calls (cs_fm s) @ [CallStart item]\<rparr>\<rparr>)"
| enqueueing:
    "jb_stage (cs_jobs s ! i) = Handing p j \<Longrightarrow> j < length (m_calls (cs_fm s)) \<Longrightarrow>
     call_step (co_forward co) j (cs_fm s) fm \<Longrightarrow> job_step co i s (s\<lparr>cs_fm := fm\<rparr>)"
| returned:
    "jb_stage (cs_jobs s ! i) = Handing p j \<Longrightarrow> m_calls (cs_fm s) ! j = CallDone item e \<Longrightarrow>
     sink_answer (kind_of p) e = (resp, es) \<Longrightarrow>
     job_step co i s (put_job i (Replying (Some resp)) es s)"
| over:
    "jb_stage (cs_jobs s ! i) = Replying resp \<Longrightarrow>
     job_step co i s ((put_job i (Over resp) [] s)\<lparr>cs_used := release_slot (co_handler co) (cs_used s)\<rparr>)"

fun is_over :: "job \<Rightarrow> bool" where
  "is_over jb \<longleftrightarrow> (case jb_stage jb of Over resp \<Rightarrow> True | _ \<Rightarrow> False)"

text \<open>
  The steps of the program. The server's shutdown ends in time once no request is left, and no request can arrive
  after that; otherwise it ends at its deadline. The sink is shut down after it. The watch of the token file may
  see one more tick after a signal. A server that stops by itself ends the program at once.
\<close>

inductive cs_step ::
  "('h, 'q, 'b, 'r, 'a, 'k) collector \<Rightarrow> ('h, 'q, 'b) csys \<Rightarrow> ('h, 'q, 'b) csys \<Rightarrow> bool"
  for co :: "('h, 'q, 'b, 'r, 'a, 'k) collector" where
  arrive:
    "cs_life s \<in> {Serving, ServerStopping, SinkStopping False} \<Longrightarrow> top_route_of r = TopIngest \<Longrightarrow>
     cs_step co s (s\<lparr>cs_jobs := cs_jobs s @ [\<lparr>jb_request = r, jb_stage = AtLimiter\<rparr>]\<rparr>)"
| job:
    "\<forall>code. cs_life s \<noteq> Gone code \<Longrightarrow> i < length (cs_jobs s) \<Longrightarrow> job_step co i s t \<Longrightarrow> cs_step co s t"
| worker:
    "\<forall>code. cs_life s \<noteq> Gone code \<Longrightarrow> i < length (m_workers (cs_fm s)) \<Longrightarrow>
     worker_step (co_forward co) (co_parse_time co) i (cs_fm s) fm \<Longrightarrow> cs_step co s (s\<lparr>cs_fm := fm\<rparr>)"
| rotate:
    "\<forall>code. cs_life s \<noteq> Gone code \<Longrightarrow> cs_file s = Some f \<Longrightarrow> cs_tokens s = Some tokens \<Longrightarrow>
     reload f v tokens = Some (f', tokens', es) \<Longrightarrow>
     cs_step co s
       (s\<lparr>cs_file := Some f', cs_tokens := Some tokens', cs_trace := cs_trace s @ es,
          cs_installed := cs_installed s @ [f_last f']\<rparr>)"
| tick: "cs_clock s \<le> now \<Longrightarrow> cs_step co s (s\<lparr>cs_clock := now\<rparr>)"
| evict:
    "\<forall>code. cs_life s \<noteq> Gone code \<Longrightarrow> cs_limiter s = Some l \<Longrightarrow> now \<le> cs_clock s \<Longrightarrow>
     cs_step co s (s\<lparr>cs_limiter := Some (evict_stale now l)\<rparr>)"
| signal: "cs_life s = Serving \<Longrightarrow> cs_step co s (s\<lparr>cs_life := ServerStopping\<rparr>)"
| server_down:
    "cs_life s = ServerStopping \<Longrightarrow> list_all is_over (cs_jobs s) \<Longrightarrow> cs_step co s (s\<lparr>cs_life := SinkStopping True\<rparr>)"
| server_late: "cs_life s = ServerStopping \<Longrightarrow> cs_step co s (s\<lparr>cs_life := SinkStopping False\<rparr>)"
| sink_shutdown:
    "cs_life s = SinkStopping clean \<Longrightarrow> shutdown_step (cs_fm s) fm \<Longrightarrow> cs_step co s (s\<lparr>cs_fm := fm\<rparr>)"
| exit:
    "cs_life s = SinkStopping clean \<Longrightarrow> m_shutdown (cs_fm s) = SReturned \<Longrightarrow>
     cs_step co s (s\<lparr>cs_life := Gone (if clean then 0 else 1)\<rparr>)"
| serve_ended:
    "cs_life s = Serving \<Longrightarrow> cs_step co s (s\<lparr>cs_life := Gone (if server_closed then 0 else 1)\<rparr>)"

inductive cs_reach ::
  "('h, 'q, 'b, 'r, 'a, 'k) collector \<Rightarrow> 'h TokenSet File option \<Rightarrow> string list \<Rightarrow> ('h, 'q, 'b) csys \<Rightarrow> bool"
  for co :: "('h, 'q, 'b, 'r, 'a, 'k) collector" and tokfile :: "'h TokenSet File option" and accepted :: "string list" where
  start: "cs_reach co tokfile accepted (cs_start co tokfile accepted)"
| step: "cs_reach co tokfile accepted s \<Longrightarrow> cs_step co s t \<Longrightarrow> cs_reach co tokfile accepted t"

inductive_cases job_stepE: "job_step co i s t"
inductive_cases cs_stepE: "cs_step co s t"

section \<open>Lemmas: what the parts count and answer\<close>

lemma guard_let_through:
  assumes "http_guard guard code ctr" and "guard let_through r (g, False) = (resp, es, (g', passed))"
    and "ctr \<notin> {ForwardDelivered, ForwardDropped}" and "code \<noteq> 202"
  shows "outcomes es = 0" and "\<not> passed \<Longrightarrow> \<not> is_accepted resp"
  using http_guard.passed_or_rejected [OF assms(1,2)] assms(3,4)
  by (auto simp: let_through_def is_accepted_def)

lemmas bearer_let_through = guard_let_through [OF opt_bearer.http_guard_axioms]

lemma readRequest_quiet:
  "readRequest cd kind r = Inl (resp, es) \<Longrightarrow> outcomes es = 0 \<and> resp_status resp \<noteq> 202"
  by (auto simp: readRequest_def checkContentType_def readBody_def split: option.splits sum.splits if_splits)

lemma open_request_quiet:
  "open_request cd r = Inl (resp, es) \<Longrightarrow> outcomes es = 0 \<and> resp_status resp \<noteq> 202"
  by (auto simp: open_request_def NotFound_def MethodNotAllowed_def dest: readRequest_quiet
      split: option.splits sum.splits if_splits)

lemma acquire_quiet: "acquire h kind ev used = (SlotFailed resp es, used') \<Longrightarrow> outcomes es = 0 \<and> \<not> is_accepted resp"
  by (auto simp: acquire_def is_accepted_def split: option.splits slot_event.splits if_splits)

lemma decoded_quiet: "decoded cd p body = Inl (resp, es) \<Longrightarrow> outcomes es = 0 \<and> resp_status resp \<noteq> 202"
  by (auto simp: decoded_def unmarshal_def reject_def split: sum.splits option.splits)

lemma sink_answer_quiet:
  "sink_answer kind e = (resp, es) \<Longrightarrow> outcomes es = 0 \<and> (is_accepted (Some resp) \<longleftrightarrow> e = None)"
  by (auto simp: sink_answer_def sinkFailed_def is_accepted_def split: option.splits)

lemma marshalled_drop: "marshalled marshal p msg = Inl es \<Longrightarrow> outcomes es = 1"
  by (auto simp: marshalled_def Let_def split: sum.splits)

lemma stamp_quiet:
  "outcomes (snd (stamp_payload (ns_stamp cfg l) m)) = 0" "outcomes (snd (stamp_payload (env_stamp ecfg l) m)) = 0"
  by (simp_all add: stamp_payload_def ns_stamp_def env_stamp_def Let_def split: option.split)

lemma redact_quiet: "outcomes (snd (redact cfg p m)) = 0"
  by (cases p) (simp_all add: redact_manifest_def redact_baseline_def split_beta Let_def record_redacted_def)

lemma processed_quiet: "processed cfg p m = (m', es) \<Longrightarrow> outcomes es = 0"
  by (auto simp: processed_def split_beta Let_def stamp_quiet redact_quiet)

lemma reload_quiet: "reload f v c = Some (f', c', es) \<Longrightarrow> outcomes es = 0"
  by (auto simp: reload_def Let_def split: sum.splits option.splits if_splits)

lemma too_many_quiet: "outcomes [Inc RateLimited []] = 0 \<and> \<not> is_accepted (Some (too_many retryAfter))"
  by (simp add: too_many_def is_accepted_def)

lemmas quiet = too_many_quiet bearer_let_through open_request_quiet acquire_quiet decoded_quiet sink_answer_quiet
  marshalled_drop processed_quiet reload_quiet

section \<open>Lemmas: the sink inside the collector\<close>

text \<open>Whatever the collector does, its sink takes steps of its own machine.\<close>

lemma job_step_fm:
  assumes "job_step co i s t"
  shows "cs_fm t = cs_fm s \<or> fm_step (co_forward co) pt (cs_fm s) (cs_fm t)"
  using assms by (cases rule: job_step.cases) (auto simp: put_job_def intro: fm_step.intros)

lemma cs_step_fm:
  assumes "cs_step co s t"
  shows "cs_fm t = cs_fm s \<or> fm_step (co_forward co) (co_parse_time co) (cs_fm s) (cs_fm t)"
  using assms by (cases rule: cs_step.cases) (auto dest: job_step_fm intro: fm_step.intros)

lemma cs_reach_fm: "cs_reach co tokfile accepted s \<Longrightarrow> fm_reach (co_forward co) (co_parse_time co) (cs_fm s)"
proof (induction rule: cs_reach.induct)
  case start
  then show ?case by (simp add: cs_start_def fm_reach.start)
next
  case (step s t)
  then show ?case using cs_step_fm [OF step.hyps(2)] by (auto intro: fm_reach.step)
qed

text \<open>A call changes only its own entry, and a call that moves was not done.\<close>

lemma call_step_calls:
  assumes "call_step cfg j s t"
  shows "\<exists>c. m_calls t = (m_calls s)[j := c] \<and> call_item c = call_item (m_calls s ! j) \<and> taken (m_calls s ! j) = {#}"
  using assms by (cases rule: call_step.cases) (auto simp: put_defs)

section \<open>Each call belongs to one request\<close>

definition owned :: "nat \<Rightarrow> job list \<Rightarrow> bool" where
  "owned n jobs \<longleftrightarrow>
     (\<forall>i < length jobs. \<forall>p j. jb_stage (jobs ! i) = Handing p j \<longrightarrow>
        j < n \<and> (\<forall>k < length jobs. \<forall>q. jb_stage (jobs ! k) = Handing q j \<longrightarrow> k = i))"

lemma ownedD:
  assumes "owned n jobs" and "i < length jobs" and "jb_stage (jobs ! i) = Handing p j"
  shows "j < n" and "k < length jobs \<Longrightarrow> jb_stage (jobs ! k) = Handing q j \<Longrightarrow> k = i"
  using assms unfolding owned_def by blast+

lemma ownedI:
  assumes "\<And>i p j. i < length jobs \<Longrightarrow> jb_stage (jobs ! i) = Handing p j \<Longrightarrow> j < n"
    and "\<And>i k p q j. i < length jobs \<Longrightarrow> k < length jobs \<Longrightarrow> jb_stage (jobs ! i) = Handing p j \<Longrightarrow>
      jb_stage (jobs ! k) = Handing q j \<Longrightarrow> k = i"
  shows "owned n jobs"
  using assms unfolding owned_def by blast

lemma owned_put:
  assumes "owned n jobs" and "\<forall>p j. jb_stage jb \<noteq> Handing p j"
  shows "owned n (jobs[i := jb])"
proof -
  have same: "jobs[i := jb] ! k = jobs ! k" if "k < length jobs" "jb_stage (jobs[i := jb] ! k) = Handing p j" for k p j
    using that assms(2) by (cases "k = i") auto
  show ?thesis by (rule ownedI) (use same ownedD [OF assms(1)] in \<open>metis length_list_update\<close>)+
qed

lemma owned_hand:
  assumes "owned n jobs" and "jb_stage jb = Handing p n"
  shows "owned (Suc n) (jobs[i := jb])"
proof -
  have cases: "k = i \<and> j = n \<or> k \<noteq> i \<and> j < n \<and> jb_stage (jobs ! k) = Handing q j"
    if "k < length jobs" "jb_stage (jobs[i := jb] ! k) = Handing q j" for k q j
    using that assms(2) ownedD(1) [OF assms(1)] by (cases "k = i") auto
  show ?thesis
  proof (rule ownedI)
    fix k q j assume "k < length (jobs[i := jb])" "jb_stage (jobs[i := jb] ! k) = Handing q j"
    then show "j < Suc n" using cases [of k q j] by auto
  next
    fix k l q q' j
    assume k: "k < length (jobs[i := jb])" "jb_stage (jobs[i := jb] ! k) = Handing q j"
      and l: "l < length (jobs[i := jb])" "jb_stage (jobs[i := jb] ! l) = Handing q' j"
    show "l = k"
      using cases [of k q j] cases [of l q' j] k l ownedD(2) [OF assms(1), of k q j l q'] by auto
  qed
qed

lemma owned_arrive: "owned n jobs \<Longrightarrow> \<forall>p j. jb_stage jb \<noteq> Handing p j \<Longrightarrow> owned n (jobs @ [jb])"
  unfolding owned_def by (auto simp: nth_append less_Suc_eq)

lemma owned_none: "owned n []"
  by (simp add: owned_def)

abbreviation call_owner :: "('h, 'q, 'b) csys \<Rightarrow> bool" where
  "call_owner s \<equiv> owned (length (m_calls (cs_fm s))) (cs_jobs s)"

lemma call_owner_job: "call_owner s \<Longrightarrow> job_step co i s t \<Longrightarrow> call_owner t"
  by (erule job_step.cases) (auto simp: put_job_def owned_put owned_hand dest!: call_step_calls)

lemma call_owner_step:
  assumes "call_owner s" and "cs_step co s t"
  shows "call_owner t"
  using assms(2)
  by (cases rule: cs_step.cases)
    (use assms(1) in \<open>auto simp: owned_arrive worker_calls shutdown_frame intro: call_owner_job\<close>)

lemma call_owner_reach: "cs_reach co tokfile accepted s \<Longrightarrow> call_owner s"
  by (induction rule: cs_reach.induct) (auto simp: cs_start_def owned_none intro: call_owner_step)

section \<open>Every acknowledgement is backed\<close>

text \<open>What a request weighs: 1 once its payload was taken by the sink or it was answered 202.\<close>

fun weight :: "call list \<Rightarrow> stage \<Rightarrow> nat" where
  "weight calls (Handing p j) = size (taken (calls ! j))"
| "weight calls (Replying resp) = of_bool (is_accepted resp)"
| "weight calls (Over resp) = of_bool (is_accepted resp)"
| "weight calls _ = 0"

definition acks :: "call list \<Rightarrow> job list \<Rightarrow> nat" where
  "acks calls jobs = sum_list (map (\<lambda>jb. weight calls (jb_stage jb)) jobs)"

lemma acks_simps [simp]:
  "acks calls [] = 0" "acks calls (jobs @ jobs') = acks calls jobs + acks calls jobs'"
  "acks calls [jb] = weight calls (jb_stage jb)"
  by (simp_all add: acks_def)

lemma acks_put:
  assumes "i < length jobs"
  shows "acks calls (jobs[i := jb]) + weight calls (jb_stage (jobs ! i)) = acks calls jobs + weight calls (jb_stage jb)"
  using sum_list_map_update [OF assms] by (simp add: acks_def)

lemma acks_cong:
  assumes "\<And>jb. jb \<in> set jobs \<Longrightarrow> weight calls (jb_stage jb) = weight calls' (jb_stage jb)"
  shows "acks calls jobs = acks calls' jobs"
  using assms unfolding acks_def by (metis (no_types, lifting) map_eq_conv)

lemma acks_new_call:
  assumes "owned (length calls) jobs"
  shows "acks (calls @ [c]) jobs = acks calls jobs"
proof (rule acks_cong)
  fix jb assume "jb \<in> set jobs"
  then obtain k where "k < length jobs" "jb = jobs ! k" by (auto simp: in_set_conv_nth)
  then show "weight (calls @ [c]) (jb_stage jb) = weight calls (jb_stage jb)"
    using ownedD(1) [OF assms, of k] by (cases "jb_stage jb") (auto simp: nth_append)
qed

lemma sum_list_change:
  fixes f g :: "'x \<Rightarrow> nat"
  assumes "i < length xs" and "\<And>k. k < length xs \<Longrightarrow> k \<noteq> i \<Longrightarrow> f (xs ! k) = g (xs ! k)"
  shows "sum_list (map g xs) + f (xs ! i) = sum_list (map f xs) + g (xs ! i)"
proof -
  have "map g xs = (map f xs)[i := g (xs ! i)]"
    by (rule nth_equalityI) (use assms in \<open>auto simp: nth_list_update\<close>)
  then show ?thesis using sum_list_map_update [of i "map f xs" id "g (xs ! i)"] assms(1) by simp
qed

text \<open>A call that moves changes only the weight of the request it belongs to.\<close>

lemma acks_call:
  assumes "owned (length calls) jobs" and "i < length jobs" and "jb_stage (jobs ! i) = Handing p j"
  shows "acks (calls[j := c]) jobs + size (taken (calls ! j)) = acks calls jobs + size (taken c)"
proof -
  have j: "j < length calls" by (rule ownedD(1) [OF assms])
  have "weight calls (jb_stage (jobs ! k)) = weight (calls[j := c]) (jb_stage (jobs ! k))" if "k < length jobs" "k \<noteq> i" for k
  proof (cases "jb_stage (jobs ! k)")
    case (Handing q l)
    then have "l \<noteq> j" using ownedD(2) [OF assms] that by blast
    then show ?thesis using Handing by simp
  qed simp_all
  from sum_list_change [OF assms(2), of "\<lambda>jb. weight calls (jb_stage jb)" "\<lambda>jb. weight (calls[j := c]) (jb_stage jb)", OF this]
  show ?thesis using j by (simp add: acks_def assms(3))
qed

definition backed :: "('h, 'q, 'b) csys \<Rightarrow> bool" where
  "backed s \<longleftrightarrow>
     acks (m_calls (cs_fm s)) (cs_jobs s) = outcomes (cs_trace s) + size (sum_list (map taken (m_calls (cs_fm s))))"

text \<open>A request that moves without the sink: its weight changes by what the step counts.\<close>

lemma backed_put:
  assumes "backed s" and "i < length (cs_jobs s)"
    and "weight (m_calls (cs_fm s)) st = weight (m_calls (cs_fm s)) (jb_stage (cs_jobs s ! i)) + outcomes es"
  shows "backed (put_job i st es s)"
  using assms(1,3) acks_put [OF assms(2), of "m_calls (cs_fm s)" "(cs_jobs s ! i)\<lparr>jb_stage := st\<rparr>"]
  by (simp add: backed_def put_job_def)

lemma backed_frame [simp]:
  "backed (s\<lparr>cs_limiter := l\<rparr>) = backed s" "backed (s\<lparr>cs_clock := now\<rparr>) = backed s" "backed (s\<lparr>cs_used := n\<rparr>) = backed s" "backed (s\<lparr>cs_life := li\<rparr>) = backed s"
  by (simp_all add: backed_def)

lemma backed_job:
  assumes "backed s" and "call_owner s" and "i < length (cs_jobs s)" and "job_step co i s t"
  shows "backed t"
  using assms(4)
proof (cases rule: job_step.cases)
  case (over_limit el now l retryAfter l')
  then show ?thesis using too_many_quiet [of retryAfter] by (auto intro!: backed_put assms)
next
  case (gate resp es tokens passed)
  note q = bearer_let_through [OF gate(3)]
  show ?thesis unfolding gate(1) using q gate(2) by (intro backed_put assms) (cases passed; simp)
next
  case (turned_away resp es)
  then show ?thesis using open_request_quiet [OF turned_away(3)] by (auto intro!: backed_put assms simp: is_accepted_def)
next
  case (slot_failed p body ev resp es used)
  then show ?thesis using acquire_quiet [OF slot_failed(3)] by (auto intro!: backed_put assms)
next
  case (undecodable p body resp es)
  then show ?thesis using decoded_quiet [OF undecodable(3)] by (auto intro!: backed_put assms simp: is_accepted_def)
next
  case (unmarshallable p body msg msg' es es' resp es'')
  then show ?thesis
    using sink_answer_quiet [OF unmarshallable(6)] processed_quiet [OF unmarshallable(4)] marshalled_drop [OF unmarshallable(5)]
    by (auto intro!: backed_put assms)
next
  case (handed p body msg msg' es item)
  let ?calls = "m_calls (cs_fm s)" and ?jb = "(cs_jobs s ! i)\<lparr>jb_stage := Handing p (length (m_calls (cs_fm s)))\<rparr>"
  have "acks (?calls @ [CallStart item]) ((cs_jobs s)[i := ?jb]) = acks ?calls (cs_jobs s)"
    using acks_put [OF assms(3), of "?calls @ [CallStart item]" ?jb] acks_new_call [OF assms(2)] handed(2) by simp
  then show ?thesis using assms(1) handed(1) processed_quiet [OF handed(4)] by (simp add: backed_def put_job_def)
next
  case (enqueueing p j fm)
  obtain c where c: "m_calls fm = (m_calls (cs_fm s))[j := c]" "taken (m_calls (cs_fm s) ! j) = {#}"
    using call_step_calls [OF enqueueing(4)] by blast
  then show ?thesis
    using assms(1) enqueueing(1) acks_call [OF assms(2,3) enqueueing(2), of c] taken_update [OF enqueueing(3) c(2)]
    by (simp add: backed_def)
next
  case (returned p j item e resp es)
  then show ?thesis using sink_answer_quiet [OF returned(4)]
    by (cases e) (auto intro!: backed_put assms)
qed (use assms(1,3) in \<open>auto intro!: backed_put\<close>)

lemma backed_step:
  assumes "backed s" and "call_owner s" and "cs_step co s t"
  shows "backed t"
  using assms(3)
proof (cases rule: cs_step.cases)
  case (job i)
  then show ?thesis using backed_job [OF assms(1,2)] by blast
qed (use assms(1) in \<open>auto simp: backed_def worker_calls shutdown_frame reload_quiet\<close>)

lemma backed_reach: "cs_reach co tokfile accepted s \<Longrightarrow> backed s"
proof (induction rule: cs_reach.induct)
  case start
  then show ?case by (simp add: cs_start_def backed_def fm_init_def Let_def)
next
  case (step s t)
  then show ?case using backed_step call_owner_reach by blast
qed

section \<open>How the program ends\<close>

definition life_inv :: "('h, 'q, 'b) csys \<Rightarrow> bool" where
  "life_inv s \<longleftrightarrow>
     (cs_life s \<in> {Serving, ServerStopping} \<longrightarrow> m_shutdown (cs_fm s) = SIdle) \<and>
     (cs_life s = SinkStopping True \<or> cs_life s = Gone 0 \<and> m_shutdown (cs_fm s) = SReturned \<longrightarrow> list_all is_over (cs_jobs s))"

lemma job_step_life: "job_step co i s t \<Longrightarrow> cs_life t = cs_life s \<and> m_shutdown (cs_fm t) = m_shutdown (cs_fm s)"
  by (erule job_step.cases) (auto simp: put_job_def elim!: call_stepE simp: put_defs)

lemma job_step_moves: "job_step co i s t \<Longrightarrow> \<not> is_over (cs_jobs s ! i)"
  by (erule job_step.cases) simp_all

lemma worker_shutdown: "worker_step cfg pt i s t \<Longrightarrow> m_shutdown t = m_shutdown s"
  by (erule worker_stepE) (simp_all add: put_defs)

lemma life_inv_step:
  assumes "life_inv s" and "cs_step co s t"
  shows "life_inv t"
  using assms(2)
proof (cases rule: cs_step.cases)
  case (job i)
  have "\<not> list_all is_over (cs_jobs s)" using job_step_moves [OF job(3)] job(2) by (auto simp: list_all_length)
  then show ?thesis using assms(1) job(1) job_step_life [OF job(3)] by (auto simp: life_inv_def)
qed (use assms(1) in \<open>auto simp: life_inv_def worker_shutdown split: if_splits\<close>)

lemma life_inv_reach: "cs_reach co tokfile accepted s \<Longrightarrow> life_inv s"
proof (induction rule: cs_reach.induct)
  case start
  then show ?case by (simp add: cs_start_def life_inv_def fm_init_def Let_def)
next
  case (step s t)
  then show ?case using life_inv_step by blast
qed

section \<open>Where an item comes from\<close>

text \<open>
  The token file's record, as \<^verbatim>\<open>resolveAuthTokens\<close> makes it, and the token set: both hold the list that was installed last.
\<close>

definition tokens_inv :: "('h, 'q, 'b, 'r, 'a, 'k) collector \<Rightarrow> ('h, 'q, 'b) csys \<Rightarrow> bool" where
  "tokens_inv co s \<longleftrightarrow>
     cs_installed s \<noteq> [] \<and> cs_tokens s = Some (NewTokenSet (co_sha co) (last (cs_installed s))) \<and>
     pred_option (\<lambda>f. f_check f = AtLeastOne \<and> f_apply f = store_tokens (co_sha co) \<and> f_last f = last (cs_installed s)) (cs_file s)"

lemma reload_tokens:
  assumes "f_check f = AtLeastOne" "f_apply f = store_tokens sha" and "reload f v (NewTokenSet sha (f_last f)) = Some (f', c', es)"
  shows "f_check f' = AtLeastOne \<and> f_apply f' = store_tokens sha \<and> c' = NewTokenSet sha (f_last f')"
  using assms by (auto simp: reload_def Let_def store_tokens_def Store_NewTokenSet split: sum.splits if_splits)

lemma requests_put [simp]: "map jb_request (jobs[i := (jobs ! i)\<lparr>jb_stage := st\<rparr>]) = map jb_request jobs"
proof (rule nth_equalityI)
  fix k assume "k < length (map jb_request (jobs[i := (jobs ! i)\<lparr>jb_stage := st\<rparr>]))"
  then show "map jb_request (jobs[i := (jobs ! i)\<lparr>jb_stage := st\<rparr>]) ! k = map jb_request jobs ! k"
    by (cases "k = i") auto
qed simp

lemma job_step_tokens:
  "job_step co i s t \<Longrightarrow> cs_tokens t = cs_tokens s \<and> cs_file t = cs_file s \<and> cs_installed t = cs_installed s \<and>
     map jb_request (cs_jobs t) = map jb_request (cs_jobs s)"
  by (erule job_step.cases) (simp_all add: put_job_def)

lemma tokens_inv_step:
  assumes "tokens_inv co s" and "cs_step co s t"
  shows "tokens_inv co t"
  using assms(2)
proof (cases rule: cs_step.cases)
  case (job i)
  then show ?thesis using assms(1) job_step_tokens [OF job(3)] by (simp add: tokens_inv_def)
next
  case (rotate f tokens v f' tokens' es)
  then show ?thesis using assms(1) reload_tokens [of f "co_sha co" v f' tokens' es] by (auto simp: tokens_inv_def)
qed (use assms(1) in \<open>auto simp: tokens_inv_def\<close>)

text \<open>A request is vouched for by a list of tokens that was installed at some time; an item is made from a request.\<close>

definition vouched :: "('h, 'q, 'b, 'r, 'a, 'k) collector \<Rightarrow> string list list \<Rightarrow> request \<Rightarrow> bool" where
  "vouched co installed r \<longleftrightarrow> (\<exists>toks \<in> set installed. admits (co_sha co) (NewTokenSet (co_sha co) toks) r)"

definition made_from :: "('h, 'q, 'b, 'r, 'a, 'k) collector \<Rightarrow> request \<Rightarrow> queuedItem \<Rightarrow> bool" where
  "made_from co r item \<longleftrightarrow>
     (\<exists>p body msg. open_request (co_codec co) r = Inr (p, body) \<and> decoded (co_codec co) p body = Inr msg \<and>
        marshalled (co_marshal co) p (fst (processed (co_config co) p msg)) = Inr item)"

fun stage_ok :: "('h, 'q, 'b, 'r, 'a, 'k) collector \<Rightarrow> string list list \<Rightarrow> request \<Rightarrow> stage \<Rightarrow> bool" where
  "stage_ok co installed r AtHandler \<longleftrightarrow> vouched co installed r"
| "stage_ok co installed r (WaitSlot p body) \<longleftrightarrow> vouched co installed r \<and> open_request (co_codec co) r = Inr (p, body)"
| "stage_ok co installed r (Working p body) \<longleftrightarrow> vouched co installed r \<and> open_request (co_codec co) r = Inr (p, body)"
| "stage_ok co installed r _ \<longleftrightarrow> True"

definition origin_inv :: "('h, 'q, 'b, 'r, 'a, 'k) collector \<Rightarrow> ('h, 'q, 'b) csys \<Rightarrow> bool" where
  "origin_inv co s \<longleftrightarrow>
     tokens_inv co s \<and>
     (\<forall>jb \<in> set (cs_jobs s). stage_ok co (cs_installed s) (jb_request jb) (jb_stage jb)) \<and>
     (\<forall>c \<in> set (m_calls (cs_fm s)). \<exists>r \<in> set (map jb_request (cs_jobs s)).
        vouched co (cs_installed s) r \<and> made_from co r (call_item c))"

lemma vouched_mono: "vouched co installed r \<Longrightarrow> vouched co (installed @ later) r"
  by (auto simp: vouched_def)

lemma stage_ok_mono: "stage_ok co installed r st \<Longrightarrow> stage_ok co (installed @ later) r st"
  by (cases st) (simp_all add: vouched_mono)

lemma gate_passed:
  assumes "opt_guard (RequireBearerToken sha) let_through r (Some tokens, False) = (resp, es, (t, True))"
  shows "admits sha tokens r"
  using assms by (auto simp: opt_guard_def RequireBearerToken_cases let_through_def split: if_splits)

text \<open>A request that moves to a stage that is in order keeps the invariant, as long as no call is added.\<close>

lemma origin_put:
  assumes "origin_inv co s" and "i < length (cs_jobs s)" and "stage_ok co (cs_installed s) (jb_request (cs_jobs s ! i)) st"
  shows "origin_inv co (put_job i st es s)"
proof -
  let ?jobs = "(cs_jobs s)[i := (cs_jobs s ! i)\<lparr>jb_stage := st\<rparr>]"
  have "stage_ok co (cs_installed s) (jb_request jb) (jb_stage jb)" if "jb \<in> set ?jobs" for jb
    using that assms by (auto simp: origin_inv_def dest!: set_update_subset_insert [THEN subsetD])
  then show ?thesis using assms(1) by (simp add: origin_inv_def tokens_inv_def put_job_def del: set_map)
qed

lemma origin_frame [simp]:
  "origin_inv co (s\<lparr>cs_limiter := l\<rparr>) = origin_inv co s" "origin_inv co (s\<lparr>cs_used := n\<rparr>) = origin_inv co s"
  "origin_inv co (s\<lparr>cs_life := li\<rparr>) = origin_inv co s" "origin_inv co (s\<lparr>cs_clock := now\<rparr>) = origin_inv co s"
  by (simp_all add: origin_inv_def tokens_inv_def)

lemma origin_job:
  assumes "origin_inv co s" and "i < length (cs_jobs s)" and "job_step co i s t"
  shows "origin_inv co t"
proof -
  have ok: "stage_ok co (cs_installed s) (jb_request (cs_jobs s ! i)) (jb_stage (cs_jobs s ! i))"
    using assms(1,2) by (simp add: origin_inv_def)
  from assms(3) show ?thesis
  proof (cases rule: job_step.cases)
    case (gate resp es tokens passed)
    have "vouched co (cs_installed s) (jb_request (cs_jobs s ! i))" if passed
    proof -
      have "cs_tokens s = Some (NewTokenSet (co_sha co) (last (cs_installed s)))" "cs_installed s \<noteq> []"
        using assms(1) by (simp_all add: origin_inv_def tokens_inv_def)
      then show ?thesis using gate_passed gate(3) that by (metis last_in_set vouched_def)
    qed
    then show ?thesis unfolding gate(1) by (intro origin_put assms) simp
  next
    case (handed p body msg msg' es item)
    let ?r = "jb_request (cs_jobs s ! i)"
    have "made_from co ?r item" using ok handed by (auto simp: made_from_def)
    moreover have "vouched co (cs_installed s) ?r" using ok handed(2) by simp
    moreover have "?r \<in> set (map jb_request (cs_jobs s))" using assms(2) by simp
    moreover have "origin_inv co (put_job i (Handing p (length (m_calls (cs_fm s)))) es s)"
      by (intro origin_put assms) simp
    ultimately show ?thesis unfolding handed(1)
      by (auto simp: origin_inv_def tokens_inv_def put_job_def simp del: set_map)
  next
    case (enqueueing p j fm)
    obtain c where c: "m_calls fm = (m_calls (cs_fm s))[j := c]" "call_item c = call_item (m_calls (cs_fm s) ! j)"
      using call_step_calls [OF enqueueing(4)] by blast
    have "call_item ` set (m_calls fm) \<subseteq> call_item ` set (m_calls (cs_fm s))"
      using c enqueueing(3) by (auto dest!: set_update_subset_insert [THEN subsetD])
    then show ?thesis using assms(1) enqueueing(1)
      by (auto simp: origin_inv_def tokens_inv_def simp del: set_map dest!: subsetD)
  qed (use assms ok in \<open>auto intro!: origin_put\<close>)
qed

lemma origin_step:
  assumes "origin_inv co s" and "cs_step co s t"
  shows "origin_inv co t"
proof -
  have tok: "tokens_inv co t" using tokens_inv_step assms by (auto simp: origin_inv_def)
  from assms(2) show ?thesis
  proof (cases rule: cs_step.cases)
    case (job i)
    then show ?thesis using origin_job [OF assms(1)] by blast
  next
    case (rotate f tokens v f' tokens' es)
    have "stage_ok co (cs_installed t) (jb_request jb) (jb_stage jb)" if "jb \<in> set (cs_jobs t)" for jb
      using that assms(1) rotate(1) by (simp add: origin_inv_def stage_ok_mono)
    moreover have "vouched co (cs_installed t) r" if "vouched co (cs_installed s) r" for r
      using that rotate(1) by (simp add: vouched_mono)
    ultimately show ?thesis using assms(1) tok rotate(1) by (fastforce simp: origin_inv_def)
  qed (use assms(1) tok in \<open>auto simp: origin_inv_def worker_calls shutdown_frame\<close>)
qed

end
