(* ===== verification/Collector_Run.thy ===== *)
theory Collector_Run
  imports Collector_Machine
begin

text \<open>
  What the running collector of \<open>Collector_Machine\<close> guarantees from end to end, and a concrete run of it: choices of
  a scheduler, executed one after another, whose every step is a step of the machine.
\<close>

section \<open>Executable runs\<close>

text \<open>The two limits are too large for the code generator's natural numbers; it compares integers instead.\<close>

lemma readBody_code [code]:
  "readBody r =
     (if 16777216 < int (length (req_data r)) then Inl (http_error ''request body too large'' 413 [], ''too_large'')
      else if req_fails r then Inl (http_error ''failed to read body'' 400 [], ''read'')
      else Inr (req_data r))"
  by (simp add: readBody_def maxBodyBytes_def)

lemma Read_code [code]:
  "Read path v =
     (case fv_open_err v of Some e \<Rightarrow> Inl e
      | None \<Rightarrow>
     (case fv_stat_err v of Some e \<Rightarrow> Inl e
      | None \<Rightarrow>
      if \<not> fv_regular v then Inl (path @ '' is not a regular file'')
      else if 1048576 < int (length (fv_data v)) then Inl (path @ '' is larger than '' @ utoa maxFileBytes @ '' bytes'')
      else (case fv_read_err v of Some e \<Rightarrow> Inl e | None \<Rightarrow> Inr (Parse (fv_data v)))))"
  by (simp add: Read_def read_limited_def maxFileBytes_def split: option.split)

text \<open>A choice: a request comes, request \<open>i\<close> moves, time passes, a worker moves, the file is read again, the program ends.\<close>

datatype 'k cs_choice =
    Come request
  | Move nat slot_event
  | Tick int
  | Drain nat
  | LastAttempt nat "'k exchange"
  | Reread file_view
  | Signal
  | ServerDown
  | ShutSink
  | Leave

fun move_job ::
  "('h, 'q, 'b, 'r, 'a, 'k) collector \<Rightarrow> nat \<Rightarrow> slot_event \<Rightarrow> stage \<Rightarrow> ('h, 'q, 'b) csys \<Rightarrow> ('h, 'q, 'b) csys option" where
  "move_job co i ev AtLimiter s =
     (case cs_limiter s of
        None \<Rightarrow> Some (put_job i AtGate [] s)
      | Some l \<Rightarrow>
          (case touch (co_ops co) (clientIP (co_ip co) l (jb_request (cs_jobs s ! i))) (cs_clock s) l of
             (el, l') \<Rightarrow> Some ((put_job i (AtBucket el (cs_clock s)) [] s)\<lparr>cs_limiter := Some l'\<rparr>)))"
| "move_job co i ev (AtBucket el now) s =
     (case cs_limiter s of
        None \<Rightarrow> None
      | Some l \<Rightarrow>
          (case reserve_on (co_ops co) el now l of
             ((True, retryAfter), l') \<Rightarrow> Some ((put_job i AtGate [] s)\<lparr>cs_limiter := Some l'\<rparr>)
           | ((False, retryAfter), l') \<Rightarrow>
               Some ((put_job i (Over (Some (too_many retryAfter))) [Inc RateLimited []] s)\<lparr>cs_limiter := Some l'\<rparr>)))"
| "move_job co i ev AtGate s =
     (case opt_guard (RequireBearerToken (co_sha co)) let_through (jb_request (cs_jobs s ! i)) (cs_tokens s, False) of
        (resp, es, (tokens, passed)) \<Rightarrow> Some (put_job i (if passed then AtHandler else Over resp) es s))"
| "move_job co i ev AtHandler s =
     (case open_request (co_codec co) (jb_request (cs_jobs s ! i)) of
        Inl (resp, es) \<Rightarrow> Some (put_job i (Over (Some resp)) es s)
      | Inr (p, body) \<Rightarrow> Some (put_job i (WaitSlot p body) [] s))"
| "move_job co i ev (WaitSlot p body) s =
     (case acquire (co_handler co) (kind_of p) ev (cs_used s) of
        (SlotHeld, used) \<Rightarrow> Some ((put_job i (Working p body) [] s)\<lparr>cs_used := used\<rparr>)
      | (SlotFailed resp es, used) \<Rightarrow> Some ((put_job i (Over resp) es s)\<lparr>cs_used := used\<rparr>)
      | (SlotBlocked, used) \<Rightarrow> None)"
| "move_job co i ev (Working p body) s =
     (case decoded (co_codec co) p body of
        Inl (resp, es) \<Rightarrow> Some (put_job i (Replying (Some resp)) es s)
      | Inr msg \<Rightarrow>
          (case processed (co_config co) p msg of (msg', es) \<Rightarrow>
             (case marshalled (co_marshal co) p msg' of
                Inl es' \<Rightarrow>
                  (case sink_answer (kind_of p) None of
                     (resp, es'') \<Rightarrow> Some (put_job i (Replying (Some resp)) (es @ es' @ es'') s))
              | Inr item \<Rightarrow>
                  Some ((put_job i (Handing p (length (m_calls (cs_fm s)))) es s)
                    \<lparr>cs_fm := (cs_fm s)\<lparr>m_calls := m_calls (cs_fm s) @ [CallStart item]\<rparr>\<rparr>))))"
| "move_job co i ev (Handing p j) s =
     (if j < length (m_calls (cs_fm s)) then
        (case m_calls (cs_fm s) ! j of
           CallDone item e \<Rightarrow>
             (case sink_answer (kind_of p) e of (resp, es) \<Rightarrow> Some (put_job i (Replying (Some resp)) es s))
         | c \<Rightarrow> map_option (\<lambda>fm. s\<lparr>cs_fm := fm\<rparr>) (exec_call (co_forward co) j c (cs_fm s)))
      else None)"
| "move_job co i ev (Replying resp) s =
     Some ((put_job i (Over resp) [] s)\<lparr>cs_used := release_slot (co_handler co) (cs_used s)\<rparr>)"
| "move_job co i ev (Over resp) s = None"

lemma move_job_step:
  assumes "move_job co i ev (jb_stage (cs_jobs s ! i)) s = Some t"
  shows "job_step co i s t"
proof (cases "jb_stage (cs_jobs s ! i)")
  case (Handing p j)
  let ?c = "m_calls (cs_fm s) ! j"
  show ?thesis
  proof (cases "\<exists>item e. ?c = CallDone item e")
    case True
    then show ?thesis using assms Handing by (auto intro: job_step.returned split: prod.splits if_splits)
  next
    case False
    then have "map_option (\<lambda>fm. s\<lparr>cs_fm := fm\<rparr>) (exec_call (co_forward co) j ?c (cs_fm s)) = Some t" "j < length (m_calls (cs_fm s))"
      using assms Handing by (auto split: call.splits if_splits)
    then show ?thesis using Handing by (auto intro: job_step.enqueueing exec_call_step)
  qed
qed (use assms in \<open>auto intro: job_step.intros split: prod.splits sum.splits option.splits bool.splits slot_result.splits\<close>)

definition alive :: "('h, 'q, 'b) csys \<Rightarrow> bool" where
  "alive s \<longleftrightarrow> (case cs_life s of Gone code \<Rightarrow> False | _ \<Rightarrow> True)"

fun cs_exec ::
  "('h, 'q, 'b, 'r, 'a, 'k) collector \<Rightarrow> 'k cs_choice \<Rightarrow> ('h, 'q, 'b) csys \<Rightarrow> ('h, 'q, 'b) csys option" where
  "cs_exec co (Come r) s =
     (if cs_life s = Serving \<and> top_route_of r = TopIngest
      then Some (s\<lparr>cs_jobs := cs_jobs s @ [\<lparr>jb_request = r, jb_stage = AtLimiter\<rparr>]\<rparr>) else None)"
| "cs_exec co (Move i ev) s =
     (if alive s \<and> i < length (cs_jobs s) then move_job co i ev (jb_stage (cs_jobs s ! i)) s else None)"
| "cs_exec co (Tick now) s = (if cs_clock s \<le> now then Some (s\<lparr>cs_clock := now\<rparr>) else None)"
| "cs_exec co (Drain i) s =
     (if alive s \<and> i < length (m_workers (cs_fm s))
      then map_option (\<lambda>fm. s\<lparr>cs_fm := fm\<rparr>) (exec_worker i (m_workers (cs_fm s) ! i) (cs_fm s)) else None)"
| "cs_exec co (LastAttempt i ex) s =
     (if alive s \<and> i < length (m_workers (cs_fm s)) then
        (case m_workers (cs_fm s) ! i of
           WFinal item \<Rightarrow>
             Some (s\<lparr>cs_fm := note_ended i item
               (log_effects (finalDeliveryAttempt (co_forward co) (co_parse_time co) (m_ctx_done (cs_fm s)) ex item)
                 (put_worker i (WRelease item True) (cs_fm s)))\<rparr>)
         | _ \<Rightarrow> None)
      else None)"
| "cs_exec co (Reread v) s =
     (if alive s then
        (case (cs_file s, cs_tokens s) of
           (Some f, Some tokens) \<Rightarrow>
             (case reload f v tokens of
                None \<Rightarrow> None
              | Some (f', tokens', es) \<Rightarrow>
                  Some (s\<lparr>cs_file := Some f', cs_tokens := Some tokens', cs_trace := cs_trace s @ es,
                    cs_installed := cs_installed s @ [f_last f']\<rparr>))
         | _ \<Rightarrow> None)
      else None)"
| "cs_exec co Signal s = (if cs_life s = Serving then Some (s\<lparr>cs_life := ServerStopping\<rparr>) else None)"
| "cs_exec co ServerDown s =
     (if cs_life s = ServerStopping \<and> list_all is_over (cs_jobs s) then Some (s\<lparr>cs_life := SinkStopping True\<rparr>) else None)"
| "cs_exec co ShutSink s =
     (case cs_life s of
        SinkStopping clean \<Rightarrow> map_option (\<lambda>fm. s\<lparr>cs_fm := fm\<rparr>) (exec_shutdown (m_shutdown (cs_fm s)) (cs_fm s))
      | _ \<Rightarrow> None)"
| "cs_exec co Leave s =
     (case cs_life s of
        SinkStopping clean \<Rightarrow>
          if m_shutdown (cs_fm s) = SReturned then Some (s\<lparr>cs_life := Gone (if clean then 0 else 1)\<rparr>) else None
      | _ \<Rightarrow> None)"

fun cs_run ::
  "('h, 'q, 'b, 'r, 'a, 'k) collector \<Rightarrow> 'k cs_choice list \<Rightarrow> ('h, 'q, 'b) csys \<Rightarrow> ('h, 'q, 'b) csys option" where
  "cs_run co [] s = Some s"
| "cs_run co (c # cs) s = (case cs_exec co c s of None \<Rightarrow> None | Some t \<Rightarrow> cs_run co cs t)"

lemma alive_not_gone: "alive s \<Longrightarrow> \<forall>code. cs_life s \<noteq> Gone code"
  by (auto simp: alive_def)

lemma cs_exec_step:
  assumes "cs_exec co c s = Some t"
  shows "cs_step co s t"
proof (cases c)
  case (Move i ev)
  then show ?thesis using assms by (auto intro!: cs_step.job [OF alive_not_gone] move_job_step split: if_splits)
next
  case (Drain i)
  then show ?thesis using assms by (auto intro!: cs_step.worker [OF alive_not_gone] exec_worker_step split: if_splits)
next
  case (LastAttempt i ex)
  then show ?thesis using assms
    by (auto intro!: cs_step.worker [OF alive_not_gone] worker_step.finalled split: if_splits worker.splits)
next
  case (Reread v)
  then show ?thesis using assms
    by (auto intro!: cs_step.rotate [OF alive_not_gone] split: if_splits option.splits prod.splits)
next
  case ShutSink
  then show ?thesis using assms
    by (auto intro: cs_step.sink_shutdown exec_shutdown_step split: life.splits)
next
  case Leave
  then show ?thesis using assms by (auto intro: cs_step.exit [of s True, simplified] cs_step.exit [of s False, simplified]
        split: life.splits if_splits)
qed (use assms in \<open>auto intro: cs_step.intros split: if_splits\<close>)

lemma cs_run_reach: "cs_reach co tokfile accepted s \<Longrightarrow> cs_run co cs s = Some t \<Longrightarrow> cs_reach co tokfile accepted t"
proof (induction cs arbitrary: s)
  case (Cons c cs)
  then obtain u where u: "cs_exec co c s = Some u" "cs_run co cs u = Some t" by (auto split: option.splits)
  from Cons.IH [OF cs_reach.step [OF Cons.prems(1) cs_exec_step [OF u(1)]] u(2)] show ?case .
qed simp

section \<open>A concrete run\<close>

text \<open>
  A collector with one shard and a token file. A request with the first token is acknowledged, the file is read again
  and holds another token, a request with the first token is refused, and after a signal the queued payload gets its
  last attempt before the program leaves with code 0.
\<close>

definition small_collector :: "(string, unit, int, int, unit, unit) collector" where
  "small_collector =
     \<lparr>co_started = 0, co_ops = demo_bucket, co_ip = demo_netip, co_sha = id, co_codec = demo_codec, co_marshal = (\<lambda>m. Inr ''bytes''),
      co_parse_time = (\<lambda>v. None),
      co_config = \<lparr>rt_AuthTokens = Some (NewTokenSet id [''tok1'']), rt_Limiter = None, rt_MaxDecodes = 1, rt_Forward = small_config,
        rt_Environment = \<lparr>ec_value = ''prod'', ec_action = Insert\<rparr>, rt_Namespace = \<lparr>nc_value = [], nc_action = Insert\<rparr>,
        rt_Redaction = \<lparr>rc_blocked = [], rc_all = True\<rparr>\<rparr>,
      co_forward = small_config\<rparr>"

definition small_file :: "string TokenSet File" where
  "small_file =
     \<lparr>f_path = ''/auth'', f_label = ''auth'', f_check = AtLeastOne, f_apply = store_tokens id, f_last = [''tok1''], f_failing = False\<rparr>"

definition small_request :: request where
  "small_request = demo_request\<lparr>req_headers := (''Authorization'', ''Bearer tok1'') # req_headers demo_request\<rparr>"

definition served_choices :: "unit cs_choice list" where
  "served_choices = Come small_request # replicate 11 (Move 0 TakeSlot) @ [Come small_request, Move 1 TakeSlot, Reread (demo_view ''tok2'')]"

definition ended_choices :: "unit cs_choice list" where
  "ended_choices = served_choices @ [Move 1 TakeSlot, Signal, ServerDown] @ replicate 4 ShutSink @
     [Drain 0, Drain 0, LastAttempt 0 (demo_exchange 200), Drain 0, Drain 0, ShutSink, Leave]"

definition cs_after :: "unit cs_choice list \<Rightarrow> (string, unit, int) csys" where
  "cs_after cs = the (cs_run small_collector cs (cs_start small_collector (Some small_file) [''tok1'']))"

text \<open>What the witnesses look at in the state a run leads to.\<close>

definition seen :: "(string, unit, int) csys \<Rightarrow> life \<times> shutdown \<times> stage list \<times> string list list \<times> string list option \<times> string option list" where
  "seen s =
     (cs_life s, m_shutdown (cs_fm s), map jb_stage (cs_jobs s), map (map it_body) (m_sent (cs_fm s)), map_option f_last (cs_file s),
      map (\<lambda>jb. bearerToken (header_get ''Authorization'' (jb_request jb))) (cs_jobs s))"

lemma seen_served:
  "map_option seen (cs_run small_collector served_choices (cs_start small_collector (Some small_file) [''tok1''])) =
     Some (Serving, SIdle, [Over (Some (write_header 202 [])), AtGate], [[''bytes'']], Some [''tok2''], [Some ''tok1'', Some ''tok1''])"
  by code_simp

lemma seen_ended:
  "map_option seen (cs_run small_collector ended_choices (cs_start small_collector (Some small_file) [''tok1''])) =
     Some (Gone 0, SReturned, [Over (Some (write_header 202 [])), Over (Some unauthorized)], [[''bytes'']], Some [''tok2''],
       [Some ''tok1'', Some ''tok1''])"
  by code_simp

lemma served_facts:
  "cs_run small_collector served_choices (cs_start small_collector (Some small_file) [''tok1'']) \<noteq> None"
  "map jb_stage (cs_jobs (cs_after served_choices)) = [Over (Some (write_header 202 [])), AtGate]"
  "map (map it_body) (m_sent (cs_fm (cs_after served_choices))) = [[''bytes'']]"
  "cs_life (cs_after served_choices) = Serving" "map_option f_last (cs_file (cs_after served_choices)) = Some [''tok2'']"
  "map (\<lambda>jb. bearerToken (header_get ''Authorization'' (jb_request jb))) (cs_jobs (cs_after served_choices)) = [Some ''tok1'', Some ''tok1'']"
  using seen_served by (auto simp: seen_def cs_after_def)

lemma ended_facts:
  "cs_run small_collector ended_choices (cs_start small_collector (Some small_file) [''tok1'']) \<noteq> None"
  "cs_life (cs_after ended_choices) = Gone 0" "m_shutdown (cs_fm (cs_after ended_choices)) = SReturned"
  "map jb_stage (cs_jobs (cs_after ended_choices)) = [Over (Some (write_header 202 [])), Over (Some unauthorized)]"
  using seen_ended by (auto simp: seen_def cs_after_def)

lemma cs_after_reach:
  assumes "cs_run small_collector cs (cs_start small_collector (Some small_file) [''tok1'']) \<noteq> None"
  shows "cs_reach small_collector (Some small_file) [''tok1''] (cs_after cs)"
  using assms cs_run_reach [OF cs_reach.start, of small_collector cs "Some small_file" "[''tok1'']"] by (auto simp: cs_after_def)

section \<open>Lemmas\<close>

fun acknowledged :: "job \<Rightarrow> bool" where
  "acknowledged jb \<longleftrightarrow> (case jb_stage jb of Replying resp \<Rightarrow> is_accepted resp | Over resp \<Rightarrow> is_accepted resp | _ \<Rightarrow> False)"

lemma acknowledged_weight: "of_bool (acknowledged jb) \<le> weight calls (jb_stage jb)"
  by (cases "jb_stage jb") simp_all

lemma acknowledged_acks: "length (filter acknowledged jobs) \<le> acks calls jobs"
proof (induction jobs)
  case (Cons jb jobs)
  then show ?case using acknowledged_weight [of jb calls] by (cases "acknowledged jb") (simp_all add: acks_def del: acknowledged.simps)
qed simp

lemma acknowledged_over: "list_all is_over jobs \<Longrightarrow> length (filter acknowledged jobs) = acks calls jobs"
proof (induction jobs)
  case (Cons jb jobs)
  then show ?case by (cases "jb_stage jb") (simp_all add: acks_def)
qed simp

lemma cs_taken_accounted:
  assumes "cs_reach co tokfile accepted s"
  shows "acks (m_calls (cs_fm s)) (cs_jobs s) = outcomes (cs_trace s @ m_trace (cs_fm s)) + held_items (cs_fm s)"
  using backed_reach [OF assms] taken_accounted [OF cs_reach_fm [OF assms]] by (simp add: backed_def)

text \<open>The settings of a collector whose tokens come from the environment or from a file.\<close>

definition tokens_from :: "('h, 'q, 'b, 'r, 'a, 'k) collector \<Rightarrow> 'h TokenSet File option \<Rightarrow> string list \<Rightarrow> bool" where
  "tokens_from co tokfile accepted \<longleftrightarrow>
     rt_AuthTokens (co_config co) = Some (NewTokenSet (co_sha co) accepted) \<and>
     pred_option (\<lambda>f. f_check f = AtLeastOne \<and> f_apply f = store_tokens (co_sha co) \<and> f_last f = accepted) tokfile"

text \<open>That is what \<^verbatim>\<open>resolveAuthTokens\<close> yields, unless it leaves the collector open.\<close>

lemma resolveAuthTokens_tokens_from:
  assumes "resolveAuthTokens (co_sha co) getenv fs = Some (Inr (rt_AuthTokens (co_config co), tokfile))"
    and "rt_AuthTokens (co_config co) \<noteq> None"
  shows "\<exists>accepted. tokens_from co tokfile accepted"
  using assms
  by (auto simp: resolveAuthTokens_def tokens_from_def Let_def Open_def store_tokens_def Store_NewTokenSet
      split: if_splits sum.splits option.splits bool.splits)

lemma origin_reach:
  assumes "tokens_from co tokfile accepted" and "cs_reach co tokfile accepted s"
  shows "origin_inv co s"
  using assms(2)
proof (induction rule: cs_reach.induct)
  case start
  then show ?case using assms(1)
    by (simp add: origin_inv_def tokens_inv_def tokens_from_def cs_start_def fm_init_def Let_def)
next
  case (step s t)
  then show ?case using origin_step by blast
qed

lemma in_sum_mset: "x \<in># sum_list ms \<longleftrightarrow> (\<exists>m \<in> set ms. x \<in># m)"
  by (induction ms) auto

lemma small_tokens: "tokens_from small_collector (Some small_file) [''tok1'']"
  by (simp add: tokens_from_def small_collector_def small_file_def)

section \<open>Properties\<close>

text \<open>
  C1: no acknowledged payload is lost without a trace. Under every interleaving, the requests answered 202 are at most
  the deliveries and drops counted so far plus the payloads the sink still holds. And once the program has shut
  down in order, every request was answered, nothing is held, and the 202 answers are exactly the counted
  deliveries and drops.
\<close>

theorem no_ack_lost:
  assumes "cs_reach co tokfile accepted s"
  shows "length (filter acknowledged (cs_jobs s)) \<le> outcomes (cs_trace s @ m_trace (cs_fm s)) + held_items (cs_fm s) \<and>
    (m_shutdown (cs_fm s) = SReturned \<and> cs_life s \<in> {SinkStopping True, Gone 0} \<longrightarrow>
      list_all is_over (cs_jobs s) \<and> held_items (cs_fm s) = 0 \<and>
      length (filter acknowledged (cs_jobs s)) = outcomes (cs_trace s @ m_trace (cs_fm s)))"
proof (intro conjI impI)
  show "length (filter acknowledged (cs_jobs s)) \<le> outcomes (cs_trace s @ m_trace (cs_fm s)) + held_items (cs_fm s)"
    using cs_taken_accounted [OF assms] acknowledged_acks by metis
next
  assume ret: "m_shutdown (cs_fm s) = SReturned \<and> cs_life s \<in> {SinkStopping True, Gone 0}"
  show over: "list_all is_over (cs_jobs s)" using life_inv_reach [OF assms] ret by (auto simp: life_inv_def)
  show none: "held_items (cs_fm s) = 0" by (rule returned_holds_nothing [OF cs_reach_fm [OF assms]]) (use ret in simp)
  show "length (filter acknowledged (cs_jobs s)) = outcomes (cs_trace s @ m_trace (cs_fm s))"
    using none cs_taken_accounted [OF assms] acknowledged_over [OF over] by simp
qed

theorem no_ack_lost_witness:
  "outcomes (cs_trace (cs_after ended_choices) @ m_trace (cs_fm (cs_after ended_choices))) = 1 \<and>
   1 \<le> outcomes (cs_trace (cs_after served_choices) @ m_trace (cs_fm (cs_after served_choices))) + held_items (cs_fm (cs_after served_choices))"
proof -
  have ack: "length (filter acknowledged jobs) =
      length (filter (\<lambda>st. case st of Replying resp \<Rightarrow> is_accepted resp | Over resp \<Rightarrow> is_accepted resp | _ \<Rightarrow> False) (map jb_stage jobs))"
    for jobs by (induction jobs) simp_all
  show ?thesis
    using no_ack_lost [OF cs_after_reach [OF ended_facts(1)]] no_ack_lost [OF cs_after_reach [OF served_facts(1)]]
    unfolding ack ended_facts served_facts by (simp add: is_accepted_def)
qed

text \<open>
  C2: whatever the backend gets was sent by someone who may send it, and is what the settings make of it. Each item that was
  ever queued for delivery stems from a request that presented a token which some list of accepted tokens, installed
  at the start or by a re-read of the token file, holds; the request was a POST to the payload's path with a body
  that decodes to a valid payload, and the item is that payload after redaction and stamping.
\<close>

theorem items_vouched:
  assumes "tokens_from co tokfile accepted" and "cs_reach co tokfile accepted s"
    and "i < length (m_sent (cs_fm s))" and "item \<in> set (m_sent (cs_fm s) ! i)"
  shows "\<exists>jb \<in> set (cs_jobs s). \<exists>toks \<in> set (cs_installed s). \<exists>p body msg.
    admits (co_sha co) (NewTokenSet (co_sha co) toks) (jb_request jb) \<and>
    payload_at (req_path (jb_request jb)) = Some p \<and> req_method (jb_request jb) = ''POST'' \<and>
    readRequest (co_codec co) (kind_of p) (jb_request jb) = Inr body \<and> unmarshal (co_codec co) (kind_of p) body = Inr msg \<and>
    validator_of p msg = None \<and> marshalled (co_marshal co) p (fst (processed (co_config co) p msg)) = Inr item"
proof -
  have "item \<in># sum_list (map mset (m_sent (cs_fm s)))" using assms(3,4) by (auto simp: in_sum_mset)
  then have "item \<in># sum_list (map taken (m_calls (cs_fm s)))"
    using taken.reach_holds [OF cs_reach_fm [OF assms(2)]] unfolding taken_inv_def by metis
  then obtain c where c: "c \<in> set (m_calls (cs_fm s))" "item \<in># taken c" by (auto simp: in_sum_mset)
  then have "call_item c = item" by (cases c rule: taken.cases) auto
  with c(1) origin_reach [OF assms(1,2)] obtain jb where jb: "jb \<in> set (cs_jobs s)" "vouched co (cs_installed s) (jb_request jb)"
    "made_from co (jb_request jb) item" by (auto simp: origin_inv_def)
  then obtain toks p body msg where toks: "toks \<in> set (cs_installed s)"
    "admits (co_sha co) (NewTokenSet (co_sha co) toks) (jb_request jb)"
    and m: "open_request (co_codec co) (jb_request jb) = Inr (p, body)" "decoded (co_codec co) p body = Inr msg"
      "marshalled (co_marshal co) p (fst (processed (co_config co) p msg)) = Inr item"
    by (auto simp: vouched_def made_from_def)
  from m(1) have "payload_at (req_path (jb_request jb)) = Some p" "req_method (jb_request jb) = ''POST''"
    "readRequest (co_codec co) (kind_of p) (jb_request jb) = Inr body"
    by (auto simp: open_request_def split: option.splits sum.splits if_splits)
  moreover from m(2) have "unmarshal (co_codec co) (kind_of p) body = Inr msg" "validator_of p msg = None"
    by (auto simp: decoded_def split: sum.splits option.splits)
  ultimately show ?thesis using jb(1) toks m(3) by blast
qed

theorem items_vouched_witness:
  "\<exists>jb \<in> set (cs_jobs (cs_after served_choices)). \<exists>toks \<in> set (cs_installed (cs_after served_choices)).
     admits id (NewTokenSet id toks) (jb_request jb)"
proof -
  let ?sent = "m_sent (cs_fm (cs_after served_choices))"
  obtain item where item: "?sent = [[item]]" using served_facts(3) by (auto simp: map_eq_Cons_conv)
  have reach: "cs_reach small_collector (Some small_file) [''tok1''] (cs_after served_choices)"
    by (rule cs_after_reach [OF served_facts(1)])
  from items_vouched [OF small_tokens reach, of 0 item] show ?thesis by (auto simp: item small_collector_def)
qed

text \<open>
  C7: a token that was taken out of the file is refused from the next request on. In every reachable state, a request that
  is about to be checked and does not present a token of the last good read of the file either still waits after
  the next step of any goroutine, or has been refused with 401; it never gets past the check.
\<close>

theorem revoked_token_refused:
  assumes "tokens_from co tokfile accepted" and "cs_reach co tokfile accepted s" and "cs_file s = Some f"
    and "i < length (cs_jobs s)" and "jb_stage (cs_jobs s ! i) = AtGate"
    and "collision_free (co_sha co) (f_last f) (jb_request (cs_jobs s ! i))"
    and "\<not> (\<exists>scheme tok. header_get ''Authorization'' (jb_request (cs_jobs s ! i)) = scheme @ tok \<and>
        equal_fold scheme ''Bearer '' \<and> tok \<in> set (f_last f))"
    and "cs_step co s t"
  shows "jb_stage (cs_jobs t ! i) \<in> {AtGate, Over (Some unauthorized)}"
proof -
  have tok: "cs_tokens s = Some (NewTokenSet (co_sha co) (f_last f))"
    using origin_reach [OF assms(1,2)] assms(3) by (auto simp: origin_inv_def tokens_inv_def)
  have no: "\<not> admits (co_sha co) (NewTokenSet (co_sha co) (f_last f)) (jb_request (cs_jobs s ! i))"
    using admits_exact [OF assms(6)] assms(7) by simp
  from assms(8) show ?thesis
  proof (cases rule: cs_step.cases)
    case (job k)
    show ?thesis
    proof (cases "k = i")
      case True
      from job(3) show ?thesis
        by (cases rule: job_step.cases)
          (use True assms(4,5) tok in \<open>auto simp: put_job_def opt_bearer_rejects [OF no]\<close>)
    next
      case False
      from job(3) have "cs_jobs t ! i = cs_jobs s ! i"
        by (cases rule: job_step.cases) (use False in \<open>auto simp: put_job_def\<close>)
      then show ?thesis using assms(5) by simp
    qed
  qed (use assms(4,5) in \<open>auto simp: nth_append\<close>)
qed

theorem revoked_token_refused_witness:
  "\<exists>t. cs_step small_collector (cs_after served_choices) t \<and> jb_stage (cs_jobs t ! 1) = Over (Some unauthorized)"
proof -
  let ?s = "cs_after served_choices"
  obtain f where f: "cs_file ?s = Some f" "f_last f = [''tok2'']" using served_facts(5) by (cases "cs_file ?s") auto
  obtain j0 j1 where jobs: "cs_jobs ?s = [j0, j1]" using served_facts(2) by (auto simp: map_eq_Cons_conv)
  have at: "jb_stage (cs_jobs ?s ! 1) = AtGate" using served_facts(2) jobs by simp
  have tok: "bearerToken (header_get ''Authorization'' (jb_request j1)) = Some ''tok1''" using served_facts(6) jobs by simp
  have free: "collision_free (co_sha small_collector) (f_last f) (jb_request (cs_jobs ?s ! 1))"
    using tok f(2) jobs by (simp add: collision_free_def small_collector_def)
  have no: "\<not> (\<exists>scheme t. header_get ''Authorization'' (jb_request (cs_jobs ?s ! 1)) = scheme @ t \<and> equal_fold scheme ''Bearer '' \<and> t \<in> set (f_last f))"
    using tok f(2) jobs bearerToken_Some [of "header_get ''Authorization'' (jb_request j1)"]
    by (auto simp: bearerPrefix_def)
  obtain resp es tokens passed where g: "opt_guard (RequireBearerToken (co_sha small_collector)) let_through
      (jb_request (cs_jobs ?s ! 1)) (cs_tokens ?s, False) = (resp, es, (tokens, passed))" by (metis prod_cases4)
  let ?t = "put_job 1 (if passed then AtHandler else Over resp) es ?s"
  have step: "cs_step small_collector ?s ?t"
    by (rule cs_step.job [OF _ _ job_step.gate [OF at g]]) (simp_all add: served_facts(4) jobs)
  have "jb_stage (cs_jobs ?t ! 1) \<in> {AtGate, Over (Some unauthorized)}"
    by (rule revoked_token_refused [OF small_tokens cs_after_reach [OF served_facts(1)] f(1) _ at free no step]) (simp add: jobs)
  then have "jb_stage (cs_jobs ?t ! 1) = Over (Some unauthorized)" by (simp add: put_job_def jobs split: if_splits)
  with step show ?thesis by blast
qed

end
