(* ===== verification/Serve_Steps.thy ===== *)
theory Serve_Steps
  imports Collector_Run
begin

text \<open>
  The steps of \<open>Collector_Machine\<close> against the functions of \<open>Routes\<close>: a request that is not interrupted goes through
  its steps to exactly the answer, the effects and the state that \<open>ingestHandler\<close> gives it.
\<close>

section \<open>One call of the sink\<close>

definition sink_of :: "fm \<Rightarrow> fsink" where
  "sink_of s = \<lparr>fs_shards = m_shards s, fs_closed = m_closed s\<rparr>"

lemma sink_of_simps [simp]: "fs_shards (sink_of s) = m_shards s" "fs_closed (sink_of s) = m_closed s"
  "sink_of (s\<lparr>m_calls := calls\<rparr>) = sink_of s"
  by (simp_all add: sink_of_def)

text \<open>What a finished call leaves behind.\<close>

definition call_ends :: "nat \<Rightarrow> queuedItem \<Rightarrow> fsink accepting \<Rightarrow> fm \<Rightarrow> fm \<Rightarrow> bool" where
  "call_ends j item res s t \<longleftrightarrow>
     (case res of (e, es, fs) \<Rightarrow>
        m_calls t = (m_calls s)[j := CallDone item e] \<and> sink_of t = fs \<and> m_trace t = m_trace s @ es)"

lemma call_closed:
  assumes "m_calls s ! j = CallLocked item" "m_closed s"
  shows "\<exists>t. call_step cfg j s t \<and> call_ends j item (enqueue cfg item (sink_of s)) s t"
  by (rule exI, rule conjI, rule call_step.shut [OF assms])
    (use assms(2) in \<open>simp add: call_ends_def enqueue_def put_defs sink_of_def\<close>)

lemma call_refused:
  assumes "m_calls s ! j = CallChecked item" and "\<not> m_closed s"
    and "shardIndex (shardKey (it_owner item)) (int (length (m_shards s))) = Some i"
    and "reserve (body_len item) (cf_QueueBytes cfg) (m_shards s ! i) = (False, sh)"
  shows "\<exists>t. call_step cfg j s t \<and> call_ends j item (enqueue cfg item (sink_of s)) s t"
  by (rule exI, rule conjI, rule call_step.bytes_full [OF assms(1,3,4)])
    (use assms in \<open>simp add: call_ends_def enqueue_def put_defs sink_of_def\<close>)

lemma call_reserved:
  assumes "m_calls s ! j = CallChecked item" and "j < length (m_calls s)" and "\<not> m_closed s"
    and "shardIndex (shardKey (it_owner item)) (int (length (m_shards s))) = Some i"
    and "reserve (body_len item) (cf_QueueBytes cfg) (m_shards s ! i) = (True, sh)"
  shows "\<exists>t. (call_step cfg j)\<^sup>*\<^sup>* s t \<and> call_ends j item (enqueue cfg item (sink_of s)) s t"
proof -
  let ?u = "put_shard i sh (put_call j (CallReserved item i) s)"
  have i: "i < length (m_shards s)" by (rule shardIndex_range [OF assms(4)])
  have u: "call_step cfg j s ?u" by (rule call_step.reserved [OF assms(1,4,5)])
  have c: "m_calls ?u ! j = CallReserved item i" "m_shards ?u ! i = sh" using assms(2) i by (simp_all add: put_defs)
  obtain ok sh' where send: "try_send (cf_QueueSize cfg) item sh = (ok, sh')" by fastforce
  show ?thesis
  proof (cases ok)
    case True
    let ?t = "note_sent i item (put_shard i sh' (put_call j (CallDone item None) ?u))"
    have "call_step cfg j ?u ?t" using call_step.sent [OF c(1)] c(2) send True by simp
    then have "(call_step cfg j)\<^sup>*\<^sup>* s ?t" using u by (meson converse_rtranclp_into_rtranclp r_into_rtranclp)
    moreover have "call_ends j item (enqueue cfg item (sink_of s)) s ?t"
      using assms send True by (simp add: call_ends_def enqueue_def put_defs sink_of_def)
    ultimately show ?thesis by blast
  next
    case False
    let ?v = "put_call j (CallUndo item i) ?u"
    let ?t = "log_effects (refused item ''queue_full'')
      (put_shard i (release (body_len item) (m_shards ?v ! i)) (put_call j (CallDone item (Some (owner_error ErrQueueFull item))) ?v))"
    have same: "sh' = sh" using send False by (simp add: try_send_def split: if_splits)
    have "call_step cfg j ?u ?v" using call_step.unsent [OF c(1)] c(2) send False by simp
    moreover have "call_step cfg j ?v ?t" by (rule call_step.undone) (use assms(2) in \<open>simp add: put_defs\<close>)
    ultimately have "(call_step cfg j)\<^sup>*\<^sup>* s ?t" using u by (meson converse_rtranclp_into_rtranclp r_into_rtranclp)
    moreover have "call_ends j item (enqueue cfg item (sink_of s)) s ?t"
      using assms send False same i by (simp add: call_ends_def enqueue_def put_defs sink_of_def)
    ultimately show ?thesis by blast
  qed
qed

text \<open>Without another goroutine in between, the steps of a call are \<open>enqueue\<close>.\<close>

lemma enqueue_steps:
  assumes "m_calls s ! j = CallStart item" and "j < length (m_calls s)" and "m_shutdown s \<noteq> SLocking" "m_shutdown s \<noteq> SLocked"
    and "shardIndex (shardKey (it_owner item)) (int (length (m_shards s))) = Some i"
  shows "\<exists>t. (call_step cfg j)\<^sup>*\<^sup>* s t \<and> call_ends j item (enqueue cfg item (sink_of s)) s t"
proof -
  let ?l = "put_call j (CallLocked item) s"
  have l: "call_step cfg j s ?l" by (rule call_step.lock [OF assms(1,3,4)])
  have cl: "m_calls ?l ! j = CallLocked item" "sink_of ?l = sink_of s" using assms(2) by (simp_all add: put_defs sink_of_def)
  have ends: "call_ends j item res s t"
    if "call_ends j item res u t" "m_calls u = (m_calls s)[j := c]" "m_trace u = m_trace s" for res t u c
    using that by (simp add: call_ends_def split: prod.splits)
  show ?thesis
  proof (cases "m_closed s")
    case True
    then have "m_closed ?l" by (simp add: put_defs)
    from call_closed [OF cl(1) this, of cfg] obtain t where t: "call_step cfg j ?l t" "call_ends j item (enqueue cfg item (sink_of s)) ?l t"
      unfolding cl(2) by blast
    have "call_ends j item (enqueue cfg item (sink_of s)) s t" by (rule ends [OF t(2)]) (simp_all add: put_defs)
    then show ?thesis using l t(1) by (meson converse_rtranclp_into_rtranclp r_into_rtranclp)
  next
    case False
    let ?c = "put_call j (CallChecked item) ?l"
    have c: "call_step cfg j ?l ?c" by (rule call_step.checked [OF cl(1)]) (use False in \<open>simp add: put_defs\<close>)
    have cc: "m_calls ?c ! j = CallChecked item" "j < length (m_calls ?c)" "\<not> m_closed ?c" "sink_of ?c = sink_of s"
      "m_calls ?c = (m_calls s)[j := CallChecked item]" "m_trace ?c = m_trace s" "m_shards ?c = m_shards s"
      using assms(2) False by (simp_all add: put_defs sink_of_def)
    have idx: "shardIndex (shardKey (it_owner item)) (int (length (m_shards ?c))) = Some i" using assms(5) cc(7) by simp
    obtain ok sh where r: "reserve (body_len item) (cf_QueueBytes cfg) (m_shards ?c ! i) = (ok, sh)" by fastforce
    have "\<exists>t. (call_step cfg j)\<^sup>*\<^sup>* ?c t \<and> call_ends j item (enqueue cfg item (sink_of ?c)) ?c t"
    proof (cases ok)
      case True
      show ?thesis by (rule call_reserved [OF cc(1-3) idx]) (use r True in simp)
    next
      case False
      have "reserve (body_len item) (cf_QueueBytes cfg) (m_shards ?c ! i) = (False, sh)" using r False by simp
      then obtain t where "call_step cfg j ?c t" "call_ends j item (enqueue cfg item (sink_of ?c)) ?c t"
        using call_refused [OF cc(1,3) idx] by blast
      then show ?thesis by (blast intro: r_into_rtranclp)
    qed
    then obtain t where "(call_step cfg j)\<^sup>*\<^sup>* ?c t" "call_ends j item (enqueue cfg item (sink_of s)) ?c t" unfolding cc(4) by blast
    then show ?thesis using l c ends [OF _ cc(5,6)] by (meson converse_rtranclp_into_rtranclp)
  qed
qed

section \<open>The guards and the handler, in parts\<close>

text \<open>What the limiter and the bearer check decide, whatever comes after them.\<close>

definition throttled ::
  "('q, 'b, 'r) bucket_ops \<Rightarrow> 'a netip \<Rightarrow> int \<Rightarrow> request \<Rightarrow> ('q, 'b) limiter option \<Rightarrow> response option \<times> ('q, 'b) limiter option" where
  "throttled ops ip now r lim =
     (case lim of
        None \<Rightarrow> (None, None)
      | Some l \<Rightarrow>
          (case allow ops (clientIP ip l r) now l of
             ((True, retryAfter), l') \<Rightarrow> (None, Some l')
           | ((False, retryAfter), l') \<Rightarrow> (Some (too_many retryAfter), Some l')))"

lemma throttle_parts:
  "opt_guard (Middleware ops ip now) nxt r (lim, st) =
     (case throttled ops ip now r lim of
        (None, lim') \<Rightarrow> (case nxt r st of (resp, es, st') \<Rightarrow> (resp, es, (lim', st')))
      | (Some resp, lim') \<Rightarrow> (Some resp, [Inc RateLimited []], (lim', st)))"
  by (simp add: opt_guard_def throttled_def Middleware_def too_many_def split: option.split prod.split bool.split)

lemma bearer_parts:
  "opt_guard (RequireBearerToken sha) nxt r (tokens, st) =
     (if pred_option (\<lambda>t. admits sha t r) tokens then (case nxt r st of (resp, es, st') \<Rightarrow> (resp, es, (tokens, st')))
      else (Some unauthorized, [Inc AuthRejected []], (tokens, st)))"
  by (simp add: opt_guard_def RequireBearerToken_cases split: option.split prod.split)

lemma register_parts:
  "Register cd h snk ev used r st =
     (case open_request cd r of
        Inl (resp, es) \<Rightarrow> (Some resp, es, st)
      | Inr (p, body) \<Rightarrow>
          (case acquire h (kind_of p) ev used of
             (SlotBlocked, used') \<Rightarrow> (None, [], st)
           | (SlotFailed resp es, used') \<Rightarrow> (resp, es, st)
           | (SlotHeld, used') \<Rightarrow>
               (case decode_and_accept cd (kind_of p) (validator_of p) (accept_of snk p) body st of
                  (resp, es, st') \<Rightarrow> (Some resp, es, st'))))"
  by (auto simp: Register_def open_request_def handle_payload_def handle_def
      split: option.split sum.split prod.split slot_result.split)

section \<open>The steps of a request\<close>

text \<open>
  From \<open>s\<close> to \<open>t\<close> request \<open>i\<close> moved to a stage and caused the given effects, and the sink's state is the given one;
  what the sink itself logs and counts is in its own trace.
\<close>

definition moved :: "nat \<Rightarrow> stage \<Rightarrow> effect list \<Rightarrow> fsink \<Rightarrow> ('h, 'q, 'b) csys \<Rightarrow> ('h, 'q, 'b) csys \<Rightarrow> bool" where
  "moved i st es fs s t \<longleftrightarrow>
     length (cs_jobs t) = length (cs_jobs s) \<and> cs_jobs t ! i = (cs_jobs s ! i)\<lparr>jb_stage := st\<rparr> \<and>
     (\<forall>k. k \<noteq> i \<longrightarrow> cs_jobs t ! k = cs_jobs s ! k) \<and> sink_of (cs_fm t) = fs \<and> m_shutdown (cs_fm t) = m_shutdown (cs_fm s) \<and>
     (\<exists>tr ftr. cs_trace t = cs_trace s @ tr \<and> m_trace (cs_fm t) = m_trace (cs_fm s) @ ftr \<and> mset es = mset tr + mset ftr)"

lemma moved_put: "i < length (cs_jobs s) \<Longrightarrow> moved i st es (sink_of (cs_fm s)) s (put_job i st es s)"
  unfolding moved_def by (auto simp: put_job_def intro!: exI [of _ es] exI [of _ "[]"])

lemma moved_frame [simp]:
  "moved i st es fs s (t\<lparr>cs_limiter := l\<rparr>) = moved i st es fs s t" "moved i st es fs s (t\<lparr>cs_used := n\<rparr>) = moved i st es fs s t"
  by (simp_all add: moved_def)

lemma moved_trans:
  assumes "moved i st es fs s t" and "moved i st' es' fs' t u"
  shows "moved i st' (es @ es') fs' s u"
proof -
  obtain tr ftr tr' ftr' where
    "cs_trace t = cs_trace s @ tr" "m_trace (cs_fm t) = m_trace (cs_fm s) @ ftr" "mset es = mset tr + mset ftr"
    "cs_trace u = cs_trace t @ tr'" "m_trace (cs_fm u) = m_trace (cs_fm t) @ ftr'" "mset es' = mset tr' + mset ftr'"
    using assms by (auto simp: moved_def)
  then have "cs_trace u = cs_trace s @ (tr @ tr') \<and> m_trace (cs_fm u) = m_trace (cs_fm s) @ (ftr @ ftr') \<and>
      mset (es @ es') = mset (tr @ tr') + mset (ftr @ ftr')" by simp
  then have "\<exists>tr ftr. cs_trace u = cs_trace s @ tr \<and> m_trace (cs_fm u) = m_trace (cs_fm s) @ ftr \<and> mset (es @ es') = mset tr + mset ftr"
    by blast
  with assms show ?thesis by (simp add: moved_def)
qed

lemma one_step:
  assumes "job_step co i s (put_job i st es s)" and "i < length (cs_jobs s)"
  shows "\<exists>t. (job_step co i)\<^sup>*\<^sup>* s t \<and> moved i st es (sink_of (cs_fm s)) s t \<and>
    cs_limiter t = cs_limiter s \<and> cs_tokens t = cs_tokens s \<and> cs_used t = cs_used s"
  using r_into_rtranclp [of "job_step co i", OF assms(1)] moved_put [OF assms(2), of st es]
  by (intro exI [of _ "put_job i st es s"]) (simp add: put_job_def)

text \<open>A request inside the sink: the call's steps are its steps.\<close>

lemma lift_call:
  assumes "(call_step (co_forward co) j)\<^sup>*\<^sup>* fm fm'" and "cs_fm s = fm"
    and "jb_stage (cs_jobs s ! i) = Handing p j" and "j < length (m_calls fm)"
  shows "(job_step co i)\<^sup>*\<^sup>* s (s\<lparr>cs_fm := fm'\<rparr>) \<and> length (m_calls fm') = length (m_calls fm) \<and> m_shutdown fm' = m_shutdown fm"
  using assms(1)
proof (induction rule: rtranclp_induct)
  case base
  have "s\<lparr>cs_fm := fm\<rparr> = s" using assms(2) by (cases s) auto
  then show ?case by simp
next
  case (step x y)
  have "job_step co i (s\<lparr>cs_fm := x\<rparr>) ((s\<lparr>cs_fm := x\<rparr>)\<lparr>cs_fm := y\<rparr>)"
    by (rule job_step.enqueueing [where p = p and j = j]) (use step assms in simp_all)
  moreover have "length (m_calls y) = length (m_calls x)" using call_step_calls [OF step.hyps(2)] by auto
  moreover have "m_shutdown y = m_shutdown x" using step.hyps(2) by (auto elim!: call_stepE simp: put_defs)
  ultimately show ?case using step.IH by (auto intro: rtranclp.rtrancl_into_rtrancl)
qed

lemma hand_steps:
  assumes "i < length (cs_jobs s)" and "jb_stage (cs_jobs s ! i) = Working p body" and "decoded (co_codec co) p body = Inr msg"
    and "processed (co_config co) p msg = (msg', es)" and "marshalled (co_marshal co) p msg' = Inr item"
    and "m_shutdown (cs_fm s) \<noteq> SLocking" "m_shutdown (cs_fm s) \<noteq> SLocked"
    and "0 < length (m_shards (cs_fm s))" "length (m_shards (cs_fm s)) < 2 ^ 32"
    and "enqueue (co_forward co) item (sink_of (cs_fm s)) = (e, es', fs)" and "sink_answer (kind_of p) e = (resp, es'')"
  shows "\<exists>t. (job_step co i)\<^sup>*\<^sup>* s t \<and> moved i (Replying (Some resp)) (es @ es' @ es'') fs s t \<and>
    cs_limiter t = cs_limiter s \<and> cs_tokens t = cs_tokens s \<and> cs_used t = cs_used s"
proof -
  let ?j = "length (m_calls (cs_fm s))"
  let ?h = "(put_job i (Handing p ?j) es s)\<lparr>cs_fm := (cs_fm s)\<lparr>m_calls := m_calls (cs_fm s) @ [CallStart item]\<rparr>\<rparr>"
  obtain k where k: "shardIndex (shardKey (it_owner item)) (int (length (m_shards (cs_fm ?h)))) = Some k"
    using shardIndex_total [of "int (length (m_shards (cs_fm s)))"] assms(8,9) by auto
  have h: "job_step co i s ?h" by (rule job_step.handed [OF assms(2-5)])
  have call: "m_calls (cs_fm ?h) ! ?j = CallStart item" "?j < length (m_calls (cs_fm ?h))" "sink_of (cs_fm ?h) = sink_of (cs_fm s)"
    by (simp_all add: sink_of_def)
  obtain fm where fm: "(call_step (co_forward co) ?j)\<^sup>*\<^sup>* (cs_fm ?h) fm" "call_ends ?j item (e, es', fs) (cs_fm ?h) fm"
    using enqueue_steps [OF call(1,2) _ _ k, of "co_forward co"] assms(6,7,10) by (auto simp: call(3))
  have at: "jb_stage (cs_jobs ?h ! i) = Handing p ?j" using assms(1) by (simp add: put_job_def)
  note lift = lift_call [OF fm(1) refl at call(2)]
  let ?f = "?h\<lparr>cs_fm := fm\<rparr>"
  have fin: "m_calls (cs_fm ?f) ! ?j = CallDone item e" using fm(2) by (simp add: call_ends_def)
  let ?t = "put_job i (Replying (Some resp)) es'' ?f"
  have "job_step co i ?f ?t" by (rule job_step.returned [OF _ fin assms(11)]) (use at in simp)
  then have "(job_step co i)\<^sup>*\<^sup>* s ?t" using h lift by (meson converse_rtranclp_into_rtranclp rtranclp.rtrancl_into_rtrancl)
  moreover have "cs_trace ?t = cs_trace s @ (es @ es'') \<and> m_trace (cs_fm ?t) = m_trace (cs_fm s) @ es' \<and>
      mset (es @ es' @ es'') = mset (es @ es'') + mset es'"
    using fm(2) by (simp add: put_job_def call_ends_def)
  then have "moved i (Replying (Some resp)) (es @ es' @ es'') fs s ?t"
    using assms(1) lift fm(2) unfolding moved_def by (auto simp: put_job_def call_ends_def sink_of_def)
  ultimately show ?thesis by (auto simp: put_job_def)
qed

text \<open>With a slot: from decoding to the answer, the request does what \<open>decode_and_accept\<close> does with the chain of sinks.\<close>

definition chain :: "('h, 'q, 'b, 'r, 'a, 'k) collector \<Rightarrow> fsink sink" where
  "chain co = snd (add_processors (co_config co) (ForwardingSink (co_forward co) (co_marshal co)))"

lemma work_steps:
  assumes "i < length (cs_jobs s)" and "jb_stage (cs_jobs s ! i) = Working p body"
    and "m_shutdown (cs_fm s) \<noteq> SLocking" "m_shutdown (cs_fm s) \<noteq> SLocked"
    and "0 < length (m_shards (cs_fm s))" "length (m_shards (cs_fm s)) < 2 ^ 32"
    and "decode_and_accept (co_codec co) (kind_of p) (validator_of p) (accept_of (chain co) p) body (sink_of (cs_fm s)) = (resp, es, fs)"
  shows "\<exists>t. (job_step co i)\<^sup>*\<^sup>* s t \<and> moved i (Replying (Some resp)) es fs s t \<and>
    cs_limiter t = cs_limiter s \<and> cs_tokens t = cs_tokens s \<and> cs_used t = cs_used s"
proof (cases "decoded (co_codec co) p body")
  case (Inl rejected)
  obtain resp' es1 where rj: "rejected = (resp', es1)" by fastforce
  then have "resp' = resp" "es1 = es" "fs = sink_of (cs_fm s)" using assms(7) Inl by (simp_all add: decode_and_accept_parts)
  then show ?thesis using one_step [OF job_step.undecodable [OF assms(2)] assms(1)] Inl rj by simp
next
  case (Inr msg)
  obtain msg' es1 where pr: "processed (co_config co) p msg = (msg', es1)" by fastforce
  show ?thesis
  proof (cases "marshalled (co_marshal co) p msg'")
    case m: (Inl es2)
    obtain resp' es3 where an: "sink_answer (kind_of p) None = (resp', es3)" by fastforce
    have "resp' = resp" "es = es1 @ es2 @ es3" "fs = sink_of (cs_fm s)"
      using assms(7) Inr pr m an
      by (simp_all add: decode_and_accept_parts chain_def chain_accept pass_on_def forwarding_accept_parts)
    then show ?thesis using one_step [OF job_step.unmarshallable [OF assms(2) Inr pr m an] assms(1)] by simp
  next
    case m: (Inr item)
    obtain e es2 fs2 where en: "enqueue (co_forward co) item (sink_of (cs_fm s)) = (e, es2, fs2)" by (metis prod_cases3)
    obtain resp' es3 where an: "sink_answer (kind_of p) e = (resp', es3)" by fastforce
    have "resp' = resp" "es = es1 @ es2 @ es3" "fs2 = fs"
      using assms(7) Inr pr m en an
      by (simp_all add: decode_and_accept_parts chain_def chain_accept pass_on_def forwarding_accept_parts)
    then show ?thesis using hand_steps [OF assms(1,2) Inr pr m assms(3-6) en an] by simp
  qed
qed

lemma acquire_release: "acquire h kind ev used = (SlotHeld, used') \<Longrightarrow> release_slot h used' = used"
  by (auto simp: acquire_def release_slot_def split: option.splits slot_event.splits if_splits)

lemma acquire_failed_used: "acquire h kind ev used = (SlotFailed resp es, used') \<Longrightarrow> used' = used"
  by (auto simp: acquire_def split: option.splits slot_event.splits if_splits)

lemma run_then:
  assumes "(job_step co i)\<^sup>*\<^sup>* s t" "moved i st es fs s t" and "(job_step co i)\<^sup>*\<^sup>* t u" "moved i st' es' fs' t u"
  shows "(job_step co i)\<^sup>*\<^sup>* s u \<and> moved i st' (es @ es') fs' s u"
  using assms moved_trans by (blast intro: rtranclp_trans)

lemma slot_steps:
  assumes "i < length (cs_jobs s)" and "jb_stage (cs_jobs s ! i) = WaitSlot p body"
    and "m_shutdown (cs_fm s) \<noteq> SLocking" "m_shutdown (cs_fm s) \<noteq> SLocked"
    and "0 < length (m_shards (cs_fm s))" "length (m_shards (cs_fm s)) < 2 ^ 32"
    and "acquire (co_handler co) (kind_of p) ev (cs_used s) = (SlotHeld, used)"
    and "decode_and_accept (co_codec co) (kind_of p) (validator_of p) (accept_of (chain co) p) body (sink_of (cs_fm s)) = (resp, es, fs)"
  shows "\<exists>t. (job_step co i)\<^sup>*\<^sup>* s t \<and> moved i (Over (Some resp)) es fs s t \<and>
    cs_limiter t = cs_limiter s \<and> cs_tokens t = cs_tokens s \<and> cs_used t = cs_used s"
proof -
  let ?w = "(put_job i (Working p body) [] s)\<lparr>cs_used := used\<rparr>"
  have w: "job_step co i s ?w" by (rule job_step.slot_held [OF assms(2,7)])
  have mw: "moved i (Working p body) [] (sink_of (cs_fm s)) s ?w" using moved_put [OF assms(1)] by simp
  have at: "i < length (cs_jobs ?w)" "jb_stage (cs_jobs ?w ! i) = Working p body" "cs_fm ?w = cs_fm s"
    using assms(1) by (simp_all add: put_job_def)
  obtain t where t: "(job_step co i)\<^sup>*\<^sup>* ?w t" "moved i (Replying (Some resp)) es fs ?w t"
    "cs_limiter t = cs_limiter s" "cs_tokens t = cs_tokens s" "cs_used t = used"
    using work_steps [OF at(1,2), of co] assms(3-6,8) at(3) by (auto simp: put_job_def)
  let ?u = "(put_job i (Over (Some resp)) [] t)\<lparr>cs_used := release_slot (co_handler co) (cs_used t)\<rparr>"
  have it: "i < length (cs_jobs t)" "jb_stage (cs_jobs t ! i) = Replying (Some resp)" "sink_of (cs_fm t) = fs"
    using t(2) at(1) by (simp_all add: moved_def)
  have u: "job_step co i t ?u" by (rule job_step.over [OF it(2)])
  have mu: "moved i (Over (Some resp)) [] fs t ?u" using moved_put [OF it(1), of "Over (Some resp)" "[]"] it(3) by simp
  have "(job_step co i)\<^sup>*\<^sup>* s t \<and> moved i (Replying (Some resp)) es fs s t"
    using run_then [OF r_into_rtranclp [of "job_step co i", OF w] mw t(1,2)] by simp
  then have "(job_step co i)\<^sup>*\<^sup>* s ?u \<and> moved i (Over (Some resp)) es fs s ?u"
    using run_then [OF _ _ r_into_rtranclp [of "job_step co i", OF u] mu] by fastforce
  then show ?thesis using t(3-5) acquire_release [OF assms(7)] by (intro exI [of _ ?u]) (simp add: put_job_def)
qed

lemma handler_steps:
  assumes "i < length (cs_jobs s)" and "jb_stage (cs_jobs s ! i) = AtHandler"
    and "m_shutdown (cs_fm s) \<noteq> SLocking" "m_shutdown (cs_fm s) \<noteq> SLocked"
    and "0 < length (m_shards (cs_fm s))" "length (m_shards (cs_fm s)) < 2 ^ 32"
    and "Register (co_codec co) (co_handler co) (chain co) ev (cs_used s) (jb_request (cs_jobs s ! i)) (sink_of (cs_fm s)) = (resp, es, fs)"
    and "resp \<noteq> None \<or> es \<noteq> []"
  shows "\<exists>t. (job_step co i)\<^sup>*\<^sup>* s t \<and> moved i (Over resp) es fs s t \<and>
    cs_limiter t = cs_limiter s \<and> cs_tokens t = cs_tokens s \<and> cs_used t = cs_used s"
proof (cases "open_request (co_codec co) (jb_request (cs_jobs s ! i))")
  case (Inl rejected)
  obtain resp' es1 where rj: "rejected = (resp', es1)" by fastforce
  then have "resp = Some resp'" "es1 = es" "fs = sink_of (cs_fm s)" using assms(7) Inl by (simp_all add: register_parts)
  then show ?thesis using one_step [OF job_step.turned_away [OF assms(2)] assms(1)] Inl rj by simp
next
  case (Inr opened)
  obtain p body where op: "opened = (p, body)" by fastforce
  let ?w = "put_job i (WaitSlot p body) [] s"
  have w: "job_step co i s ?w" using job_step.opened [OF assms(2)] Inr op by simp
  have mw: "moved i (WaitSlot p body) [] (sink_of (cs_fm s)) s ?w" by (rule moved_put [OF assms(1)])
  have at: "i < length (cs_jobs ?w)" "jb_stage (cs_jobs ?w ! i) = WaitSlot p body" "cs_fm ?w = cs_fm s" "cs_used ?w = cs_used s"
    "cs_limiter ?w = cs_limiter s" "cs_tokens ?w = cs_tokens s" using assms(1) by (simp_all add: put_job_def)
  note first = run_then [OF r_into_rtranclp [of "job_step co i", OF w] mw]
  obtain slot used where sl: "acquire (co_handler co) (kind_of p) ev (cs_used s) = (slot, used)" by fastforce
  show ?thesis
  proof (cases slot)
    case SlotHeld
    then obtain resp' where da: "decode_and_accept (co_codec co) (kind_of p) (validator_of p) (accept_of (chain co) p) body (sink_of (cs_fm s)) = (resp', es, fs)"
      "resp = Some resp'" using assms(7) Inr op sl by (auto simp: register_parts split: prod.splits)
    from slot_steps [OF at(1,2), of co] assms(3-6) sl SlotHeld da show ?thesis
      unfolding at(3-6) using first by fastforce
  next
    case (SlotFailed resp' es1)
    then have eq: "resp' = resp" "es1 = es" "fs = sink_of (cs_fm s)" using assms(7) Inr op sl by (simp_all add: register_parts)
    let ?u = "(put_job i (Over resp) es ?w)\<lparr>cs_used := used\<rparr>"
    have "job_step co i ?w ?u" using job_step.slot_failed [OF at(2)] sl SlotFailed eq at(4) by simp
    moreover have "moved i (Over resp) es fs ?w ?u" using moved_put [OF at(1), of "Over resp" es] at(3) eq by simp
    ultimately have "(job_step co i)\<^sup>*\<^sup>* s ?u \<and> moved i (Over resp) es fs s ?u"
      using first [of ?u "Over resp" es fs] by (simp add: r_into_rtranclp)
    then show ?thesis using acquire_failed_used sl SlotFailed by (intro exI [of _ ?u]) (auto simp: put_job_def)
  next
    case SlotBlocked
    then show ?thesis using assms(7,8) Inr op sl by (auto simp: register_parts)
  qed
qed

lemma routes_chain:
  assumes "registerRoutes quote url_parse (co_marshal co) k (co_config co) = (es0, Some (Inr ro))" and "ro_forward ro = Some (co_forward co, fs0)"
  shows "ro_handler ro = co_handler co" and "ro_sink ro = chain co"
  using assms
  by (auto simp: registerRoutes_def choose_sink_def co_handler_def chain_def Let_def split: prod.splits sum.splits option.splits if_splits)

lemma gate_step:
  fixes co :: "('h, 'q, 'b, 'r, 'a, 'k) collector"
  assumes "jb_stage (cs_jobs s ! i) = AtGate"
  defines "pass \<equiv> pred_option (\<lambda>t. admits (co_sha co) t (jb_request (cs_jobs s ! i))) (cs_tokens s)"
  shows "pass \<Longrightarrow> job_step co i s (put_job i AtHandler [] s)"
    and "\<not> pass \<Longrightarrow> job_step co i s (put_job i (Over (Some unauthorized)) [Inc AuthRejected []] s)"
proof -
  note gate = job_step.gate [OF assms(1), of co, unfolded bearer_parts, folded pass_def]
  show "pass \<Longrightarrow> job_step co i s (put_job i AtHandler [] s)"
    using gate [of None "[]" "cs_tokens s" True] by (simp add: let_through_def)
  show "\<not> pass \<Longrightarrow> job_step co i s (put_job i (Over (Some unauthorized)) [Inc AuthRejected []] s)"
    using gate [of "Some unauthorized" "[Inc AuthRejected []]" "cs_tokens s" False] by simp
qed

lemma gated_steps:
  assumes "i < length (cs_jobs s)" and "jb_stage (cs_jobs s ! i) = AtGate"
    and "m_shutdown (cs_fm s) \<noteq> SLocking" "m_shutdown (cs_fm s) \<noteq> SLocked"
    and "0 < length (m_shards (cs_fm s))" "length (m_shards (cs_fm s)) < 2 ^ 32"
    and "opt_guard (RequireBearerToken (co_sha co)) (Register (co_codec co) (co_handler co) (chain co) ev (cs_used s))
      (jb_request (cs_jobs s ! i)) (cs_tokens s, sink_of (cs_fm s)) = (resp, es, (tokens, fs))"
    and "resp \<noteq> None \<or> es \<noteq> []"
  shows "\<exists>t. (job_step co i)\<^sup>*\<^sup>* s t \<and> moved i (Over resp) es fs s t \<and>
    cs_limiter t = cs_limiter s \<and> cs_tokens t = tokens \<and> cs_used t = cs_used s"
proof (cases "pred_option (\<lambda>t. admits (co_sha co) t (jb_request (cs_jobs s ! i))) (cs_tokens s)")
  case False
  then have "resp = Some unauthorized" "es = [Inc AuthRejected []]" "tokens = cs_tokens s" "fs = sink_of (cs_fm s)"
    using assms(7) by (auto simp: bearer_parts)
  then show ?thesis using one_step [OF gate_step(2) [OF assms(2) False] assms(1)] by simp
next
  case True
  let ?h = "put_job i AtHandler [] s"
  have reg: "Register (co_codec co) (co_handler co) (chain co) ev (cs_used s) (jb_request (cs_jobs s ! i)) (sink_of (cs_fm s)) = (resp, es, fs)"
    "tokens = cs_tokens s" using assms(7) True by (auto simp: bearer_parts split: prod.splits)
  have ah: "i < length (cs_jobs ?h)" "jb_stage (cs_jobs ?h ! i) = AtHandler" "cs_fm ?h = cs_fm s" "cs_used ?h = cs_used s"
    "cs_limiter ?h = cs_limiter s" "cs_tokens ?h = cs_tokens s" "jb_request (cs_jobs ?h ! i) = jb_request (cs_jobs s ! i)"
    using assms(1) by (simp_all add: put_job_def)
  from handler_steps [OF ah(1,2), of co ev resp es fs, unfolded ah(3-7)] assms(3-6,8) reg
  obtain t where t: "(job_step co i)\<^sup>*\<^sup>* ?h t" "moved i (Over resp) es fs ?h t"
    "cs_limiter t = cs_limiter s" "cs_tokens t = cs_tokens s" "cs_used t = cs_used s" by blast
  from run_then [OF r_into_rtranclp [of "job_step co i", OF gate_step(1) [OF assms(2) True]] moved_put [OF assms(1)] t(1,2)]
  show ?thesis using t(3-5) reg(2) by auto
qed

text \<open>The two steps at the limiter are \<open>allow\<close>.\<close>

lemma throttle_steps:
  assumes "i < length (cs_jobs s)" and "jb_stage (cs_jobs s ! i) = AtLimiter"
    and "throttled (co_ops co) (co_ip co) (cs_clock s) (jb_request (cs_jobs s ! i)) (cs_limiter s) = (verdict, lim)"
  shows "\<exists>t. (job_step co i)\<^sup>*\<^sup>* s t \<and>
    moved i (if verdict = None then AtGate else Over verdict) (if verdict = None then [] else [Inc RateLimited []]) (sink_of (cs_fm s)) s t \<and>
    cs_limiter t = lim \<and> cs_tokens t = cs_tokens s \<and> cs_used t = cs_used s \<and> cs_fm t = cs_fm s"
proof (cases "cs_limiter s")
  case None
  then have "verdict = None" "lim = None" using assms(3) by (simp_all add: throttled_def)
  moreover have "job_step co i s (put_job i AtGate [] s)" by (rule job_step.no_limiter [OF assms(2) None])
  moreover have "cs_limiter (put_job i AtGate [] s) = None \<and> cs_tokens (put_job i AtGate [] s) = cs_tokens s \<and>
      cs_used (put_job i AtGate [] s) = cs_used s \<and> cs_fm (put_job i AtGate [] s) = cs_fm s"
    using None by (simp add: put_job_def)
  moreover have "moved i AtGate [] (sink_of (cs_fm s)) s (put_job i AtGate [] s)" by (rule moved_put [OF assms(1)])
  ultimately show ?thesis by (intro exI [of _ "put_job i AtGate [] s"]) simp
next
  case (Some l)
  obtain el l1 where t: "touch (co_ops co) (clientIP (co_ip co) l (jb_request (cs_jobs s ! i))) (cs_clock s) l = (el, l1)" by fastforce
  obtain ok retryAfter l2 where r: "reserve_on (co_ops co) el (cs_clock s) l1 = ((ok, retryAfter), l2)" by (metis prod_cases3 prod.collapse)
  have v: "verdict = (if ok then None else Some (too_many retryAfter))" "lim = Some l2"
    using assms(3) Some t r by (cases ok; simp add: throttled_def allow_def)+
  let ?b = "(put_job i (AtBucket el (cs_clock s)) [] s)\<lparr>cs_limiter := Some l1\<rparr>"
  let ?t = "(put_job i (if ok then AtGate else Over verdict) (if ok then [] else [Inc RateLimited []]) ?b)\<lparr>cs_limiter := Some l2\<rparr>"
  have b: "job_step co i s ?b" by (rule job_step.tracked [OF assms(2) Some t])
  have at: "jb_stage (cs_jobs ?b ! i) = AtBucket el (cs_clock s)" "cs_limiter ?b = Some l1" "i < length (cs_jobs ?b)" "cs_fm ?b = cs_fm s"
    using assms(1) by (simp_all add: put_job_def)
  have bt: "job_step co i ?b ?t"
    using job_step.token_taken [OF at(1,2)] job_step.over_limit [OF at(1,2)] r v by (cases ok) auto
  have mb: "moved i (AtBucket el (cs_clock s)) [] (sink_of (cs_fm s)) s ?b" using moved_put [OF assms(1)] by simp
  have mt: "moved i (if ok then AtGate else Over verdict) (if ok then [] else [Inc RateLimited []]) (sink_of (cs_fm s)) ?b ?t"
    unfolding moved_frame at(4) [symmetric] by (rule moved_put [OF at(3)])
  have ends: "cs_limiter ?t = lim" "cs_tokens ?t = cs_tokens s" "cs_used ?t = cs_used s" "cs_fm ?t = cs_fm s" "verdict = None \<longleftrightarrow> ok"
    using v by (simp_all add: put_job_def)
  from run_then [OF r_into_rtranclp [of "job_step co i", OF b] mb r_into_rtranclp [of "job_step co i", OF bt] mt] ends
  show ?thesis by (intro exI [of _ ?t]) simp
qed

section \<open>Properties\<close>

text \<open>
  C11: the cut into steps is right. A request that no other goroutine interrupts, and that does not stay blocked on a
  decode slot, goes through its steps to exactly what the registered handlers give it as a whole: the same answer,
  the same effects, the same limiter, tokens and sink, and all slots as before; no other request is touched.
\<close>

theorem steps_agree_with_serve:
  assumes "registerRoutes quote url_parse (co_marshal co) k (co_config co) = (es0, Some (Inr ro))" and "ro_forward ro = Some (co_forward co, fs0)"
    and "i < length (cs_jobs s)" and "jb_stage (cs_jobs s ! i) = AtLimiter"
    and "m_shutdown (cs_fm s) \<noteq> SLocking" "m_shutdown (cs_fm s) \<noteq> SLocked"
    and "0 < length (m_shards (cs_fm s))" "length (m_shards (cs_fm s)) < 2 ^ 32"
    and "ingestHandler (co_ops co) (co_ip co) (co_sha co) (co_codec co) ro (cs_clock s) ev (cs_used s) (jb_request (cs_jobs s ! i))
      (cs_limiter s, cs_tokens s, sink_of (cs_fm s)) = (resp, es, (l, tokens, fs))"
    and "resp \<noteq> None \<or> es \<noteq> []"
  shows "\<exists>t. (job_step co i)\<^sup>*\<^sup>* s t \<and> moved i (Over resp) es fs s t \<and>
    cs_limiter t = l \<and> cs_tokens t = tokens \<and> cs_used t = cs_used s"
proof -
  let ?r = "jb_request (cs_jobs s ! i)"
  note ro = routes_chain [OF assms(1,2)]
  obtain verdict lim where th: "throttled (co_ops co) (co_ip co) (cs_clock s) ?r (cs_limiter s) = (verdict, lim)" by fastforce
  note whole = assms(9) [unfolded ingestHandler_def throttle_parts th prod.case ro]
  from throttle_steps [OF assms(3,4) th] obtain g where g: "(job_step co i)\<^sup>*\<^sup>* s g"
    "moved i (if verdict = None then AtGate else Over verdict) (if verdict = None then [] else [Inc RateLimited []]) (sink_of (cs_fm s)) s g"
    "cs_limiter g = lim" "cs_tokens g = cs_tokens s" "cs_used g = cs_used s" "cs_fm g = cs_fm s" by blast
  show ?thesis
  proof (cases verdict)
    case (Some r429)
    then have "resp = Some r429" "es = [Inc RateLimited []]" "l = lim" "tokens = cs_tokens s" "fs = sink_of (cs_fm s)"
      using whole by auto
    then show ?thesis using g Some by auto
  next
    case None
    have at: "i < length (cs_jobs g)" "jb_stage (cs_jobs g ! i) = AtGate" "jb_request (cs_jobs g ! i) = ?r"
      using g(2) None assms(3) by (simp_all add: moved_def)
    obtain t where t: "(job_step co i)\<^sup>*\<^sup>* g t" "moved i (Over resp) es fs g t"
      "cs_limiter t = l" "cs_tokens t = tokens" "cs_used t = cs_used s"
      using gated_steps [OF at(1,2), of co ev resp es tokens fs, unfolded at(3) g(3-6)] assms(5-8,10) whole None
      by (auto split: prod.splits)
    from run_then [OF g(1) _ t(1,2)] show ?thesis using g(2) None t(3-5) by fastforce
  qed
qed

text \<open>The routes of the small collector, and its handlers on a first request.\<close>

definition small_url :: "string \<Rightarrow> string + url" where
  "small_url raw = Inr \<lparr>url_scheme = ''https'', url_host = ''b'', url_user = False, url_raw_query = [],
     url_force_query = False, url_fragment = []\<rparr>"

lemma small_routes:
  obtains es0 ro fs0 where "registerRoutes id small_url (co_marshal small_collector) () (co_config small_collector) = (es0, Some (Inr ro))"
    "ro_forward ro = Some (co_forward small_collector, fs0)"
proof -
  have w: "withDefaults small_config = small_config"
    by (simp add: small_config_def demo_config_def withDefaults_def or_default_def Let_def defaultShards_def defaultQueueSize_def
        defaultQueueBytes_def defaultRequestTimeout_def defaultRetryInitialInterval_def defaultRetryMaxInterval_def
        defaultRetryMaxElapsedTime_def)
  have url: "cf_URL small_config = ''https://b''" by (simp add: small_config_def demo_config_fields)
  have u: "validateURL id small_url (cf_URL small_config) = Inr (''https://b'', ''https'')"
    by (simp add: validateURL_def small_url_def url trim_right_byte_def)
  have same: "small_config\<lparr>cf_URL := ''https://b''\<rparr> = small_config" using url by (cases small_config) simp
  have sizes: "cf_Shards small_config = 1" "cf_QueueSize small_config = 64" by (simp_all add: small_config_def demo_config_fields)
  have n: "\<exists>es s0. NewForwardingSink id small_url () small_config = (es, Some (Inr (small_config, s0)))"
    using u by (simp add: NewForwardingSink_def w same make_shards_fits sizes)
  then show thesis
    using that url by (auto simp: registerRoutes_def choose_sink_def small_collector_def Let_def split_beta)
qed

theorem steps_agree_with_serve_witness:
  "\<exists>t resp. (job_step small_collector 0)\<^sup>*\<^sup>* (cs_after [Come small_request]) t \<and>
     jb_stage (cs_jobs t ! 0) = Over (Some resp) \<and> resp_status resp = 202"
proof -
  let ?s = "cs_after [Come small_request]" and ?co = small_collector
  obtain es0 ro fs0 where ro: "registerRoutes id small_url (co_marshal ?co) () (co_config ?co) = (es0, Some (Inr ro))"
    "ro_forward ro = Some (co_forward ?co, fs0)" by (rule small_routes)
  have s: "length (cs_jobs ?s) = 1" "jb_stage (cs_jobs ?s ! 0) = AtLimiter" "m_shutdown (cs_fm ?s) = SIdle"
    "length (m_shards (cs_fm ?s)) = 1" "cs_clock ?s = 0" by code_simp+
  obtain resp es l tokens fs where h: "ingestHandler (co_ops ?co) (co_ip ?co) (co_sha ?co) (co_codec ?co) ro (cs_clock ?s) TakeSlot (cs_used ?s)
      (jb_request (cs_jobs ?s ! 0)) (cs_limiter ?s, cs_tokens ?s, sink_of (cs_fm ?s)) = (resp, es, (l, tokens, fs))" by (metis prod_cases5)
  have "map_option resp_status (fst (opt_guard (Middleware (co_ops ?co) (co_ip ?co) 0)
      (opt_guard (RequireBearerToken (co_sha ?co)) (Register (co_codec ?co) (co_handler ?co) (chain ?co) TakeSlot (cs_used ?s)))
      (jb_request (cs_jobs ?s ! 0)) (cs_limiter ?s, cs_tokens ?s, sink_of (cs_fm ?s)))) = Some 202" by code_simp
  then obtain r where r: "resp = Some r" "resp_status r = 202"
    using h [unfolded ingestHandler_def routes_chain [OF ro] s(5)] by auto
  obtain t where "(job_step ?co 0)\<^sup>*\<^sup>* ?s t" "moved 0 (Over resp) es fs ?s t"
    using steps_agree_with_serve [OF ro _ s(2) _ _ _ _ h] s r by auto
  then show ?thesis using r by (auto simp: moved_def)
qed

end
