(* ===== verification/Collector_Limits.thy ===== *)
theory Collector_Limits
  imports Collector_Run
begin

text \<open>
  The rate limiter inside the running collector: whatever requests, workers, re-reads and shutdowns do in between, the
  collector's limiter takes steps of its own machine, so what \<open>Ratelimit_Machine\<close> shows holds of it.
\<close>

section \<open>The calls between the lock and the bucket\<close>

fun past_lock :: "stage \<Rightarrow> (nat \<times> int) multiset" where
  "past_lock (AtBucket el now) = {#(el, now)#}"
| "past_lock _ = {#}"

definition bucket_calls :: "job list \<Rightarrow> (nat \<times> int) multiset" where
  "bucket_calls jobs = sum_list (map (\<lambda>jb. past_lock (jb_stage jb)) jobs)"

lemma bucket_calls_simps [simp]:
  "bucket_calls [] = {#}" "bucket_calls (jobs @ [jb]) = bucket_calls jobs + past_lock (jb_stage jb)"
  by (simp_all add: bucket_calls_def)

lemma bucket_calls_put:
  "i < length jobs \<Longrightarrow>
   bucket_calls (jobs[i := (jobs ! i)\<lparr>jb_stage := st\<rparr>]) + past_lock (jb_stage (jobs ! i)) = bucket_calls jobs + past_lock st"
  using sum_list_map_update [of i jobs "\<lambda>jb. past_lock (jb_stage jb)" "(jobs ! i)\<lparr>jb_stage := st\<rparr>"]
  by (simp add: bucket_calls_def)

lemma mset_drop_nth: "j < length xs \<Longrightarrow> mset (drop_nth j xs) = mset xs - {#xs ! j#}"
  by (metis add_mset_remove_trivial drop_nth_def id_take_nth_drop mset.simps(2) mset_append union_mset_add_mset_right)

section \<open>The limiter's machine inside the collector's\<close>

definition limiter_sim ::
  "('h, 'q, 'b, 'r, 'a, 'k) collector \<Rightarrow> ('q, 'b) limiter \<Rightarrow> ('h, 'q, 'b) csys \<Rightarrow> bool" where
  "limiter_sim co l0 s \<longleftrightarrow>
     (\<exists>ls. lim_reach (co_ops co) l0 ls \<and> cs_limiter s = Some (ls_limiter ls) \<and> ls_clock ls = cs_clock s \<and> ls_running ls \<and>
        mset (ls_calls ls) = bucket_calls (cs_jobs s))"

lemma limiter_simI:
  assumes "lim_reach (co_ops co) l0 ls" and "lim_step (co_ops co) ls ls'"
    and "cs_limiter t = Some (ls_limiter ls')" "ls_clock ls' = cs_clock t" "ls_running ls'" "mset (ls_calls ls') = bucket_calls (cs_jobs t)"
  shows "limiter_sim co l0 t"
  using lim_reach.step [OF assms(1,2)] assms(3-) unfolding limiter_sim_def by blast

lemma limiter_sim_frame:
  assumes "limiter_sim co l0 s" and "cs_limiter t = cs_limiter s" "cs_clock t = cs_clock s" "bucket_calls (cs_jobs t) = bucket_calls (cs_jobs s)"
  shows "limiter_sim co l0 t"
  using assms by (simp add: limiter_sim_def)

lemma limiter_sim_put:
  assumes "limiter_sim co l0 s" and "i < length (cs_jobs s)" and "past_lock (jb_stage (cs_jobs s ! i)) = {#}" "past_lock st = {#}"
  shows "limiter_sim co l0 (put_job i st es s)"
  using bucket_calls_put [OF assms(2), of st] assms(3,4) by (intro limiter_sim_frame [OF assms(1)]) (simp_all add: put_job_def)

lemma limiter_sim_simps [simp]:
  "limiter_sim co l0 (s\<lparr>cs_used := n\<rparr>) = limiter_sim co l0 s" "limiter_sim co l0 (s\<lparr>cs_fm := fm\<rparr>) = limiter_sim co l0 s"
  by (simp_all add: limiter_sim_def)

text \<open>A call past the lock makes its reservation: the limiter's own machine can do the same.\<close>

lemma limiter_sim_reserve:
  assumes "limiter_sim co l0 s" and "i < length (cs_jobs s)" and "jb_stage (cs_jobs s ! i) = AtBucket el now"
    and "cs_limiter s = Some l" and "reserve_on (co_ops co) el now l = (answer, l')" and "past_lock st = {#}"
  shows "limiter_sim co l0 ((put_job i st es s)\<lparr>cs_limiter := Some l'\<rparr>)"
proof -
  obtain ls where ls: "lim_reach (co_ops co) l0 ls" "l = ls_limiter ls" "ls_clock ls = cs_clock s" "ls_running ls"
    "mset (ls_calls ls) = bucket_calls (cs_jobs s)" using assms(1,4) by (auto simp: limiter_sim_def)
  have calls: "bucket_calls ((cs_jobs s)[i := (cs_jobs s ! i)\<lparr>jb_stage := st\<rparr>]) + {#(el, now)#} = bucket_calls (cs_jobs s)"
    using bucket_calls_put [OF assms(2), of st] assms(3,6) by simp
  then have "(el, now) \<in># mset (ls_calls ls)" using ls(5) by (metis union_mset_add_mset_right union_single_eq_member)
  then obtain j where j: "j < length (ls_calls ls)" "ls_calls ls ! j = (el, now)" by (auto simp: in_set_conv_nth)
  have step: "lim_step (co_ops co) ls (ls\<lparr>ls_limiter := l', ls_calls := drop_nth j (ls_calls ls)\<rparr>)"
    by (rule lim_step.reserve [OF j]) (use assms(5) ls(2) in simp)
  have "mset (drop_nth j (ls_calls ls)) = bucket_calls ((cs_jobs s)[i := (cs_jobs s ! i)\<lparr>jb_stage := st\<rparr>])"
    using mset_drop_nth [OF j(1)] j(2) ls(5) calls by (metis add_diff_cancel_right')
  then show ?thesis using ls by (intro limiter_simI [OF ls(1) step]) (simp_all add: put_job_def)
qed

lemma limiter_sim_job:
  assumes "limiter_sim co l0 s" and "i < length (cs_jobs s)" and "job_step co i s t"
  shows "limiter_sim co l0 t"
  using assms(3)
proof (cases rule: job_step.cases)
  case (tracked l el l')
  obtain ls where ls: "lim_reach (co_ops co) l0 ls" "l = ls_limiter ls" "ls_clock ls = cs_clock s" "ls_running ls"
    "mset (ls_calls ls) = bucket_calls (cs_jobs s)" using assms(1) tracked(3) by (auto simp: limiter_sim_def)
  have step: "lim_step (co_ops co) ls (ls\<lparr>ls_limiter := l', ls_calls := ls_calls ls @ [(el, ls_clock ls)]\<rparr>)"
    by (rule lim_step.lock) (use tracked(4) ls(2,3) in simp)
  show ?thesis
    using bucket_calls_put [OF assms(2), of "AtBucket el (cs_clock s)"] ls tracked(1,2)
    by (intro limiter_simI [OF ls(1) step]) (simp_all add: put_job_def)
next
  case (token_taken el now l retryAfter l')
  then show ?thesis using limiter_sim_reserve [OF assms(1,2) token_taken(2,3,4)] by simp
next
  case (over_limit el now l retryAfter l')
  then show ?thesis using limiter_sim_reserve [OF assms(1,2) over_limit(2,3,4)] by simp
qed (use assms in \<open>auto intro!: limiter_sim_put\<close>)

lemma limiter_sim_step:
  assumes "limiter_sim co l0 s" and "cs_step co s t"
  shows "limiter_sim co l0 t"
  using assms(2)
proof (cases rule: cs_step.cases)
  case (job i)
  then show ?thesis using limiter_sim_job [OF assms(1)] by blast
next
  case (tick now)
  obtain ls where ls: "lim_reach (co_ops co) l0 ls" "cs_limiter s = Some (ls_limiter ls)" "ls_clock ls = cs_clock s" "ls_running ls"
    "mset (ls_calls ls) = bucket_calls (cs_jobs s)" using assms(1) by (auto simp: limiter_sim_def)
  show ?thesis by (rule limiter_simI [OF ls(1) lim_step.clock [of _ now]]) (use tick ls in simp_all)
next
  case (evict l now)
  obtain ls where ls: "lim_reach (co_ops co) l0 ls" "cs_limiter s = Some (ls_limiter ls)" "ls_clock ls = cs_clock s" "ls_running ls"
    "mset (ls_calls ls) = bucket_calls (cs_jobs s)" using assms(1) by (auto simp: limiter_sim_def)
  show ?thesis by (rule limiter_simI [OF ls(1) lim_step.evict [OF ls(4), of now]]) (use evict ls in simp_all)
qed (use assms(1) in \<open>auto elim!: limiter_sim_frame\<close>)

lemma limiter_sim_reach:
  assumes "rt_Limiter (co_config co) = Some l0" and "cs_reach co tokfile accepted s"
  shows "limiter_sim co l0 s"
  using assms(2)
proof (induction rule: cs_reach.induct)
  case start
  have "lim_reach (co_ops co) l0 (ls_init (co_started co) l0)" by (rule lim_reach.start)
  then show ?case using assms(1) unfolding limiter_sim_def
    by (intro exI [of _ "ls_init (co_started co) l0"]) (simp add: cs_start_def ls_init_def)
next
  case (step s t)
  then show ?case using limiter_sim_step by blast
qed

section \<open>A concrete run\<close>

text \<open>Two clients pass a limiter with room for two; a third one is about to be checked.\<close>

definition limited_collector :: "(string, unit, int, int, unit, unit) collector" where
  "limited_collector =
     small_collector\<lparr>co_config := (co_config small_collector)\<lparr>rt_Limiter := Some (New () 1 demo_opts)\<rparr>\<rparr>"

definition from_client :: "string \<Rightarrow> request" where
  "from_client ip = small_request\<lparr>req_remote := ip @ '':5000''\<rparr>"

definition limited_choices :: "unit cs_choice list" where
  "limited_choices =
     [Come (from_client ''10.0.0.1''), Move 0 TakeSlot, Move 0 TakeSlot, Tick 1, Come (from_client ''10.0.0.2''),
      Move 1 TakeSlot, Tick 2, Move 1 TakeSlot, Come (from_client ''10.0.0.3'')]"

definition limited_state :: "(string, unit, int) csys" where
  "limited_state = the (cs_run limited_collector limited_choices (cs_start limited_collector (Some small_file) [''tok1'']))"

definition clients :: "('q, 'b) limiter option \<Rightarrow> string list" where
  "clients lim = (case lim of None \<Rightarrow> [] | Some l \<Rightarrow> map vi_key (lru_abs l))"

lemma limited_facts:
  "cs_run limited_collector limited_choices (cs_start limited_collector (Some small_file) [''tok1'']) \<noteq> None"
  "map jb_stage (cs_jobs limited_state) = [AtGate, AtGate, AtLimiter]"
  "clients (cs_limiter limited_state) = [''10.0.0.2'', ''10.0.0.1'']"
  "map_option (clients o cs_limiter) (cs_exec limited_collector (Move 2 TakeSlot) limited_state) = Some [''10.0.0.3'', ''10.0.0.2'']"
  by code_simp+

section \<open>Properties\<close>

text \<open>
  C19: the running collector never tracks more clients than the limiter's cap, whatever requests, evictions, workers and
  shutdowns do in between, and its map and list agree. A request that passes the limiter's lock leaves its client
  tracked; a client lost its place to it only when the cap was reached, and only if nobody left has been idle for
  longer.
\<close>

theorem clients_capped:
  assumes "\<forall>opt \<in> set opts. limiter_option opt" and "1 \<le> lm_maxVisitors (New q burst opts :: ('q, 'b) limiter)"
    and "rt_Limiter (co_config co) = Some (New q burst opts)" and "cs_reach co tokfile accepted s"
    and "cs_limiter s = Some (l :: ('q, 'b) limiter)"
    and "jb_stage (cs_jobs s ! i) = AtLimiter" and "job_step co i s t" and "cs_limiter t = Some l'"
  shows "lim_ok l \<and> int (length (lm_visitors l)) \<le> lm_maxVisitors (New q burst opts :: ('q, 'b) limiter) \<and>
    clientIP (co_ip co) l (jb_request (cs_jobs s ! i)) \<in> vi_key ` set (lru_abs l') \<and>
    (\<forall>v \<in> set (lru_abs l). vi_key v \<notin> vi_key ` set (lru_abs l') \<longrightarrow>
       int (length (lm_visitors l)) = lm_maxVisitors (New q burst opts :: ('q, 'b) limiter) \<and>
       (\<forall>w \<in> set (lru_abs l'). vi_lastSeen v \<le> vi_lastSeen w))"
proof -
  obtain ls where ls: "lim_reach (co_ops co) (New q burst opts) ls" "ls_limiter ls = l" "ls_clock ls = cs_clock s"
    using limiter_sim_reach [OF assms(3,4)] assms(5) by (auto simp: limiter_sim_def)
  obtain el where "touch (co_ops co) (clientIP (co_ip co) l (jb_request (cs_jobs s ! i))) (ls_clock ls) l = (el, l')"
    using assms(7) by (cases rule: job_step.cases) (use assms(5,6,8) ls(3) in auto)
  from visitors_capped [OF assms(1,2) ls(1,2) this] show ?thesis .
qed

theorem clients_capped_witness:
  "\<exists>t l l'. job_step limited_collector 2 limited_state t \<and> cs_limiter limited_state = Some l \<and> length (lm_visitors l) \<le> 2 \<and>
     cs_limiter t = Some l' \<and> clientIP demo_netip l (from_client ''10.0.0.3'') \<in> vi_key ` set (lru_abs l')"
proof -
  obtain l where l: "cs_limiter limited_state = Some l" using limited_facts(3) by (cases "cs_limiter limited_state") (auto simp: clients_def)
  have at: "jb_stage (cs_jobs limited_state ! 2) = AtLimiter" "jb_request (cs_jobs limited_state ! 2) = from_client ''10.0.0.3''"
    by code_simp+
  obtain t where t: "cs_exec limited_collector (Move 2 TakeSlot) limited_state = Some t" "clients (cs_limiter t) = [''10.0.0.3'', ''10.0.0.2'']"
    using limited_facts(4) by auto
  have step: "job_step limited_collector 2 limited_state t"
    using t(1) move_job_step [of limited_collector 2 TakeSlot limited_state t] by (auto split: if_splits)
  obtain l' where l': "cs_limiter t = Some l'" using t(2) by (cases "cs_limiter t") (auto simp: clients_def)
  have reach: "cs_reach limited_collector (Some small_file) [''tok1''] limited_state"
    using limited_facts(1) cs_run_reach [OF cs_reach.start, of limited_collector limited_choices "Some small_file" "[''tok1'']"]
    by (auto simp: limited_state_def)
  have "rt_Limiter (co_config limited_collector) = Some (New () 1 demo_opts)" "co_ip limited_collector = demo_netip"
    by (simp_all add: limited_collector_def small_collector_def)
  then show ?thesis
    using clients_capped [OF demo_opts_ok _ _ reach l at(1) step l', of "()" 1] step l l' at(2) demo_ls_facts(2) by auto
qed

end
