(* ===== verification/Collector_Ends.thy ===== *)
theory Collector_Ends
  imports Collector_Run "HOL-Library.Product_Lexorder"
begin

text \<open>
  The running collector ends: once a signal came, every weakly fair run of the machine of \<open>Collector_Machine\<close> comes to
  the point where the program is gone, whatever order the goroutines move in and however many requests still arrive.
\<close>

section \<open>Weak fairness\<close>

text \<open>A goroutine that can move from some time on does move.\<close>

definition weakly_fair :: "('g \<Rightarrow> 's \<Rightarrow> 's \<Rightarrow> bool) \<Rightarrow> (nat \<Rightarrow> 's) \<Rightarrow> bool" where
  "weakly_fair go \<sigma> \<longleftrightarrow> (\<forall>g n. \<exists>m \<ge> n. go g (\<sigma> m) (\<sigma> (Suc m)) \<or> \<not> (\<exists>t. go g (\<sigma> m) t))"

text \<open>
  A fair run reaches its goal when no step takes the rank up and in every state before the goal some goroutine can
  move, stays able to as long as the rank stays, and takes the rank down when it moves.
\<close>

lemma fair_leads_to:
  fixes rank :: "'s \<Rightarrow> 'r :: wellorder"
  assumes "weakly_fair go \<sigma>"
    and stay: "\<And>m. P (\<sigma> m) \<Longrightarrow> \<not> Q (\<sigma> m) \<Longrightarrow> Q (\<sigma> (Suc m)) \<or> P (\<sigma> (Suc m)) \<and> rank (\<sigma> (Suc m)) \<le> rank (\<sigma> m)"
    and helper: "\<And>s. P s \<Longrightarrow> \<not> Q s \<Longrightarrow> \<exists>g. helpful g s"
    and enabled: "\<And>g s. P s \<Longrightarrow> \<not> Q s \<Longrightarrow> helpful g s \<Longrightarrow> \<exists>t. go g s t"
    and keeps: "\<And>g m. P (\<sigma> m) \<Longrightarrow> \<not> Q (\<sigma> m) \<Longrightarrow> helpful g (\<sigma> m) \<Longrightarrow>
      Q (\<sigma> (Suc m)) \<or> rank (\<sigma> (Suc m)) < rank (\<sigma> m) \<or> helpful g (\<sigma> (Suc m)) \<and> \<not> go g (\<sigma> m) (\<sigma> (Suc m))"
    and "P (\<sigma> n)"
  shows "\<exists>m \<ge> n. Q (\<sigma> m)"
  using \<open>P (\<sigma> n)\<close>
proof (induction "rank (\<sigma> n)" arbitrary: n rule: less_induct)
  case less
  show ?case
  proof (rule ccontr)
    assume "\<not> (\<exists>m \<ge> n. Q (\<sigma> m))"
    then have no: "\<not> Q (\<sigma> m)" if "m \<ge> n" for m using that by blast
    have low: "\<not> rank (\<sigma> m) < rank (\<sigma> n)" if "m \<ge> n" "P (\<sigma> m)" for m
      using less.hyps [of m] that no by (meson le_trans)
    obtain g where g: "helpful g (\<sigma> n)" using helper less.prems no by blast
    have same: "P (\<sigma> (n + k)) \<and> rank (\<sigma> (n + k)) = rank (\<sigma> n) \<and> helpful g (\<sigma> (n + k))" for k
    proof (induction k)
      case 0
      then show ?case using less.prems g by simp
    next
      case (Suc k)
      have next_step: "P (\<sigma> (Suc (n + k)))" "rank (\<sigma> (Suc (n + k))) \<le> rank (\<sigma> n)"
        using stay [of "n + k"] Suc no [of "n + k"] no [of "Suc (n + k)"] by auto
      then have "rank (\<sigma> (Suc (n + k))) = rank (\<sigma> n)" using low [of "Suc (n + k)"] by force
      then show ?case using keeps [of "n + k" g] Suc next_step no [of "n + k"] no [of "Suc (n + k)"] by auto
    qed
    obtain m where m: "m \<ge> n" "go g (\<sigma> m) (\<sigma> (Suc m)) \<or> \<not> (\<exists>t. go g (\<sigma> m) t)"
      using assms(1) unfolding weakly_fair_def by blast
    obtain k where k: "m = n + k" using m(1) le_Suc_ex by blast
    have "go g (\<sigma> m) (\<sigma> (Suc m))" using m enabled same [of k] no k by blast
    then show False
      using keeps [of m g] same [of k] same [of "Suc k"] no [of m] no [of "Suc m"] k by auto
  qed
qed

definition is_run :: "('s \<Rightarrow> bool) \<Rightarrow> ('s \<Rightarrow> 's \<Rightarrow> bool) \<Rightarrow> (nat \<Rightarrow> 's) \<Rightarrow> bool" where
  "is_run reach step \<sigma> \<longleftrightarrow> reach (\<sigma> 0) \<and> (\<forall>n. \<sigma> (Suc n) = \<sigma> n \<or> step (\<sigma> n) (\<sigma> (Suc n)))"

text \<open>
  The same for the runs of a transition system: what the rule asks is asked of the steps from reachable states, and a
  run may stay where it is.
\<close>

locale fair_system =
  fixes reach :: "'s \<Rightarrow> bool" and step :: "'s \<Rightarrow> 's \<Rightarrow> bool" and go :: "'g \<Rightarrow> 's \<Rightarrow> 's \<Rightarrow> bool"
  assumes reach_step: "reach s \<Longrightarrow> step s t \<Longrightarrow> reach t"
    and go_step: "go g s t \<Longrightarrow> step s t"
begin

lemma stays_reached: "is_run reach step \<sigma> \<Longrightarrow> reach (\<sigma> n)"
proof (induction n)
  case (Suc n)
  then show ?case using reach_step unfolding is_run_def by metis
qed (simp add: is_run_def)

lemma leads_to:
  fixes rank :: "'s \<Rightarrow> 'r :: wellorder"
  assumes "is_run reach step \<sigma>" and "weakly_fair go \<sigma>" and "P (\<sigma> n)"
    and stay: "\<And>s t. reach s \<Longrightarrow> P s \<Longrightarrow> \<not> Q s \<Longrightarrow> step s t \<Longrightarrow> Q t \<or> P t \<and> rank t \<le> rank s"
    and helper: "\<And>s. reach s \<Longrightarrow> P s \<Longrightarrow> \<not> Q s \<Longrightarrow> \<exists>g. helpful g s"
    and enabled: "\<And>g s. reach s \<Longrightarrow> P s \<Longrightarrow> \<not> Q s \<Longrightarrow> helpful g s \<Longrightarrow> \<exists>t. go g s t"
    and moves: "\<And>g s t. reach s \<Longrightarrow> P s \<Longrightarrow> \<not> Q s \<Longrightarrow> helpful g s \<Longrightarrow> go g s t \<Longrightarrow> rank t < rank s"
    and waits: "\<And>g s t. reach s \<Longrightarrow> P s \<Longrightarrow> \<not> Q s \<Longrightarrow> helpful g s \<Longrightarrow> step s t \<Longrightarrow> \<not> go g s t \<Longrightarrow>
      Q t \<or> rank t < rank s \<or> helpful g t"
  shows "\<exists>m \<ge> n. reach (\<sigma> m) \<and> Q (\<sigma> m)"
proof -
  have next_step: "\<sigma> (Suc m) = \<sigma> m \<or> step (\<sigma> m) (\<sigma> (Suc m))" for m using assms(1) by (simp add: is_run_def)
  have "\<exists>m \<ge> n. Q (\<sigma> m)"
  proof (rule fair_leads_to [where go = go and P = "\<lambda>s. reach s \<and> P s" and helpful = helpful and rank = rank])
    fix m assume "reach (\<sigma> m) \<and> P (\<sigma> m)" "\<not> Q (\<sigma> m)"
    then show "Q (\<sigma> (Suc m)) \<or> (reach (\<sigma> (Suc m)) \<and> P (\<sigma> (Suc m))) \<and> rank (\<sigma> (Suc m)) \<le> rank (\<sigma> m)"
      using next_step [of m] stay [of "\<sigma> m" "\<sigma> (Suc m)"] stays_reached [OF assms(1)] by (cases "\<sigma> (Suc m) = \<sigma> m") auto
  next
    fix m g assume s: "reach (\<sigma> m) \<and> P (\<sigma> m)" "\<not> Q (\<sigma> m)" "helpful g (\<sigma> m)"
    have "\<not> go g (\<sigma> m) (\<sigma> m)" using moves [of "\<sigma> m" g "\<sigma> m"] s by auto
    then show "Q (\<sigma> (Suc m)) \<or> rank (\<sigma> (Suc m)) < rank (\<sigma> m) \<or> helpful g (\<sigma> (Suc m)) \<and> \<not> go g (\<sigma> m) (\<sigma> (Suc m))"
      using next_step [of m] moves [of "\<sigma> m" g "\<sigma> (Suc m)"] waits [of "\<sigma> m" g "\<sigma> (Suc m)"] s
      by (cases "\<sigma> (Suc m) = \<sigma> m") auto
  qed (use assms(2,3) helper enabled stays_reached [OF assms(1)] in auto)
  then show ?thesis using stays_reached [OF assms(1)] by blast
qed

end

section \<open>Goroutines and fair runs of the collector\<close>

datatype goroutine = MainRoutine | Worker nat | Request nat

text \<open>The steps of \<^verbatim>\<open>main\<close> after the signal are those that move the program, or its call of \<^verbatim>\<open>Shutdown\<close>, on.\<close>

definition goes ::
  "('h, 'q, 'b, 'r, 'a, 'k) collector \<Rightarrow> goroutine \<Rightarrow> ('h, 'q, 'b) csys \<Rightarrow> ('h, 'q, 'b) csys \<Rightarrow> bool" where
  "goes co g s t \<longleftrightarrow>
     alive s \<and>
     (case g of
        MainRoutine \<Rightarrow> cs_life s \<noteq> Serving \<and> cs_step co s t \<and> (cs_life t, m_shutdown (cs_fm t)) \<noteq> (cs_life s, m_shutdown (cs_fm s))
      | Worker i \<Rightarrow> i < length (m_workers (cs_fm s)) \<and>
          (\<exists>fm. worker_step (co_forward co) (co_parse_time co) i (cs_fm s) fm \<and> t = s\<lparr>cs_fm := fm\<rparr>)
      | Request i \<Rightarrow> i < length (cs_jobs s) \<and> job_step co i s t)"

definition fair_run ::
  "('h, 'q, 'b, 'r, 'a, 'k) collector \<Rightarrow> 'h TokenSet File option \<Rightarrow> string list \<Rightarrow> (nat \<Rightarrow> ('h, 'q, 'b) csys) \<Rightarrow> bool" where
  "fair_run co tokfile accepted \<sigma> \<longleftrightarrow> is_run (cs_reach co tokfile accepted) (cs_step co) \<sigma> \<and> weakly_fair (goes co) \<sigma>"

lemma alive_iff: "alive s \<longleftrightarrow> (\<forall>code. cs_life s \<noteq> Gone code)"
  by (simp add: alive_def split: life.split)

lemma goes_step: "goes co g s t \<Longrightarrow> cs_step co s t"
  by (auto simp: goes_def alive_iff split: goroutine.splits intro: cs_step.job cs_step.worker)

interpretation collector: fair_system "cs_reach co tokfile accepted" "cs_step co" "goes co"
  by unfold_locales (fact cs_reach.step goes_step)+

section \<open>A call that is not done belongs to a request\<close>

fun call_done :: "call \<Rightarrow> bool" where
  "call_done (CallDone item e) = True"
| "call_done _ = False"

definition served :: "call list \<Rightarrow> job list \<Rightarrow> bool" where
  "served calls jobs \<longleftrightarrow>
     (\<forall>j < length calls. \<not> call_done (calls ! j) \<longrightarrow> (\<exists>i < length jobs. \<exists>p. jb_stage (jobs ! i) = Handing p j))"

lemma served_put:
  assumes "served calls jobs" and "\<And>p j. jb_stage (jobs ! i) = Handing p j \<Longrightarrow> j < length calls \<Longrightarrow> call_done (calls ! j)"
  shows "served calls (jobs[i := jb])"
  unfolding served_def
proof (intro allI impI)
  fix j assume "j < length calls" "\<not> call_done (calls ! j)"
  then obtain k p where "k < length jobs" "jb_stage (jobs ! k) = Handing p j" "k \<noteq> i"
    using assms unfolding served_def by metis
  then show "\<exists>k < length (jobs[i := jb]). \<exists>p. jb_stage (jobs[i := jb] ! k) = Handing p j" by (intro exI [of _ k]) simp
qed

lemma served_arrive: "served calls jobs \<Longrightarrow> served calls (jobs @ [jb])"
  unfolding served_def by (metis length_append_singleton less_SucI nth_append)

lemma served_job:
  assumes "served (m_calls (cs_fm s)) (cs_jobs s)" and "i < length (cs_jobs s)" and "job_step co i s t"
  shows "served (m_calls (cs_fm t)) (cs_jobs t)"
  using assms(3)
proof (cases rule: job_step.cases)
  case (handed p body msg msg' es item)
  let ?calls = "m_calls (cs_fm s)" and ?jobs = "(cs_jobs s)[i := (cs_jobs s ! i)\<lparr>jb_stage := Handing p (length (m_calls (cs_fm s)))\<rparr>]"
  have "served ?calls ?jobs" by (rule served_put [OF assms(1)]) (simp add: handed(2))
  moreover have "i < length ?jobs" "jb_stage (?jobs ! i) = Handing p (length ?calls)" using assms(2) by simp_all
  ultimately have "served (?calls @ [CallStart item]) ?jobs" unfolding served_def by (auto simp: nth_append less_Suc_eq)
  then show ?thesis by (simp add: handed(1) put_job_def)
next
  case (enqueueing p j fm)
  obtain c where c: "m_calls fm = (m_calls (cs_fm s))[j := c]" using call_step_calls [OF enqueueing(4)] by blast
  show ?thesis
    unfolding served_def
  proof (intro allI impI)
    fix k assume k: "k < length (m_calls (cs_fm t))" "\<not> call_done (m_calls (cs_fm t) ! k)"
    show "\<exists>i < length (cs_jobs t). \<exists>p. jb_stage (cs_jobs t ! i) = Handing p k"
    proof (cases "k = j")
      case True
      then show ?thesis using enqueueing(1,2) assms(2) by auto
    next
      case False
      then have "\<not> call_done (m_calls (cs_fm s) ! k)" "k < length (m_calls (cs_fm s))" using k c enqueueing(1) by simp_all
      then show ?thesis using assms(1) enqueueing(1) by (simp add: served_def)
    qed
  qed
next
  case (returned p j item e resp es)
  then show ?thesis by (auto simp: put_job_def intro!: served_put [OF assms(1)])
qed (auto simp: put_job_def intro!: served_put [OF assms(1)])

lemma served_step:
  assumes "served (m_calls (cs_fm s)) (cs_jobs s)" and "cs_step co s t"
  shows "served (m_calls (cs_fm t)) (cs_jobs t)"
  using assms(2)
proof (cases rule: cs_step.cases)
  case (arrive r)
  then show ?thesis using served_arrive [OF assms(1)] by simp
next
  case (job i)
  then show ?thesis using served_job assms(1) by blast
qed (use assms(1) in \<open>simp_all add: worker_calls shutdown_frame\<close>)

lemma served_reach: "cs_reach co tokfile accepted s \<Longrightarrow> served (m_calls (cs_fm s)) (cs_jobs s)"
proof (induction rule: cs_reach.induct)
  case start
  then show ?case by (simp add: cs_start_def fm_init_def Let_def served_def)
next
  case (step s t)
  then show ?case using served_step by blast
qed

section \<open>What is left to do\<close>

text \<open>
  The rank of a state: how far \<^verbatim>\<open>main\<close> is, and what it waits for there: the calls that hold the lock, or the workers.
\<close>

fun call_rank :: "call \<Rightarrow> nat" where
  "call_rank (CallLocked item) = 4"
| "call_rank (CallChecked item) = 3"
| "call_rank (CallReserved item i) = 2"
| "call_rank (CallUndo item i) = 1"
| "call_rank _ = 0"

definition lock_work :: "fm \<Rightarrow> nat" where
  "lock_work s = sum_list (map call_rank (m_calls s))"

fun shutdown_rank :: "shutdown \<Rightarrow> nat" where
  "shutdown_rank SIdle = 7"
| "shutdown_rank SLocking = 6"
| "shutdown_rank SLocked = 5"
| "shutdown_rank SUnlocked = 4"
| "shutdown_rank SWaiting = 3"
| "shutdown_rank SCancelled = 2"
| "shutdown_rank SReturned = 1"

fun life_rank :: "life \<Rightarrow> shutdown \<Rightarrow> nat" where
  "life_rank Serving sd = 9"
| "life_rank ServerStopping sd = 8"
| "life_rank (SinkStopping clean) sd = shutdown_rank sd"
| "life_rank (Gone code) sd = 0"

definition wait_rank :: "fm \<Rightarrow> nat" where
  "wait_rank s =
     (if m_shutdown s = SLocking then lock_work s
      else if m_shutdown s \<in> {SWaiting, SCancelled} then work_left s
      else 0)"

definition end_rank :: "('h, 'q, 'b) csys \<Rightarrow> nat \<times> nat" where
  "end_rank s = (life_rank (cs_life s) (m_shutdown (cs_fm s)), wait_rank (cs_fm s))"

lemma end_rank_less:
  "life_rank (cs_life t) (m_shutdown (cs_fm t)) < life_rank (cs_life s) (m_shutdown (cs_fm s)) \<Longrightarrow> end_rank t < end_rank s"
  "cs_life t = cs_life s \<Longrightarrow> m_shutdown (cs_fm t) = m_shutdown (cs_fm s) \<Longrightarrow> wait_rank (cs_fm t) < wait_rank (cs_fm s) \<Longrightarrow>
   end_rank t < end_rank s"
  "cs_life t = cs_life s \<Longrightarrow> m_shutdown (cs_fm t) = m_shutdown (cs_fm s) \<Longrightarrow> wait_rank (cs_fm t) \<le> wait_rank (cs_fm s) \<Longrightarrow>
   end_rank t \<le> end_rank s"
  by (simp_all add: end_rank_def less_prod_def less_eq_prod_def)

lemma shutdown_rank_step: "shutdown_step s t \<Longrightarrow> shutdown_rank (m_shutdown t) < shutdown_rank (m_shutdown s)"
  by (erule shutdown_stepE) auto

lemma shutdown_rank_bounds: "1 \<le> shutdown_rank sd" "shutdown_rank sd \<le> 7"
  by (cases sd; simp)+

text \<open>After the signal a step moves \<^verbatim>\<open>main\<close> on or leaves it where it is.\<close>

lemma life_rank_step:
  assumes "cs_step co s t" and "cs_life s \<noteq> Serving"
  shows "life_rank (cs_life t) (m_shutdown (cs_fm t)) < life_rank (cs_life s) (m_shutdown (cs_fm s)) \<or>
    (cs_life t = cs_life s \<and> m_shutdown (cs_fm t) = m_shutdown (cs_fm s))"
  using assms(1)
proof (cases rule: cs_step.cases)
  case (job i)
  then show ?thesis using job_step_life by blast
next
  case (sink_shutdown clean fm)
  then show ?thesis using shutdown_rank_step by simp
next
  case server_down
  then show ?thesis using shutdown_rank_bounds(2) [of "m_shutdown (cs_fm s)"] by simp
next
  case server_late
  then show ?thesis using shutdown_rank_bounds(2) [of "m_shutdown (cs_fm s)"] by simp
qed (use assms(2) in \<open>auto simp: worker_shutdown\<close>)

lemma call_rank_update:
  "j < length calls \<Longrightarrow> call_rank c < call_rank (calls ! j) \<Longrightarrow>
   sum_list (map call_rank (calls[j := c])) < sum_list (map call_rank calls)"
  using sum_list_map_update [of j calls call_rank c] by simp

lemma lock_work_call:
  assumes "call_step cfg j s t" and "j < length (m_calls s)" and "m_shutdown s = SLocking"
  shows "lock_work t < lock_work s"
  using assms(1)
  by (cases rule: call_step.cases) (use assms(2,3) in \<open>auto simp: lock_work_def put_defs intro!: call_rank_update\<close>)

lemma lock_work_job:
  assumes "job_step co i s t" and "m_shutdown (cs_fm s) = SLocking"
  shows "lock_work (cs_fm t) \<le> lock_work (cs_fm s)"
  using assms(1)
proof (cases rule: job_step.cases)
  case (enqueueing p j fm)
  then show ?thesis using lock_work_call [OF enqueueing(4,3) assms(2)] by simp
qed (simp_all add: put_job_def lock_work_def)

lemma lock_work_step:
  assumes "cs_step co s t" and "m_shutdown (cs_fm s) = SLocking"
  shows "lock_work (cs_fm t) \<le> lock_work (cs_fm s)"
  using assms(1)
proof (cases rule: cs_step.cases)
  case (job i)
  then show ?thesis using lock_work_job assms(2) by blast
qed (auto simp: lock_work_def worker_calls shutdown_frame)

lemma wait_rank_step:
  assumes "cs_reach co tokfile accepted s" and "cs_step co s t" and "m_shutdown (cs_fm t) = m_shutdown (cs_fm s)"
  shows "wait_rank (cs_fm t) \<le> wait_rank (cs_fm s)"
proof -
  note fm = cs_reach_fm [OF assms(1)]
  note lk = lock.reach_holds [OF fm] and sh = shape.reach_holds [OF fm]
  have "work_left (cs_fm t) \<le> work_left (cs_fm s)" if "m_shutdown (cs_fm s) \<in> {SWaiting, SCancelled}"
  proof -
    have "m_stopping (cs_fm s)" using lk that by (auto simp: lock_inv_def)
    then show ?thesis using cs_step_fm [OF assms(2)] work_left_step [OF lk sh] by auto
  qed
  then show ?thesis using lock_work_step [OF assms(2)] assms(3) by (auto simp: wait_rank_def)
qed

lemma end_rank_step:
  assumes "cs_reach co tokfile accepted s" and "cs_step co s t" and "cs_life s \<noteq> Serving"
  shows "end_rank t \<le> end_rank s"
  using life_rank_step [OF assms(2,3)] wait_rank_step [OF assms(1,2)] end_rank_less by (metis less_imp_le)

section \<open>Who moves the program on\<close>

definition ending :: "('h, 'q, 'b) csys \<Rightarrow> bool" where
  "ending s \<longleftrightarrow> (case cs_life s of Serving \<Rightarrow> False | Gone code \<Rightarrow> False | _ \<Rightarrow> True)"

definition gone_in_order :: "('h, 'q, 'b) csys \<Rightarrow> bool" where
  "gone_in_order s \<longleftrightarrow> cs_life s \<in> {Gone 0, Gone 1} \<and> m_shutdown (cs_fm s) = SReturned"

text \<open>
  \<^verbatim>\<open>main\<close> itself, unless it waits: for the lock, then a request that holds it; for the workers, then one that has not
  returned.
\<close>

fun helpful :: "goroutine \<Rightarrow> ('h, 'q, 'b) csys \<Rightarrow> bool" where
  "helpful MainRoutine s \<longleftrightarrow>
     (m_shutdown (cs_fm s) = SLocking \<longrightarrow> list_all (\<lambda>c. \<not> holds_rlock c) (m_calls (cs_fm s))) \<and>
     (m_shutdown (cs_fm s) \<in> {SWaiting, SCancelled} \<longrightarrow> list_all (\<lambda>w. w = WExit) (m_workers (cs_fm s)))"
| "helpful (Worker i) s \<longleftrightarrow>
     m_shutdown (cs_fm s) \<in> {SWaiting, SCancelled} \<and> i < length (m_workers (cs_fm s)) \<and> m_workers (cs_fm s) ! i \<noteq> WExit"
| "helpful (Request i) s \<longleftrightarrow>
     m_shutdown (cs_fm s) = SLocking \<and> i < length (cs_jobs s) \<and>
     (\<exists>p j. jb_stage (cs_jobs s ! i) = Handing p j \<and> j < length (m_calls (cs_fm s)) \<and> holds_rlock (m_calls (cs_fm s) ! j))"

lemma holds_not_done: "holds_rlock c \<Longrightarrow> \<not> call_done c"
  by (cases c) auto

lemma ending_alive: "ending s \<Longrightarrow> alive s \<and> cs_life s \<noteq> Serving"
  by (auto simp: ending_def alive_def split: life.splits)

lemma someone_helps:
  assumes "cs_reach co tokfile accepted s"
  shows "\<exists>g. helpful g s"
proof (cases "helpful MainRoutine s")
  case False
  show ?thesis
  proof (cases "m_shutdown (cs_fm s) = SLocking")
    case True
    then obtain j where j: "j < length (m_calls (cs_fm s))" "holds_rlock (m_calls (cs_fm s) ! j)"
      using False by (auto simp: list_all_length)
    then obtain i p where "i < length (cs_jobs s)" "jb_stage (cs_jobs s ! i) = Handing p j"
      using served_reach [OF assms] holds_not_done unfolding served_def by blast
    then have "helpful (Request i) s" using j True by auto
    then show ?thesis by blast
  next
    case other: False
    then obtain i where "helpful (Worker i) s" using False by (auto simp: list_all_length)
    then show ?thesis by blast
  qed
qed blast

lemma holder_moves:
  assumes "holds_rlock (m_calls s ! j)" and "0 < length (m_shards s)" "length (m_shards s) < 2 ^ 32"
  shows "\<exists>t. call_step cfg j s t"
proof (cases "m_calls s ! j")
  case (CallLocked item)
  then show ?thesis by (cases "m_closed s") (blast intro: call_step.shut call_step.checked)+
next
  case (CallChecked item)
  obtain i where i: "shardIndex (shardKey (it_owner item)) (int (length (m_shards s))) = Some i"
    using shardIndex_total [of "int (length (m_shards s))"] assms(2,3) by auto
  obtain ok sh where "reserve (body_len item) (cf_QueueBytes cfg) (m_shards s ! i) = (ok, sh)" by fastforce
  then show ?thesis by (cases ok) (auto dest: call_step.reserved [OF CallChecked i] call_step.bytes_full [OF CallChecked i])
next
  case (CallReserved item i)
  obtain ok sh where "try_send (cf_QueueSize cfg) item (m_shards s ! i) = (ok, sh)" by fastforce
  then show ?thesis by (cases ok) (auto dest: call_step.sent [OF CallReserved] call_step.unsent [OF CallReserved])
next
  case (CallUndo item i)
  then show ?thesis by (blast intro: call_step.undone)
qed (use assms(1) in simp_all)

lemma main_moves:
  assumes "ending s" and "helpful MainRoutine s"
  shows "\<exists>t. goes co MainRoutine s t"
proof (cases "cs_life s")
  case ServerStopping
  then show ?thesis using cs_step.server_late [OF ServerStopping, of co]
    by (intro exI [of _ "s\<lparr>cs_life := SinkStopping False\<rparr>"]) (simp add: goes_def alive_def)
next
  case (SinkStopping clean)
  show ?thesis
  proof (cases "m_shutdown (cs_fm s) = SReturned")
    case True
    then show ?thesis using cs_step.exit [OF SinkStopping True, of co]
      by (intro exI [of _ "s\<lparr>cs_life := Gone (if clean then 0 else 1)\<rparr>"]) (simp add: goes_def alive_def SinkStopping)
  next
    case False
    then obtain fm where fm: "shutdown_step (cs_fm s) fm"
      using assms(2) by (cases "m_shutdown (cs_fm s)") (auto intro: shutdown_step.intros)
    have "m_shutdown fm \<noteq> m_shutdown (cs_fm s)" using shutdown_rank_step [OF fm] by auto
    then show ?thesis using cs_step.sink_shutdown [OF SinkStopping fm, of co]
      by (intro exI [of _ "s\<lparr>cs_fm := fm\<rparr>"]) (simp add: goes_def alive_def SinkStopping)
  qed
qed (use assms(1) in \<open>simp_all add: ending_def\<close>)

lemma helper_moves:
  assumes "cs_reach co tokfile accepted s" and "ending s" and "helpful g s"
    and "0 < cf_Shards (co_forward co)" "cf_Shards (co_forward co) < 2 ^ 32"
  shows "\<exists>t. goes co g s t"
proof (cases g)
  case MainRoutine
  then show ?thesis using main_moves [OF assms(2)] assms(3) by blast
next
  case (Worker i)
  then have "m_stopping (cs_fm s)" using lock.reach_holds [OF cs_reach_fm [OF assms(1)]] assms(3) by (auto simp: lock_inv_def)
  moreover have "m_workers (cs_fm s) ! i \<noteq> WExit" "i < length (m_workers (cs_fm s))" using assms(3) Worker by simp_all
  ultimately show ?thesis using worker_progress ending_alive [OF assms(2)] unfolding goes_def Worker by fastforce
next
  case (Request i)
  then obtain p j where j: "i < length (cs_jobs s)" "jb_stage (cs_jobs s ! i) = Handing p j" "j < length (m_calls (cs_fm s))"
    "holds_rlock (m_calls (cs_fm s) ! j)" using assms(3) by auto
  have "length (m_shards (cs_fm s)) = nat (cf_Shards (co_forward co))"
    using shape.reach_holds [OF cs_reach_fm [OF assms(1)]] by (simp add: shape_inv_def)
  then have "0 < length (m_shards (cs_fm s))" "length (m_shards (cs_fm s)) < 2 ^ 32" using assms(4,5) by (simp_all add: nat_less_iff)
  then obtain fm where "call_step (co_forward co) j (cs_fm s) fm" using holder_moves [OF j(4)] by blast
  then have "job_step co i s (s\<lparr>cs_fm := fm\<rparr>)" by (rule job_step.enqueueing [OF j(2,3)])
  then show ?thesis using j(1) ending_alive [OF assms(2)] by (auto simp: goes_def Request)
qed

text \<open>A helper that moves takes the rank down.\<close>

lemma helper_done:
  assumes "cs_reach co tokfile accepted s" and "ending s" and "helpful g s" and "goes co g s t"
  shows "end_rank t < end_rank s"
proof (cases g)
  case MainRoutine
  then show ?thesis using life_rank_step end_rank_less(1) assms(4) unfolding goes_def by fastforce
next
  case (Worker i)
  then obtain fm where w: "worker_step (co_forward co) (co_parse_time co) i (cs_fm s) fm" "t = s\<lparr>cs_fm := fm\<rparr>"
    "i < length (m_workers (cs_fm s))" "m_shutdown (cs_fm s) \<in> {SWaiting, SCancelled}" using assms(3,4) by (auto simp: goes_def)
  note fm = cs_reach_fm [OF assms(1)]
  have "m_stopping (cs_fm s)" using lock.reach_holds [OF fm] w(4) by (auto simp: lock_inv_def)
  then have "work_left fm < work_left (cs_fm s)" using work_left_less [OF shape.reach_holds [OF fm] _ w(3,1)] by simp
  then show ?thesis using w(2,4) worker_shutdown [OF w(1)] by (intro end_rank_less(2)) (auto simp: wait_rank_def)
next
  case (Request i)
  then obtain p j where j: "jb_stage (cs_jobs s ! i) = Handing p j" "holds_rlock (m_calls (cs_fm s) ! j)" "m_shutdown (cs_fm s) = SLocking"
    and step: "job_step co i s t" using assms(3,4) by (auto simp: goes_def)
  from step obtain fm where fm: "t = s\<lparr>cs_fm := fm\<rparr>" "j < length (m_calls (cs_fm s))" "call_step (co_forward co) j (cs_fm s) fm"
    by (cases rule: job_step.cases) (use j in auto)
  have "m_shutdown fm = SLocking" using job_step_life [OF step] fm(1) j(3) by simp
  then show ?thesis using lock_work_call [OF fm(3,2) j(3)] fm(1) j(3) by (intro end_rank_less(2)) (simp_all add: wait_rank_def)
qed

text \<open>A helper stays able to move as long as the rank stays.\<close>

lemma lock_work_none: "lock_work s = 0 \<longleftrightarrow> list_all (\<lambda>c. \<not> holds_rlock c) (m_calls s)"
proof -
  have "call_rank c = 0 \<longleftrightarrow> \<not> holds_rlock c" for c by (cases c) simp_all
  then show ?thesis by (simp add: lock_work_def list_all_iff)
qed

lemma worker_other: "worker_step cfg pt i s t \<Longrightarrow> k \<noteq> i \<Longrightarrow> m_workers t ! k = m_workers s ! k"
  by (erule worker_stepE) (simp_all add: put_defs)

lemma job_step_workers: "job_step co i s t \<Longrightarrow> m_workers (cs_fm t) = m_workers (cs_fm s)"
  by (erule job_step.cases) (simp_all add: put_job_def call_workers)

lemma cs_step_workers:
  assumes "cs_step co s t" and "m_workers (cs_fm t) \<noteq> m_workers (cs_fm s)"
  obtains i where "goes co (Worker i) s t" "\<And>k. k \<noteq> i \<Longrightarrow> m_workers (cs_fm t) ! k = m_workers (cs_fm s) ! k"
    "length (m_workers (cs_fm t)) = length (m_workers (cs_fm s))"
  using assms(1)
proof (cases rule: cs_step.cases)
  case (job i)
  then show ?thesis using assms(2) job_step_workers by metis
next
  case (worker i fm)
  then have "goes co (Worker i) s t" by (auto simp: goes_def alive_iff)
  then show ?thesis using that worker(1) worker_other [OF worker(4)] worker_count [OF worker(4)] by simp
qed (use assms(2) in \<open>simp_all add: shutdown_frame\<close>)

lemma worker_helper_stays:
  assumes "helpful (Worker i) s" and "cs_step co s t" and "\<not> goes co (Worker i) s t" and "m_shutdown (cs_fm t) = m_shutdown (cs_fm s)"
  shows "helpful (Worker i) t"
proof (cases "m_workers (cs_fm t) = m_workers (cs_fm s)")
  case False
  then obtain k where "goes co (Worker k) s t" "\<And>l. l \<noteq> k \<Longrightarrow> m_workers (cs_fm t) ! l = m_workers (cs_fm s) ! l"
    "length (m_workers (cs_fm t)) = length (m_workers (cs_fm s))" using cs_step_workers [OF assms(2)] by metis
  then show ?thesis using assms by (cases "k = i") auto
qed (use assms in simp)

lemma main_helper_stays:
  assumes "helpful MainRoutine s" and "cs_step co s t" and "m_shutdown (cs_fm t) = m_shutdown (cs_fm s)"
  shows "helpful MainRoutine t"
proof -
  have "list_all (\<lambda>c. \<not> holds_rlock c) (m_calls (cs_fm t))" if "m_shutdown (cs_fm s) = SLocking"
    using lock_work_step [OF assms(2) that] assms(1) that by (simp flip: lock_work_none)
  moreover have "m_workers (cs_fm t) = m_workers (cs_fm s)" if "list_all (\<lambda>w. w = WExit) (m_workers (cs_fm s))"
  proof (rule ccontr)
    assume "m_workers (cs_fm t) \<noteq> m_workers (cs_fm s)"
    then obtain i where "goes co (Worker i) s t" using cs_step_workers [OF assms(2)] by metis
    then have "i < length (m_workers (cs_fm s))" "\<exists>fm. worker_step (co_forward co) (co_parse_time co) i (cs_fm s) fm"
      by (auto simp: goes_def)
    moreover from this have "m_workers (cs_fm s) ! i = WExit" using that by (simp add: list_all_length)
    ultimately show False by (auto elim: worker_stepE)
  qed
  ultimately show ?thesis using assms(1,3) by auto
qed

lemma request_helper_stays:
  assumes "cs_reach co tokfile accepted s" and "ending s" and "helpful (Request i) s" and "cs_step co s t"
    and "\<not> goes co (Request i) s t" and "m_shutdown (cs_fm t) = m_shutdown (cs_fm s)"
  shows "helpful (Request i) t"
proof -
  obtain p j where j: "i < length (cs_jobs s)" "jb_stage (cs_jobs s ! i) = Handing p j" "j < length (m_calls (cs_fm s))"
    "holds_rlock (m_calls (cs_fm s) ! j)" using assms(3) by auto
  have "i < length (cs_jobs t) \<and> cs_jobs t ! i = cs_jobs s ! i \<and> j < length (m_calls (cs_fm t)) \<and> m_calls (cs_fm t) ! j = m_calls (cs_fm s) ! j"
    using assms(4)
  proof (cases rule: cs_step.cases)
    case (job k)
    have k: "k \<noteq> i" using assms(5) job ending_alive [OF assms(2)] by (auto simp: goes_def)
    from job(3) show ?thesis
    proof (cases rule: job_step.cases)
      case (enqueueing q l fm)
      have "l \<noteq> j" using ownedD(2) [OF call_owner_reach [OF assms(1)] j(1,2), of k q] job(2) enqueueing(2) k by blast
      then show ?thesis using enqueueing(1) j call_step_calls [OF enqueueing(4)] by auto
    qed (use j k in \<open>auto simp: put_job_def nth_append\<close>)
  qed (use j in \<open>auto simp: nth_append worker_calls shutdown_frame\<close>)
  then show ?thesis using assms(3,6) j by auto
qed

lemma helper_stays:
  assumes "cs_reach co tokfile accepted s" and "ending s" and "helpful g s" and "cs_step co s t"
    and "\<not> goes co g s t" and "\<not> end_rank t < end_rank s"
  shows "helpful g t"
proof -
  have same: "m_shutdown (cs_fm t) = m_shutdown (cs_fm s)"
    using life_rank_step [OF assms(4)] end_rank_less(1) assms(6) ending_alive [OF assms(2)] by blast
  show ?thesis
    using main_helper_stays [OF _ assms(4) same] worker_helper_stays [OF _ assms(4) _ same] request_helper_stays [OF assms(1,2) _ assms(4) _ same]
      assms(3,5) by (cases g) blast+
qed

text \<open>The end that the steps lead to.\<close>

lemma ending_step:
  assumes "ending s" and "cs_step co s t"
  shows "ending t \<or> gone_in_order t"
  using assms(2)
proof (cases rule: cs_step.cases)
  case (job i)
  then show ?thesis using assms(1) job_step_life [OF job(3)] by (simp add: ending_def)
qed (use assms(1) in \<open>auto simp: ending_def gone_in_order_def\<close>)

section \<open>A concrete fair run\<close>

text \<open>The run of \<open>Collector_Run\<close> that ends, and then stays where it is.\<close>

definition ended_run :: "nat \<Rightarrow> (string, unit, int) csys" where
  "ended_run n = cs_after (take n ended_choices)"

lemma cs_run_append:
  "cs_run co (xs @ ys) s = (case cs_run co xs s of None \<Rightarrow> None | Some t \<Rightarrow> cs_run co ys t)"
  by (induction xs arbitrary: s) (simp_all split: option.split)

lemma prefix_runs:
  "cs_run small_collector (take n ended_choices) (cs_start small_collector (Some small_file) [''tok1'']) = Some (ended_run n)"
  using cs_run_append [of small_collector "take n ended_choices" "drop n ended_choices" "cs_start small_collector (Some small_file) [''tok1'']"]
    ended_facts(1) by (auto simp: ended_run_def cs_after_def split: option.splits)

lemma ended_run_step: "ended_run (Suc n) = ended_run n \<or> cs_step small_collector (ended_run n) (ended_run (Suc n))"
proof (cases "n < length ended_choices")
  case True
  have "cs_run small_collector [ended_choices ! n] (ended_run n) = Some (ended_run (Suc n))"
    using prefix_runs [of "Suc n"] prefix_runs [of n] by (simp add: take_Suc_conv_app_nth [OF True] cs_run_append)
  then have "cs_exec small_collector (ended_choices ! n) (ended_run n) = Some (ended_run (Suc n))" by (simp split: option.splits)
  then show ?thesis using cs_exec_step by blast
qed (simp add: ended_run_def)

lemma ended_run_fair: "fair_run small_collector (Some small_file) [''tok1''] ended_run"
proof -
  have "ended_run 0 = cs_start small_collector (Some small_file) [''tok1'']" using prefix_runs [of 0] by simp
  then have "cs_reach small_collector (Some small_file) [''tok1''] (ended_run 0)" by (simp add: cs_reach.start)
  moreover have "\<not> goes small_collector g (ended_run (n + length ended_choices)) t" for g n t
    using ended_facts(2) by (simp add: goes_def alive_def ended_run_def)
  then have "weakly_fair (goes small_collector) ended_run" unfolding weakly_fair_def by (meson le_add1)
  ultimately show ?thesis using ended_run_step by (simp add: fair_run_def is_run_def)
qed

lemma ended_run_stopping: "cs_life (ended_run 17) = ServerStopping"
  unfolding ended_run_def by code_simp

section \<open>Properties\<close>

text \<open>
  C16: the program ends. Once a signal made it shut down, every weakly fair run comes to the point where \<^verbatim>\<open>main\<close> has left
  with exit code 0 or 1, the sink's \<^verbatim>\<open>Shutdown\<close> has returned and no payload is held, whatever the other goroutines do
  and however many requests still arrive. Fairness asks of a worker in \<^verbatim>\<open>deliver\<close> that it returns, as \<open>deliver_ends\<close> shows
  it does when the clock moves.
\<close>

theorem program_ends:
  assumes "fair_run co tokfile accepted \<sigma>" and "cs_life (\<sigma> n) = ServerStopping"
    and "0 < cf_Shards (co_forward co)" "cf_Shards (co_forward co) < 2 ^ 32"
  shows "\<exists>m \<ge> n. cs_life (\<sigma> m) \<in> {Gone 0, Gone 1} \<and> m_shutdown (cs_fm (\<sigma> m)) = SReturned \<and> held_items (cs_fm (\<sigma> m)) = 0"
proof -
  have run: "is_run (cs_reach co tokfile accepted) (cs_step co) \<sigma>" "weakly_fair (goes co) \<sigma>" "ending (\<sigma> n)"
    using assms(1,2) by (simp_all add: fair_run_def ending_def)
  have "\<exists>m \<ge> n. cs_reach co tokfile accepted (\<sigma> m) \<and> gone_in_order (\<sigma> m)"
  proof (rule collector.leads_to [where P = ending and rank = end_rank and helpful = helpful, OF run])
    fix s t assume "cs_reach co tokfile accepted s" "ending s" "cs_step co s t"
    then show "gone_in_order t \<or> ending t \<and> end_rank t \<le> end_rank s"
      using ending_step end_rank_step ending_alive by blast
  next
    fix g s t assume "cs_reach co tokfile accepted s" "ending s" "helpful g s" "cs_step co s t" "\<not> goes co g s t"
    then show "gone_in_order t \<or> end_rank t < end_rank s \<or> helpful g t" using helper_stays by blast
  qed (rule someone_helps helper_moves [OF _ _ _ assms(3,4)] helper_done; assumption)+
  then obtain m where m: "m \<ge> n" "cs_reach co tokfile accepted (\<sigma> m)" "gone_in_order (\<sigma> m)" by blast
  then show ?thesis using returned_holds_nothing [OF cs_reach_fm [OF m(2)]] by (auto simp: gone_in_order_def)
qed

theorem program_ends_witness:
  "\<exists>m \<ge> 17. cs_life (ended_run m) \<in> {Gone 0, Gone 1} \<and> held_items (cs_fm (ended_run m)) = 0"
proof -
  have "cf_Shards (co_forward small_collector) = 1" by (simp add: small_collector_def small_config_def)
  then show ?thesis using program_ends [OF ended_run_fair ended_run_stopping] by auto
qed

end
