(* ===== verification/Collector_Progress.thy ===== *)
theory Collector_Progress
  imports Collector_Ends
begin

text \<open>
  Every payload the sink took comes to an end: in every weakly fair run of the collector it is delivered or dropped at
  some time, unless the program is gone without having shut the sink down. The shard's worker takes the items before
  it one after another.
\<close>

section \<open>An item that was sent stays where it is\<close>

lemma call_item_stays:
  assumes "call_step cfg j s t" and "k < length (m_sent s ! i)"
  shows "k < length (m_sent t ! i) \<and> m_sent t ! i ! k = m_sent s ! i ! k"
proof -
  have "\<exists>later. m_sent t ! i = m_sent s ! i @ later"
    using assms(1)
  proof (cases rule: call_step.cases)
    case (sent item l sh)
    then show ?thesis by (cases "l < length (m_sent s)"; cases "i = l") (simp_all add: put_defs list_update_beyond)
  qed (simp_all add: put_defs)
  then show ?thesis using assms(2) by (auto simp: nth_append)
qed

lemma item_stays:
  assumes "cs_step co s t" and "k < length (m_sent (cs_fm s) ! i)"
  shows "k < length (m_sent (cs_fm t) ! i) \<and> m_sent (cs_fm t) ! i ! k = m_sent (cs_fm s) ! i ! k"
  using assms(1)
proof (cases rule: cs_step.cases)
  case (job j)
  from job(3) show ?thesis
    by (cases rule: job_step.cases) (use assms(2) in \<open>auto simp: put_job_def dest: call_item_stays\<close>)
qed (use assms(2) in \<open>simp_all add: worker_sent shutdown_frame\<close>)

section \<open>The worker gets to it\<close>

text \<open>How far a worker is from the end of the item it has next, and how many ends are left before item number \<open>k\<close>.\<close>

fun turn_rank :: "worker \<Rightarrow> nat" where
  "turn_rank (WRelease item d) = 4"
| "turn_rank WTop = 3"
| "turn_rank WSelect = 2"
| "turn_rank WDrain = 1"
| "turn_rank _ = 0"

definition item_rank :: "nat \<Rightarrow> nat \<Rightarrow> fm \<Rightarrow> nat \<times> nat" where
  "item_rank i k s = (Suc k - length (m_ended s ! i), turn_rank (m_workers s ! i))"

lemma item_rank_less:
  assumes "fifo_inv cfg s" and "i < nat (cf_Shards cfg)" and "k < length (m_sent s ! i)" "\<not> k < length (m_ended s ! i)"
    and "worker_step cfg pt i s t"
  shows "item_rank i k t < item_rank i k s"
proof -
  have sent: "m_sent s ! i = m_ended s ! i @ in_hand (m_workers s ! i) @ sh_queue (m_shards s ! i)" and shape: "shape_inv cfg s"
    using assms(1,2) by (simp_all add: fifo_inv_def)
  have len: "i < length (m_workers s)" "i < length (m_ended s)" using assms(2) shape_lengths [OF shape] by simp_all
  from assms(5) show ?thesis
    by (cases rule: worker_step.cases)
      (use sent len assms(3,4) in \<open>auto simp: item_rank_def put_defs less_prod_def less_eq_prod_def\<close>)
qed

lemma item_rank_other: "worker_step cfg pt l s t \<Longrightarrow> i \<noteq> l \<Longrightarrow> item_rank i k t = item_rank i k s"
  by (erule worker_stepE) (simp_all add: item_rank_def put_defs)

lemma call_ended: "call_step cfg j s t \<Longrightarrow> m_ended t = m_ended s"
  by (erule call_stepE) (simp_all add: put_defs)

text \<open>A step of the collector is a step of that worker, or leaves the rank as it is.\<close>

lemma item_rank_step:
  assumes "cs_step co s t"
  shows "goes co (Worker i) s t \<or> item_rank i k (cs_fm t) = item_rank i k (cs_fm s)"
  using assms
proof (cases rule: cs_step.cases)
  case (job j)
  from job(3) show ?thesis
    by (cases rule: job_step.cases) (auto simp: put_job_def item_rank_def call_ended call_workers)
next
  case (worker l fm)
  then show ?thesis using item_rank_other [OF worker(4), of i k] by (cases "i = l") (auto simp: goes_def alive_iff)
qed (simp_all add: item_rank_def shutdown_frame)

text \<open>The worker of a shard with an item that has not ended can move.\<close>

lemma pending_moves:
  fixes s :: fm
  assumes "fm_reach cfg pt s" and "i < nat (cf_Shards cfg)" and "k < length (m_sent s ! i)" "\<not> k < length (m_ended s ! i)"
  shows "\<exists>t. worker_step cfg pt i s t"
proof -
  have sent: "m_sent s ! i = m_ended s ! i @ in_hand (m_workers s ! i) @ sh_queue (m_shards s ! i)"
    using fifo.reach_holds [OF assms(1)] assms(2) by (simp add: fifo_inv_def)
  have left: "m_workers s ! i = WExit \<longrightarrow> sh_queue (m_shards s ! i) = []"
    using exit.reach_holds [OF assms(1)] assms(2) by (simp add: exit_inv_def)
  show ?thesis
  proof (cases "m_stopping s")
    case True
    have "m_workers s ! i \<noteq> WExit" using sent left assms(3,4) by auto
    then show ?thesis using worker_progress True by blast
  next
    case False
    show ?thesis
    proof (cases "m_workers s ! i = WTop \<or> m_workers s ! i = WSelect")
      case True
      have "m_workers s ! i = WSelect \<Longrightarrow> sh_queue (m_shards s ! i) \<noteq> []" using sent assms(3,4) by auto
      then show ?thesis using True False by (metis neq_Nil_conv worker_step.top_go worker_step.take_item)
    next
      case other: False
      have "m_workers s ! i \<noteq> WExit" using sent left assms(3,4) by auto
      then show ?thesis using worker_busy [of s i cfg pt] other by blast
    qed
  qed
qed

section \<open>Properties\<close>

text \<open>Item number \<open>k\<close> of shard \<open>i\<close> is the given one and has ended.\<close>

definition item_ended :: "nat \<Rightarrow> nat \<Rightarrow> queuedItem \<Rightarrow> fm \<Rightarrow> bool" where
  "item_ended i k item s \<longleftrightarrow> k < length (m_ended s ! i) \<and> m_ended s ! i ! k = item"

lemma ended_is_sent:
  assumes "fm_reach cfg pt s" and "i < nat (cf_Shards cfg)" and "m_sent s ! i ! k = item" and "k < length (m_ended s ! i)"
  shows "item_ended i k item s"
  using fifo.reach_holds [OF assms(1)] assms(2-4) by (simp add: fifo_inv_def item_ended_def nth_append)

lemma shut_down_ended:
  assumes "fm_reach cfg pt s" and "m_shutdown s = SReturned" and "i < nat (cf_Shards cfg)"
    and "k < length (m_sent s ! i)" "m_sent s ! i ! k = item"
  shows "item_ended i k item s"
proof (rule ended_is_sent [OF assms(1,3,5)])
  show "k < length (m_ended s ! i)"
    using fifo.reach_holds [OF assms(1)] workers_gone [OF assms(1,2)] assms(3,4) by (auto simp: fifo_inv_def)
qed

text \<open>
  C15: every payload the sink took comes to an end. In every weakly fair run, an item on a shard's queue is at some time
  delivered or dropped by the shard's worker, as the same item at the same place in the shard's order, unless the
  program is gone without its sink having been shut down, as it is when the server fails by itself. Requests, other
  shards, token rotation and a shutdown that starts meanwhile cannot hold it up for ever.
\<close>

theorem items_end:
  assumes "fair_run co tokfile accepted \<sigma>" and "i < nat (cf_Shards (co_forward co))" and "k < length (m_sent (cs_fm (\<sigma> n)) ! i)"
  shows "\<exists>m \<ge> n. (k < length (m_ended (cs_fm (\<sigma> m)) ! i) \<and> m_ended (cs_fm (\<sigma> m)) ! i ! k = m_sent (cs_fm (\<sigma> n)) ! i ! k) \<or>
    (\<exists>code. cs_life (\<sigma> m) = Gone code) \<and> m_shutdown (cs_fm (\<sigma> m)) \<noteq> SReturned"
proof -
  define item where "item = m_sent (cs_fm (\<sigma> n)) ! i ! k"
  let ?P = "\<lambda>s. k < length (m_sent (cs_fm s) ! i) \<and> m_sent (cs_fm s) ! i ! k = item"
  let ?Q = "\<lambda>s. item_ended i k item (cs_fm s) \<or> \<not> alive s \<and> k < length (m_sent (cs_fm s) ! i) \<and> m_sent (cs_fm s) ! i ! k = item"
  have run: "is_run (cs_reach co tokfile accepted) (cs_step co) \<sigma>" "weakly_fair (goes co) \<sigma>" "?P (\<sigma> n)"
    using assms(1,3) by (simp_all add: fair_run_def item_def)
  have pending: "\<not> k < length (m_ended (cs_fm s) ! i)" if "cs_reach co tokfile accepted s" "?P s" "\<not> ?Q s" for s
    using ended_is_sent [OF cs_reach_fm [OF that(1)] assms(2)] that(2,3) by blast
  have ready: "\<exists>t. goes co (Worker i) s t" if s: "cs_reach co tokfile accepted s" "?P s" "\<not> ?Q s" for s
  proof -
    note fm = cs_reach_fm [OF s(1)]
    have "i < length (m_workers (cs_fm s))" using shape_lengths [OF shape.reach_holds [OF fm]] assms(2) by simp
    moreover obtain f where "worker_step (co_forward co) (co_parse_time co) i (cs_fm s) f"
      using pending_moves [OF fm assms(2)] s(2) pending [OF s] by blast
    ultimately show ?thesis using s(2,3) by (auto simp: goes_def)
  qed
  have nearer: "item_rank i k (cs_fm t) < item_rank i k (cs_fm s)"
    if s: "cs_reach co tokfile accepted s" "?P s" "\<not> ?Q s" "goes co (Worker i) s t" for s t
  proof -
    obtain f where "worker_step (co_forward co) (co_parse_time co) i (cs_fm s) f" "t = s\<lparr>cs_fm := f\<rparr>"
      using s(4) by (auto simp: goes_def)
    then show ?thesis
      using item_rank_less [OF fifo.reach_holds [OF cs_reach_fm [OF s(1)]] assms(2) _ pending [OF s(1-3)]] s(2) by simp
  qed
  have "\<exists>m \<ge> n. cs_reach co tokfile accepted (\<sigma> m) \<and> ?Q (\<sigma> m)"
  proof (rule collector.leads_to [where P = ?P and rank = "\<lambda>s. item_rank i k (cs_fm s)" and helpful = "\<lambda>g s. g = Worker i", OF run])
    fix s t assume s: "cs_reach co tokfile accepted s" "?P s" "\<not> ?Q s" "cs_step co s t"
    show "?Q t \<or> ?P t \<and> item_rank i k (cs_fm t) \<le> item_rank i k (cs_fm s)"
      using item_stays [OF s(4)] item_rank_step [OF s(4), of i k] nearer [OF s(1-3)] s(2) by (metis less_imp_le order.refl)
  qed (use ready nearer in blast)+
  then obtain m where m: "m \<ge> n" "cs_reach co tokfile accepted (\<sigma> m)" "?Q (\<sigma> m)" by blast
  then have "item_ended i k item (cs_fm (\<sigma> m)) \<or> \<not> alive (\<sigma> m) \<and> m_shutdown (cs_fm (\<sigma> m)) \<noteq> SReturned"
    using shut_down_ended [OF cs_reach_fm [OF m(2)] _ assms(2)] by blast
  then show ?thesis using m(1) unfolding item_ended_def item_def alive_iff by blast
qed

theorem items_end_witness:
  "\<exists>m \<ge> 15. (0 < length (m_ended (cs_fm (ended_run m)) ! 0) \<and> it_body (m_ended (cs_fm (ended_run m)) ! 0 ! 0) = ''bytes'') \<or>
     (\<exists>code. cs_life (ended_run m) = Gone code) \<and> m_shutdown (cs_fm (ended_run m)) \<noteq> SReturned"
proof -
  have one: "0 < nat (cf_Shards (co_forward small_collector))" by (simp add: small_collector_def small_config_def)
  have "map (map it_body) (m_sent (cs_fm (ended_run 15))) = [[''bytes'']]" unfolding ended_run_def by code_simp
  then have "0 < length (m_sent (cs_fm (ended_run 15)) ! 0)" "it_body (m_sent (cs_fm (ended_run 15)) ! 0 ! 0) = ''bytes''"
    by (auto simp: map_eq_Cons_conv)
  then show ?thesis using items_end [OF ended_run_fair one, of 0 15] by metis
qed

end
