(* ===== verification/Collector_Counters.thy ===== *)
theory Collector_Counters
  imports Collector_Run
begin

text \<open>
  The counters of the running collector. Requests are served on their own goroutines and the sink's workers count
  on theirs, all in one registry, so the updates reach it in any order. This theory says what a finished request
  is counted under and shows, by an invariant of the steps of \<open>Collector_Machine\<close>, that the counters of the ingest
  routes hold exactly what the requests were told, whatever the order.
\<close>

section \<open>What is counted at the front\<close>

text \<open>
  The series of the four counters that say how a request ended, without the reason of a refusal: \<open>front es\<close> collects
  them from a trace, each as often as the trace counts it.
\<close>

fun front_of :: "effect \<Rightarrow> (counter_id \<times> string list) multiset" where
  "front_of (Metric c n vs) =
     (if c \<in> {IngestAccepted, AuthRejected, RateLimited} then {#(c, vs)#}
      else if c = IngestRejected then {#(c, take 1 vs)#}
      else {#})"
| "front_of (LogLine l m as) = {#}"

definition front :: "effect list \<Rightarrow> (counter_id \<times> string list) multiset" where
  "front es = sum_list (map front_of es)"

text \<open>A counter update is tidy when the registry takes it, and the front's counters are moved by one at a time.\<close>

fun tidy :: "effect \<Rightarrow> bool" where
  "tidy (Metric c n vs) \<longleftrightarrow>
     effect_ok (Metric c n vs) \<and> (c \<in> {IngestAccepted, IngestRejected, AuthRejected, RateLimited} \<longrightarrow> n = 1)"
| "tidy (LogLine l m as) \<longleftrightarrow> True"

text \<open>What a request was answered, if it is that far; \<open>Some None\<close> is a request whose client went away.\<close>

fun answer_of :: "stage \<Rightarrow> response option option" where
  "answer_of (Replying resp) = Some resp"
| "answer_of (Over resp) = Some resp"
| "answer_of _ = None"

text \<open>The series an answer belongs to. A wrong path or method is counted nowhere.\<close>

definition owes :: "request \<Rightarrow> response option option \<Rightarrow> (counter_id \<times> string list) multiset" where
  "owes r a =
     (case a of
        None \<Rightarrow> {#}
      | Some None \<Rightarrow> {#(IngestRejected, [request_label r])#}
      | Some (Some resp) \<Rightarrow>
          (if resp_status resp = 202 then {#(IngestAccepted, [request_label r])#}
           else if resp_status resp = 401 then {#(AuthRejected, [])#}
           else if resp_status resp = 429 then {#(RateLimited, [])#}
           else if resp_status resp \<in> {404, 405} then {#}
           else {#(IngestRejected, [request_label r])#}))"

definition told :: "int \<Rightarrow> job \<Rightarrow> bool" where
  "told code jb \<longleftrightarrow> map_option (map_option resp_status) (answer_of (jb_stage jb)) = Some (Some code)"

section \<open>Lemmas: traces\<close>

lemma front_simps [simp]:
  "front [] = {#}" "front (e # es) = front_of e + front es" "front (es @ fs) = front es + front fs"
  by (simp_all add: front_def)

lemma front_total:
  "list_all tidy es \<Longrightarrow> c \<in> {IngestAccepted, AuthRejected, RateLimited} \<Longrightarrow> metric_total c vs es = int (count (front es) (c, vs))"
proof (induction es)
  case (Cons e es)
  then show ?case by (cases e) auto
qed simp

lemma front_ingest:
  "list_all tidy es \<Longrightarrow> ingest_events es = size {#k \<in># front es. fst k \<in> {IngestAccepted, IngestRejected}#}"
proof (induction es)
  case (Cons e es)
  then show ?case by (cases e) auto
qed simp

lemma tidy_ok: "list_all tidy es \<Longrightarrow> effects_ok es"
proof (induction es)
  case (Cons e es)
  then show ?case by (cases e) auto
qed simp

text \<open>Neither depends on the order of the updates.\<close>

lemma any_order:
  assumes "mset es = mset fs"
  shows "list_all tidy es = list_all tidy fs" and "front es = front fs"
proof -
  show "list_all tidy es = list_all tidy fs" using mset_eq_setD [OF assms] by (simp add: list_all_iff)
  show "front es = front fs" unfolding front_def by (metis assms mset_map sum_mset_sum_list)
qed

section \<open>Lemmas: what the parts count\<close>

text \<open>What happens away from the front: no update of its counters.\<close>

abbreviation behind :: "effect list \<Rightarrow> bool" where
  "behind es \<equiv> list_all tidy es \<and> front es = {#}"

text \<open>A refusal by the handler: one update, under the payload's label.\<close>

abbreviation refusal :: "payload \<Rightarrow> effect list \<Rightarrow> bool" where
  "refusal p es \<equiv> list_all tidy es \<and> front es = {#(IngestRejected, [pk_label (kind_of p)])#}"

lemma readRequest_refusal: "readRequest cd (kind_of p) r = Inl (resp, es) \<Longrightarrow> refusal p es \<and> resp_status resp \<in> {400, 413, 415}"
  by (auto simp: readRequest_def checkContentType_def readBody_def NUL_def split: option.splits sum.splits if_splits)

lemma acquire_refusal:
  "acquire h (kind_of p) ev used = (SlotFailed resp es, u) \<Longrightarrow> refusal p es \<and> (\<forall>rs. resp = Some rs \<longrightarrow> resp_status rs = 503)"
  by (auto simp: acquire_def NUL_def split: option.splits slot_event.splits if_splits)

lemma decoded_refusal: "decoded cd p body = Inl (resp, es) \<Longrightarrow> refusal p es \<and> resp_status resp = 400"
  by (auto simp: decoded_def unmarshal_def reject_def NUL_def split: sum.splits option.splits)

lemma sink_answer_front:
  "sink_answer (kind_of p) e = (resp, es) \<Longrightarrow>
     (if e = None then list_all tidy es \<and> front es = {#(IngestAccepted, [pk_label (kind_of p)])#} \<and> resp_status resp = 202
      else refusal p es \<and> resp_status resp = 503)"
  by (auto simp: sink_answer_def sinkFailed_def NUL_def split: option.splits)

lemma marshalled_behind: "marshalled marshal p msg = Inl es \<Longrightarrow> behind es"
  by (auto simp: marshalled_def Let_def NUL_def split: sum.splits)

lemma stamp_behind:
  "behind (snd (stamp_payload (ns_stamp cfg (proc_label p)) m))" "behind (snd (stamp_payload (env_stamp ecfg (proc_label p)) m))"
  by (cases p; simp add: stamp_payload_def ns_stamp_def env_stamp_def Let_def NUL_def split: option.split)+

lemma redact_behind: "behind (snd (redact cfg p m))"
  by (cases p) (simp_all add: redact_manifest_def redact_baseline_def split_beta Let_def record_redacted_def NUL_def)

lemma processed_behind: "processed cfg p m = (m', es) \<Longrightarrow> behind es"
  by (auto simp: processed_def split_beta Let_def stamp_behind redact_behind)

lemma reload_behind:
  "reload f v c = Some (f', c', es) \<Longrightarrow> NUL \<notin> set (f_label f) \<Longrightarrow> behind es \<and> f_label f' = f_label f"
  by (auto simp: reload_def Let_def split: sum.splits option.splits if_splits)

lemma bearer_front:
  assumes "opt_guard (RequireBearerToken sha) let_through r (g, False) = (resp, es, (g', passed))"
  shows "passed \<and> es = [] \<or> \<not> passed \<and> es = [Inc AuthRejected []] \<and> map_option resp_status resp = Some 401"
  using opt_bearer.passed_or_rejected [OF assms] by (auto simp: let_through_def)

lemmas front_facts = readRequest_refusal acquire_refusal decoded_refusal sink_answer_front marshalled_behind processed_behind
  reload_behind bearer_front

text \<open>The sink counts nothing at the front.\<close>

lemma ended_behind: "ended item es \<Longrightarrow> behind es"
proof -
  have "behind (replicate k (Inc ForwardRetries [PayloadLabel path]))" for k path
    by (induction k) (simp_all add: NUL_def)
  then show "ended item es \<Longrightarrow> behind es"
    by (auto simp: ended_def dropped_def NUL_def NUL_notin_drop_labels)
qed

interpretation sink_behind: fm_invariant cfg pt "\<lambda>s. behind (m_trace s)"
proof
  show "behind (m_trace (fm_init cfg))" by (simp add: fm_init_def Let_def)
  fix s t :: fm assume b: "behind (m_trace s)"
  show "behind (m_trace (s\<lparr>m_calls := m_calls s @ [CallStart item]\<rparr>))" for item using b by simp
  show "behind (m_trace t)" if "j < length (m_calls s)" "call_step cfg j s t" for j
    using that(2) b by (cases rule: call_step.cases) (auto simp: put_defs refused_def NUL_def)
  show "behind (m_trace t)" if "i < length (m_workers s)" "worker_step cfg pt i s t" for i
    using that(2)
  proof (cases rule: worker_step.cases)
    case (delivered item start turns es)
    then have "ended item es" using deliver_loop_ended by (auto simp: deliver_def)
    then show ?thesis using b delivered(1) ended_behind by (simp add: put_defs)
  next
    case (finalled item ex)
    then show ?thesis using b ended_behind [OF final_ended [of item cfg pt "m_ctx_done s" ex]] by (simp add: put_defs)
  qed (use b in \<open>simp_all add: put_defs\<close>)
  show "behind (m_trace t)" if "shutdown_step s t" using that b by (auto elim!: shutdown_stepE)
qed

section \<open>Every answer is counted\<close>

text \<open>A request that is under way stays with the payload its path names.\<close>

fun on_path :: "request \<Rightarrow> stage \<Rightarrow> bool" where
  "on_path r (WaitSlot p body) \<longleftrightarrow> payload_at (req_path r) = Some p"
| "on_path r (Working p body) \<longleftrightarrow> payload_at (req_path r) = Some p"
| "on_path r (Handing p j) \<longleftrightarrow> payload_at (req_path r) = Some p"
| "on_path r _ \<longleftrightarrow> True"

definition owed :: "job \<Rightarrow> (counter_id \<times> string list) multiset" where
  "owed jb = owes (jb_request jb) (answer_of (jb_stage jb))"

definition counted :: "('h, 'q, 'b) csys \<Rightarrow> bool" where
  "counted s \<longleftrightarrow>
     list_all tidy (cs_trace s) \<and> pred_option (\<lambda>f. NUL \<notin> set (f_label f)) (cs_file s) \<and>
     (\<forall>jb \<in> set (cs_jobs s). on_path (jb_request jb) (jb_stage jb)) \<and>
     front (cs_trace s) = sum_list (map owed (cs_jobs s))"

lemma counted_put:
  assumes "counted s" and "i < length (cs_jobs s)" and "on_path (jb_request (cs_jobs s ! i)) st" and "list_all tidy es"
    and "owes (jb_request (cs_jobs s ! i)) (answer_of st) = owed (cs_jobs s ! i) + front es"
  shows "counted (put_job i st es s)"
proof -
  let ?jb = "(cs_jobs s ! i)\<lparr>jb_stage := st\<rparr>"
  have "owed ?jb = owed (cs_jobs s ! i) + front es" using assms(5) by (simp add: owed_def)
  then have "sum_list (map owed ((cs_jobs s)[i := ?jb])) = sum_list (map owed (cs_jobs s)) + front es"
    using sum_list_map_update [OF assms(2), of owed ?jb] by (simp add: ac_simps)
  moreover have "on_path (jb_request jb) (jb_stage jb)" if "jb \<in> set ((cs_jobs s)[i := ?jb])" for jb
    using that assms(1,3) by (auto simp: counted_def dest!: set_update_subset_insert [THEN subsetD])
  ultimately show ?thesis using assms(1,4) by (simp add: counted_def put_job_def)
qed

lemma counted_frame [simp]:
  "counted (s\<lparr>cs_limiter := l\<rparr>) = counted s" "counted (s\<lparr>cs_clock := now\<rparr>) = counted s" "counted (s\<lparr>cs_used := n\<rparr>) = counted s"
  "counted (s\<lparr>cs_life := li\<rparr>) = counted s" "counted (s\<lparr>cs_fm := fm\<rparr>) = counted s"
  by (simp_all add: counted_def)

lemma label_of_path: "payload_at (req_path r) = Some p \<Longrightarrow> request_label r = pk_label (kind_of p)"
  by (simp add: request_label_def)

lemma open_request_front:
  "open_request cd r = Inl (resp, es) \<Longrightarrow> list_all tidy es \<and> owes r (Some (Some resp)) = front es"
  by (auto simp: open_request_def NotFound_def MethodNotAllowed_def owes_def label_of_path dest!: readRequest_refusal
      split: option.splits sum.splits if_splits)

lemma open_request_path: "open_request cd r = Inr (p, body) \<Longrightarrow> payload_at (req_path r) = Some p"
  by (auto simp: open_request_def split: option.splits sum.splits if_splits)

lemma counted_job:
  assumes "counted s" and "i < length (cs_jobs s)" and "job_step co i s t"
  shows "counted t"
proof -
  let ?r = "jb_request (cs_jobs s ! i)"
  note put = counted_put [OF assms(1,2)]
  have path: "on_path ?r (jb_stage (cs_jobs s ! i))" using assms(1,2) by (simp add: counted_def)
  from assms(3) show ?thesis
  proof (cases rule: job_step.cases)
    case (over_limit el now l retryAfter l')
    then show ?thesis by (auto intro!: put simp: owed_def owes_def too_many_def)
  next
    case (gate resp es tokens passed)
    show ?thesis unfolding gate(1) using bearer_front [OF gate(3)] gate(2)
      by (intro put) (auto simp: owed_def owes_def)
  next
    case (turned_away resp es)
    then show ?thesis using open_request_front [OF turned_away(3)] by (auto intro!: put simp: owed_def owes_def)
  next
    case (opened p body)
    then show ?thesis using open_request_path [OF opened(3)] by (auto intro!: put simp: owed_def owes_def)
  next
    case (slot_failed p body ev resp es used)
    then show ?thesis using acquire_refusal [OF slot_failed(3)] path
      by (auto intro!: put simp: owed_def owes_def label_of_path split: option.split)
  next
    case (undecodable p body resp es)
    then show ?thesis using decoded_refusal [OF undecodable(3)] path by (auto intro!: put simp: owed_def owes_def label_of_path)
  next
    case (unmarshallable p body msg msg' es es' resp es'')
    then show ?thesis
      using sink_answer_front [OF unmarshallable(6)] processed_behind [OF unmarshallable(4)] marshalled_behind [OF unmarshallable(5)] path
      by (auto intro!: put simp: owed_def owes_def label_of_path)
  next
    case (handed p body msg msg' es item)
    have "counted (put_job i (Handing p (length (m_calls (cs_fm s)))) es s)"
      using handed processed_behind [OF handed(4)] path by (auto intro!: put simp: owed_def owes_def)
    then show ?thesis unfolding handed(1) by simp
  next
    case (returned p j item e resp es)
    then show ?thesis using sink_answer_front [OF returned(4)] path
      by (auto intro!: put simp: owed_def owes_def label_of_path split: if_splits)
  qed (use assms(1) path in \<open>auto intro!: put simp: owed_def owes_def\<close>)
qed

lemma counted_step:
  assumes "counted s" and "cs_step co s t"
  shows "counted t"
  using assms(2)
proof (cases rule: cs_step.cases)
  case (arrive r)
  then show ?thesis using assms(1) by (simp add: counted_def owed_def owes_def)
next
  case (job i)
  then show ?thesis using counted_job [OF assms(1)] by blast
next
  case (rotate f tokens v f' tokens' es)
  then show ?thesis using assms(1) reload_behind [OF rotate(5)] by (simp add: counted_def)
qed (use assms(1) in simp_all)

lemma counted_reach:
  assumes "pred_option (\<lambda>f. NUL \<notin> set (f_label f)) tokfile" and "cs_reach co tokfile accepted s"
  shows "counted s"
  using assms(2)
proof (induction rule: cs_reach.induct)
  case start
  then show ?case using assms(1) by (simp add: cs_start_def counted_def)
next
  case (step s t)
  then show ?case using counted_step by blast
qed

text \<open>The name under which \<^verbatim>\<open>resolveAuthTokens\<close> counts the failed reads of its file is such a label.\<close>

lemma resolveAuthTokens_label:
  assumes "resolveAuthTokens sha getenv fs = Some (Inr (tokens, tokfile))"
  shows "pred_option (\<lambda>f. NUL \<notin> set (f_label f)) tokfile"
  using assms
  by (auto simp: resolveAuthTokens_def Let_def Open_def authFileLabel_def NUL_def split: if_splits sum.splits option.splits bool.splits)


section \<open>Counting requests\<close>

lemma label_inject: "pk_label (kind_of p) = pk_label (kind_of q) \<longleftrightarrow> p = q" "pk_label (kind_of p) \<noteq> []"
  by (cases p; cases q; simp add: deltaBatchKind_def manifestKind_def staticBaselineKind_def)
    (cases p; simp add: deltaBatchKind_def manifestKind_def staticBaselineKind_def)

lemma request_label_path: "request_label r = pk_label (kind_of p) \<longleftrightarrow> payload_at (req_path r) = Some p"
  using label_inject label_inject(2) [symmetric] by (auto simp: request_label_def split: option.split)

text \<open>A finished request the ingest handler or its sink answered, with an acceptance or a refusal, or whose client went away.\<close>

definition handled :: "job \<Rightarrow> bool" where
  "handled jb \<longleftrightarrow> answer_of (jb_stage jb) \<noteq> None \<and> \<not> told 401 jb \<and> \<not> told 404 jb \<and> \<not> told 405 jb \<and> \<not> told 429 jb"

lemmas owed_defs = owed_def owes_def told_def

lemma owed_accepted:
  "count (owed jb) (IngestAccepted, [pk_label (kind_of p)]) = of_bool (told 202 jb \<and> payload_at (req_path (jb_request jb)) = Some p)"
  by (auto simp: owed_defs request_label_path split: option.split)

lemma owed_refused: "count (owed jb) (AuthRejected, []) = of_bool (told 401 jb)" "count (owed jb) (RateLimited, []) = of_bool (told 429 jb)"
  by (auto simp: owed_defs split: option.split)

lemma owed_handled: "size {#k \<in># owed jb. fst k \<in> {IngestAccepted, IngestRejected}#} = of_bool (handled jb)"
  by (auto simp: owed_defs handled_def split: option.split)

text \<open>Adding up over the requests.\<close>

lemma count_jobs: "(\<And>jb. count (owed jb) k = of_bool (P jb)) \<Longrightarrow> count (sum_list (map owed jobs)) k = length (filter P jobs)"
  by (induction jobs) auto

lemma size_jobs:
  "(\<And>jb. size (filter_mset Q (owed jb)) = of_bool (P jb)) \<Longrightarrow> size (filter_mset Q (sum_list (map owed jobs))) = length (filter P jobs)"
  by (induction jobs) auto

text \<open>The jobs at the end of the concrete run.\<close>

lemma ended_jobs:
  "map (\<lambda>jb. (answer_of (jb_stage jb), payload_at (req_path (jb_request jb)))) (cs_jobs (cs_after ended_choices)) =
     [(Some (Some (write_header 202 [])), Some DeltaBatch), (Some (Some unauthorized), Some DeltaBatch)]"
  by code_simp

section \<open>Properties\<close>

text \<open>
  C5: the counters never lie, however the goroutines interleave. In every reachable state of the running collector, with
  the updates of its requests, its file watch and its workers put into the registry in any order, no update panics
  and the registry stays well formed; the accepted counter of each payload has moved by exactly the requests
  that were answered 202 on its path, the auth counter by the 401 answers, the limiter's by the 429 answers; and
  every finished request that the handler answered is counted exactly once as accepted or rejected.
\<close>

theorem counters_exact:
  assumes "pred_option (\<lambda>f. NUL \<notin> set (f_label f)) tokfile" and "cs_reach co tokfile accepted s"
    and "registry_ok reg" and "mset es = mset (cs_trace s @ m_trace (cs_fm s))"
  shows "\<exists>reg'. run_effects es reg = Inr reg' \<and> registry_ok reg' \<and>
    (\<forall>p. series_count reg' IngestAccepted [pk_label (kind_of p)] =
       wrap64 (series_count reg IngestAccepted [pk_label (kind_of p)] +
         int (length (filter (\<lambda>jb. told 202 jb \<and> payload_at (req_path (jb_request jb)) = Some p) (cs_jobs s))))) \<and>
    series_count reg' AuthRejected [] = wrap64 (series_count reg AuthRejected [] + int (length (filter (told 401) (cs_jobs s)))) \<and>
    series_count reg' RateLimited [] = wrap64 (series_count reg RateLimited [] + int (length (filter (told 429) (cs_jobs s)))) \<and>
    ingest_events es = length (filter handled (cs_jobs s))"
proof -
  have behind: "behind (m_trace (cs_fm s))" by (rule sink_behind.reach_holds [OF cs_reach_fm [OF assms(2)]])
  have tidy: "list_all tidy es" and front: "front es = sum_list (map owed (cs_jobs s))"
    using counted_reach [OF assms(1,2)] behind any_order [OF assms(4)] by (simp_all add: counted_def)
  note total = front_total [OF tidy, unfolded front]
  obtain reg' where reg': "run_effects es reg = Inr reg'" "registry_ok reg'"
    "\<And>i vs. length vs = length (counter_labels i) \<Longrightarrow> list_all (\<lambda>v. NUL \<notin> set v) vs \<Longrightarrow>
       series_count reg' i vs = wrap64 (series_count reg i vs + metric_total i vs es)"
    using run_effects_ok [OF assms(3) tidy_ok [OF tidy]] by blast
  moreover have "series_count reg' IngestAccepted [pk_label (kind_of p)] =
       wrap64 (series_count reg IngestAccepted [pk_label (kind_of p)] +
         int (length (filter (\<lambda>jb. told 202 jb \<and> payload_at (req_path (jb_request jb)) = Some p) (cs_jobs s))))" for p
    by (subst reg'(3)) (simp_all add: counter_labels_def NUL_def total count_jobs [OF owed_accepted])
  moreover have "series_count reg' AuthRejected [] = wrap64 (series_count reg AuthRejected [] + int (length (filter (told 401) (cs_jobs s))))"
    by (subst reg'(3)) (simp_all add: counter_labels_def total count_jobs [OF owed_refused(1)])
  moreover have "series_count reg' RateLimited [] = wrap64 (series_count reg RateLimited [] + int (length (filter (told 429) (cs_jobs s))))"
    by (subst reg'(3)) (simp_all add: counter_labels_def total count_jobs [OF owed_refused(2)])
  moreover have "ingest_events es = length (filter handled (cs_jobs s))"
    unfolding front_ingest [OF tidy] front by (rule size_jobs [OF owed_handled])
  ultimately show ?thesis by blast
qed

theorem counters_exact_witness:
  "\<exists>reg'. run_effects (cs_trace (cs_after ended_choices) @ m_trace (cs_fm (cs_after ended_choices))) initial_registry = Inr reg' \<and>
     series_count reg' IngestAccepted [''deltas''] = 1 \<and> series_count reg' AuthRejected [] = 1 \<and> series_count reg' RateLimited [] = 0"
proof -
  let ?s = "cs_after ended_choices"
  have label: "pred_option (\<lambda>f. NUL \<notin> set (f_label f)) (Some small_file)" by (simp add: small_file_def NUL_def)
  obtain j1 j2 where jobs: "cs_jobs ?s = [j1, j2]" "answer_of (jb_stage j1) = Some (Some (write_header 202 []))"
    "answer_of (jb_stage j2) = Some (Some unauthorized)" "payload_at (req_path (jb_request j1)) = Some DeltaBatch"
    using ended_jobs by (auto simp: map_eq_Cons_conv)
  have "length (filter (told 401) (cs_jobs ?s)) = 1" "length (filter (told 429) (cs_jobs ?s)) = 0"
    "length (filter (\<lambda>jb. told 202 jb \<and> payload_at (req_path (jb_request jb)) = Some DeltaBatch) (cs_jobs ?s)) = 1"
    using jobs by (simp_all add: told_def unauthorized_def)
  moreover obtain reg' where "run_effects (cs_trace ?s @ m_trace (cs_fm ?s)) initial_registry = Inr reg'"
    "series_count reg' IngestAccepted [pk_label (kind_of DeltaBatch)] =
       wrap64 (int (length (filter (\<lambda>jb. told 202 jb \<and> payload_at (req_path (jb_request jb)) = Some DeltaBatch) (cs_jobs ?s))))"
    "series_count reg' AuthRejected [] = wrap64 (int (length (filter (told 401) (cs_jobs ?s))))"
    "series_count reg' RateLimited [] = wrap64 (int (length (filter (told 429) (cs_jobs ?s))))"
    using counters_exact [OF label cs_after_reach [OF ended_facts(1)] initial_registry_ok refl] initial_registry_zero by (auto simp del: kind_of.simps)
  ultimately show ?thesis by (intro exI [of _ reg']) (simp add: wrap64_def deltaBatchKind_def)
qed

end
