(* ===== verification/Spec2Isabelle.thy ===== *)
theory Spec2Isabelle
  imports Forward_Spec Serve_Steps Collector_Limits Collector_Progress Collector_Counters
begin

text \<open>
  Verification of the collector (\<^verbatim>\<open>src/cmd\<close>, \<^verbatim>\<open>src/ingest\<close>, \<^verbatim>\<open>src/internal\<close>, \<^verbatim>\<open>src/metrics\<close>).

  \<^bold>\<open>The program.\<close> The collector takes protobuf payloads (delta batches, manifests, static baselines) over HTTP,
  checks and optionally rewrites them, and logs them or forwards them to a backend. A request meets the mux, the rate
  limiter, the bearer check, the ingest handler with its decode slots, the chain of processors (redaction, then
  namespace, then environment) and the sink. The forwarding sink puts an item on the queue of its instance's shard;
  one worker per shard delivers in order with retries, and a shutdown drains the queues. Token files are re-read on a
  timer. Every component counts what it does in a registry of counters.

  \<^bold>\<open>How it is modelled.\<close> An operation is a function from its arguments and its state to its result, the effects it
  causes (log lines and counter updates, in order) and the new state. Errors are values of a sum or option type; a Go
  panic is \<open>None\<close> or \<open>Inl\<close>. Machine integers are \<open>int\<close> with \<open>wrap64\<close> written where Go's \<^verbatim>\<open>int\<close> or
  \<^verbatim>\<open>int64\<close> wraps, and words where the code works on 32 bits (FNV-1a). Goroutines are steps of inductive relations.

  \<^item> \<open>Go_Prelude\<close>, \<open>Go_Values\<close>, \<open>Http\<close>, \<open>Float64\<close>: the standard library the sources use: \<^verbatim>\<open>strings\<close>,
    \<^verbatim>\<open>strconv\<close>, UTF-8 validity, \<^verbatim>\<open>time.ParseDuration\<close>, the slog levels, requests, responses and headers,
    \<^verbatim>\<open>net.SplitHostPort\<close>, and \<^verbatim>\<open>float64\<close> with its rounding to 53 bits. \<open>Http\<close> also states the contract of a
    middleware as the locale \<open>http_guard\<close>: it passes a request on or rejects it with one status and one counter.
  \<^item> \<open>Payload\<close>: decoded messages as \<^verbatim>\<open>protoreflect\<close> presents them, with the getters of the generated code.
  \<^item> \<open>Metrics\<close> (\<^verbatim>\<open>metrics.go\<close>, \<^verbatim>\<open>counters.go\<close>): the registry, \<^verbatim>\<open>Inc\<close>/\<^verbatim>\<open>Add\<close>, \<^verbatim>\<open>Render\<close>. Shown: initialisation
    cannot panic, a trace of updates moves each series by exactly its sum, rendering does not depend on any order,
    and label values survive quoting.
  \<^item> \<open>Ingest\<close> (\<^verbatim>\<open>handler.go\<close>, \<^verbatim>\<open>logsink.go\<close>): validation, reading, decode slots, \<^verbatim>\<open>handle\<close>; the sink interface is
    the locale \<open>sink_contract\<close>, interpreted on \<open>LogSink\<close> and on \<open>ForwardingSink\<close>. Shown: what a 202 means, that
    no invalid payload reaches a sink, and the cap on concurrent decodes over every interleaving (\<open>ingest_step\<close>).
  \<^item> \<open>Processor\<close> (\<^verbatim>\<open>environment.go\<close>, \<^verbatim>\<open>namespace.go\<close>, \<^verbatim>\<open>redaction.go\<close>): sinks around sinks; the locale
    \<open>processor_contract\<close> extends \<open>sink_contract\<close>. Shown: what each rewrites, exactly, and that nothing of a blocked
    literal leaks into payloads, logs or counters.
  \<^item> \<open>Backoff\<close> (\<^verbatim>\<open>backoff.go\<close>): interval growth and jitter in exact \<^verbatim>\<open>float64\<close> arithmetic, the retry budget, the
    \<^verbatim>\<open>Retry-After\<close> header. Shown: the band of the jitter, the budget for every hint, and exactly which hints and dates overflow past it.
  \<^item> \<open>Forward\<close> (\<^verbatim>\<open>forward.go\<close>): configuration, shard key and index, byte accounting, \<^verbatim>\<open>enqueue\<close>, \<^verbatim>\<open>attempt\<close>,
    \<^verbatim>\<open>deliver\<close>, the drain. Shown: injective keys, pinning, exact refusals, termination of \<^verbatim>\<open>deliver\<close>.
  \<^item> \<open>Forward_Machine\<close>: the sink's goroutines (\<open>call_step\<close>, \<open>worker_step\<close>, \<open>shutdown_step\<close>) under its locks. Each
    invariant is an interpretation of the locale \<open>fm_invariant\<close>. Shown: order and conservation of items, the byte and
    queue bounds, nothing sent after closing, a complete drain, and that the drain ends.
  \<^item> \<open>Forward_Spec\<close>: what the sink promises, one first-in first-out queue per shard, and the simulation (locale
    \<open>simulation\<close>) by which the machine implements it. Shown: the refinement, and the order of one instance's payloads.
  \<^item> \<open>Ratelimit\<close>, \<open>Ratelimit_Machine\<close> (\<^verbatim>\<open>limiter.go\<close>): the map, linked list and elements of the LRU cache, client
    keys, the middleware; then concurrent calls and the eviction loop. Shown: refinement of a one-list LRU cache, the
    cap on tracked clients, exact eviction, which header entry decides, and the rounding of \<^verbatim>\<open>Retry-After\<close>.
  \<^item> \<open>Auth\<close> (\<^verbatim>\<open>bearer.go\<close>): the token set as hashes, the constant-time match, the middleware. Shown: exactly the
    accepted tokens pass.
  \<^item> \<open>Tokenfile\<close> (\<^verbatim>\<open>tokenfile.go\<close>): parsing, the bounded read, the watch loop. The locale \<open>token_consumer\<close> states what
    a check and an apply function promise each other.
  \<^item> \<open>Config\<close> (the resolve functions of \<^verbatim>\<open>main.go\<close>): every setting with its errors, and the two interpretations of
    \<open>token_consumer\<close>. Shown: authentication fails closed, token rotation never leaves an open or empty set, the
    forward settings and stamped values are usable.
  \<^item> \<open>Routes\<close> (\<^verbatim>\<open>routes.go\<close>), \<open>Program\<close> and \<open>Collector_Main\<close> (\<^verbatim>\<open>main\<close>), \<open>Healthcheck\<close> (\<^verbatim>\<open>healthcheck.go\<close>): how
    the parts are put together, started, served, probed and ended. Shown: when starting panics (\<^verbatim>\<open>make\<close> of a sink too
    large to address, and nothing else), the order of ending, and that the health check tells the truth.
  \<^item> \<open>Collector_Machine\<close>, \<open>Collector_Run\<close>: the running collector with a backend, as one machine: requests
    (\<open>job_step\<close>), the sink's goroutines, the re-reading of the token file, the limiter's critical sections and its
    eviction loop, and the ending of \<^verbatim>\<open>main\<close> (\<open>cs_step\<close>), interleaved. Shown from end to end: no acknowledged payload is lost without a trace, every item the backend gets
    stems from an authenticated, valid request and was processed, and a revoked token is refused.
  \<^item> \<open>Serve_Steps\<close>: the steps of \<open>Collector_Machine\<close> against the functions of \<open>Routes\<close> and \<open>Forward\<close>. Shown: a request that
    nothing interrupts gets by its steps exactly what the handlers give it as a whole.
  \<^item> \<open>Collector_Limits\<close>: the limiter inside the running collector takes the steps of \<open>Ratelimit_Machine\<close>. Shown: the cap on
    tracked clients holds in every state of the collector.
  \<^item> \<open>Collector_Counters\<close>: what the running collector counts of its answers. Shown: in every interleaving, and in whatever
    order the goroutines' updates reach the registry, the counters of the ingest routes hold what the requests were told.
  \<^item> \<open>Collector_Ends\<close>, \<open>Collector_Progress\<close>: infinite runs of the collector in which every goroutine that can move from
    some time on does move (\<open>weakly_fair\<close>; the locale \<open>fair_system\<close> holds the rule, a rank that some goroutine can
    always take down). Shown: after a signal the program ends, and every payload the sink took is delivered or dropped.
  \<^item> This theory: the properties of a whole request and of a whole start: a 202 means the processed payload is on its
    queue, no token means no effect behind the gate, the counters are exact over a run of requests, a started program is sound.

  \<^bold>\<open>Parameters.\<close> Code that is not in the repository is an argument: the protobuf codec, \<^verbatim>\<open>mime.ParseMediaType\<close>,
  \<^verbatim>\<open>url.Parse\<close>, \<^verbatim>\<open>strconv.Quote\<close> and \<^verbatim>\<open>ParseFloat\<close>, \<^verbatim>\<open>regexp\<close>, \<^verbatim>\<open>http.ParseTime\<close>, SHA-256, \<^verbatim>\<open>rate.Limiter\<close>,
  \<^verbatim>\<open>net/netip\<close>, the HTTP clients, the file system, the clock, the random source, the number of processors and the
  answer to a non-canonical path. What a theorem relies on of them is a hypothesis of it (\<open>collision_free\<close>: no token of
  the request collides with an accepted one), with a witness on a concrete instance.

  \<^bold>\<open>Bounds.\<close> Nothing is cut off by fuel. \<open>deliver_loop\<close> is a partial function with option results and is shown to
  return when the clock moves past the retry budget; every other loop terminates by a measure or by structure. The
  rounding of \<^verbatim>\<open>Retry-After\<close> is shown for delays below \<open>2 ^ 23\<close> seconds, where a delay in seconds is precise enough
  for it; the shard index is shown to be in range for fewer than \<open>2 ^ 32\<close> shards, the width of the hash. The lengths
  \<^verbatim>\<open>make\<close> takes are those of 64-bit Linux, the platform of the image; memory that can be addressed is taken to be there.

  \<^bold>\<open>Not modelled.\<close> The JSON log handler (log lines are effects, not text), \<^verbatim>\<open>net/http\<close>'s accept loop and its use of
  the server's timeouts, the delivery of signals, the transport of the backend client, and the test hook
  \<^verbatim>\<open>beforeSend\<close>. In \<open>Collector_Machine\<close> a request reads its body in one step, and \<^verbatim>\<open>deliver\<close> is one step of its worker,
  with a shutdown seen by any of its turns. A collector without a backend only logs; its interleavings are those of
  \<open>Ingest\<close> with \<open>LogSink\<close>.
\<close>

section \<open>Serving requests one after another\<close>

text \<open>
  A run of the server: each request meets the time, what its wait for a decode slot meets, and the slots in use.
  Its effects are applied to the counters before the next request; a panic of a counter ends the run.
\<close>

fun serve_all ::
  "('q, 'b, 'r) bucket_ops \<Rightarrow> 'a netip \<Rightarrow> (string \<Rightarrow> 'h) \<Rightarrow> codec \<Rightarrow> (request \<Rightarrow> response) \<Rightarrow> 'k routes \<Rightarrow>
   (int \<times> slot_event \<times> nat \<times> request) list \<Rightarrow> ('h, 'q, 'b) server_state \<Rightarrow> registry \<Rightarrow>
   metrics_panic + ((request \<times> response option) list \<times> ('h, 'q, 'b) server_state \<times> registry)" where
  "serve_all ops ip sha cd redirect ro [] st reg = Inr ([], st, reg)"
| "serve_all ops ip sha cd redirect ro ((now, ev, used, r) # rest) st reg =
     (case serve ops ip sha cd redirect ro reg now ev used r st of
        (resp, es, st1) \<Rightarrow>
          (case run_effects es reg of
             Inl p \<Rightarrow> Inl p
           | Inr reg1 \<Rightarrow>
               (case serve_all ops ip sha cd redirect ro rest st1 reg1 of
                  Inl p \<Rightarrow> Inl p
                | Inr (out, st2, reg2) \<Rightarrow> Inr ((r, resp) # out, st2, reg2))))"

definition accepted_answers :: "string \<Rightarrow> (request \<times> response option) list \<Rightarrow> int" where
  "accepted_answers lbl out = int (length (filter (\<lambda>(r, resp). is_accepted resp \<and> lbl = request_label r) out))"

lemma serve_all_ok:
  assumes "sink_contract (ro_sink ro) (ready ro)" and "\<forall>r. resp_status (redirect r) \<noteq> 202" and "NUL \<notin> set lbl"
    and "ready ro (snd (snd st))" and "registry_ok reg"
  shows "\<exists>out st' reg'. serve_all ops ip sha cd redirect ro xs st reg = Inr (out, st', reg') \<and>
    ready ro (snd (snd st')) \<and> registry_ok reg' \<and> length out = length xs \<and>
    series_count reg' IngestAccepted [lbl] = wrap64 (series_count reg IngestAccepted [lbl] + accepted_answers lbl out)"
  using assms(4,5)
proof (induction xs arbitrary: st reg)
  case Nil
  then show ?case by (simp add: accepted_answers_def series_count_in_int64)
next
  case (Cons x xs)
  obtain now ev used r where x: "x = (now, ev, used, r)" by (metis prod_cases4)
  obtain l t s where st: "st = (l, t, s)" by (metis prod_cases3)
  obtain resp es l1 t1 s1 where sv: "serve ops ip sha cd redirect ro reg now ev used r (l, t, s) = (resp, es, (l1, t1, s1))"
    by (metis prod_cases5)
  have step: "ready ro s1" "effects_ok es"
    "metric_total IngestAccepted [lbl] es = (if is_accepted resp \<and> lbl = request_label r then 1 else 0)"
    using serve_ok [OF assms(1) _ _ sv] assms(2) Cons.prems(1) st by auto
  obtain reg1 where r1: "run_effects es reg = Inr reg1" "registry_ok reg1"
    "series_count reg1 IngestAccepted [lbl] = wrap64 (series_count reg IngestAccepted [lbl] + metric_total IngestAccepted [lbl] es)"
    using run_effects_ok [OF Cons.prems(2) step(2)] assms(3) by (auto simp: counter_labels_def)
  obtain out st2 reg2 where ih: "serve_all ops ip sha cd redirect ro xs (l1, t1, s1) reg1 = Inr (out, st2, reg2)"
    "ready ro (snd (snd st2))" "registry_ok reg2" "length out = length xs"
    "series_count reg2 IngestAccepted [lbl] = wrap64 (series_count reg1 IngestAccepted [lbl] + accepted_answers lbl out)"
    using Cons.IH [of "(l1, t1, s1)" reg1] step(1) r1(2) by auto
  have "serve_all ops ip sha cd redirect ro (x # xs) st reg = Inr ((r, resp) # out, st2, reg2)"
    by (simp add: x st sv r1(1) ih(1))
  moreover have "series_count reg2 IngestAccepted [lbl] =
      wrap64 (series_count reg IngestAccepted [lbl] + accepted_answers lbl ((r, resp) # out))"
    by (simp add: ih(5) r1(3) step(3) accepted_answers_def add.assoc)
  ultimately show ?case using ih(2,3,4) by auto
qed

section \<open>A concrete collector\<close>

text \<open>
  A collector that accepts one token, forwards to one backend and has no limiter: the witnesses run on it. Its
  hash is the identity, its codec and its URL parser are those of the components' witnesses.
\<close>

definition demo_route_config :: "(string, unit, int, unit) routeConfig" where
  "demo_route_config =
     \<lparr>rt_AuthTokens = Some (NewTokenSet id [''tok'']), rt_Limiter = None, rt_MaxDecodes = 1, rt_Forward = demo_config,
      rt_Environment = \<lparr>ec_value = ''prod'', ec_action = Insert\<rparr>, rt_Namespace = \<lparr>nc_value = [], nc_action = Insert\<rparr>,
      rt_Redaction = \<lparr>rc_blocked = [], rc_all = True\<rparr>\<rparr>"

definition demo_url :: "string \<Rightarrow> string + url" where
  "demo_url raw = Inr \<lparr>url_scheme = ''https'', url_host = ''b'', url_user = False, url_raw_query = [],
     url_force_query = False, url_fragment = []\<rparr>"

definition demo_marshal :: "pbmsg \<Rightarrow> go_error + string" where
  "demo_marshal m = Inr ''bytes''"

definition demo_redirect :: "request \<Rightarrow> response" where
  "demo_redirect r = write_header 307 []"

definition demo_post :: "string \<Rightarrow> request" where
  "demo_post auth = demo_request\<lparr>req_headers := (''Authorization'', auth) # req_headers demo_request\<rparr>"

lemma demo_routes:
  obtains es ro where "registerRoutes id demo_url demo_marshal () demo_route_config = (es, Some (Inr ro))"
    "ro_forward ro = Some (demo_config, demo_sink)"
    "ro_handler ro = NewHandler [WithMaxConcurrentDecodes 1]"
    "ro_sink ro = snd (add_processors demo_route_config (ForwardingSink demo_config demo_marshal))"
proof -
  have w: "withDefaults demo_config = demo_config"
    by (simp add: demo_config_def withDefaults_def or_default_def Let_def defaultShards_def defaultQueueSize_def
        defaultQueueBytes_def defaultRequestTimeout_def defaultRetryInitialInterval_def defaultRetryMaxInterval_def
        defaultRetryMaxElapsedTime_def)
  have u: "validateURL id demo_url (cf_URL demo_config) = Inr (''https://b'', ''https'')"
    by (simp add: validateURL_def demo_url_def demo_config_fields trim_right_byte_def)
  have n: "NewForwardingSink id demo_url () demo_config = ([], Some (Inr (demo_config, demo_sink)))"
    using u by (simp add: NewForwardingSink_def w make_shards_fits demo_config_fields demo_sink_def flip: demo_config_fields(1))
  show thesis
    by (rule that [of _ "\<lparr>ro_forward = Some (demo_config, demo_sink),
          ro_sink = snd (add_processors demo_route_config (ForwardingSink demo_config demo_marshal)),
          ro_handler = NewHandler [WithMaxConcurrentDecodes 1]\<rparr>"])
      (simp_all add: registerRoutes_def choose_sink_def n demo_config_fields demo_route_config_def split_beta)
qed

lemma demo_post_auth: "header_get ''Authorization'' (demo_post auth) = auth"
  by (simp add: header_get_def header_values_def demo_post_def equal_fold_def)

lemma demo_post_top: "top_route_of (demo_post auth) = TopIngest"
  by (rule payload_at_top [of _ DeltaBatch]) (simp add: demo_post_def demo_request_def payload_at_def)








text \<open>An empty sink takes any small item, and so the posted batch is answered 202.\<close>

lemma demo_enqueue:
  assumes "it_body item = ''bytes''"
  shows "\<exists>s'. enqueue demo_config item demo_sink = (None, [], s')"
proof -
  obtain i where i: "shardIndex (shardKey (it_owner item)) (int (length (fs_shards demo_sink))) = Some i"
    using shardIndex_total [of 8] by (auto simp: demo_sink_def)
  have "i < length (fs_shards demo_sink)" by (rule shardIndex_range [OF i])
  then have sh: "fs_shards demo_sink ! i = \<lparr>sh_queue = [], sh_bytes = 0\<rparr>" by (simp add: demo_sink_def)
  have r: "reserve (body_len item) (cf_QueueBytes demo_config) (fs_shards demo_sink ! i) =
      (True, \<lparr>sh_queue = [], sh_bytes = wrap64 (body_len item)\<rparr>)"
    unfolding sh by (simp add: reserve_def del: sh_queue_reserve)
  have "\<not> fs_closed demo_sink" by (simp add: demo_sink_def)
  then have "enqueue demo_config item demo_sink = (None, [], demo_sink\<lparr>fs_shards := (fs_shards demo_sink)
      [i := \<lparr>sh_queue = [item], sh_bytes = wrap64 (body_len item)\<rparr>]\<rparr>)"
    unfolding enqueue_def i option.case r prod.case by (simp add: try_send_def demo_config_fields del: sh_queue_reserve)
  then show ?thesis by blast
qed

lemma demo_post_read: "readRequest demo_codec (kind_of p) (demo_post auth) = Inr ''batch''"
proof -
  have "\<not> equal_fold ''Authorization'' ''Content-Encoding''" "\<not> equal_fold ''Authorization'' ''Content-Type''" by code_simp+
  then have "header_values ''Content-Encoding'' (demo_post auth) = header_values ''Content-Encoding'' demo_request"
    "header_values ''Content-Type'' (demo_post auth) = header_values ''Content-Type'' demo_request"
    by (simp_all add: header_values_def demo_post_def)
  then have "readRequest demo_codec (kind_of p) (demo_post auth) = readRequest demo_codec (kind_of p) demo_request"
    by (simp add: readRequest_def checkContentType_def header_get_def readBody_def demo_post_def)
  then show ?thesis by (simp only: demo_read)
qed

lemma demo_register:
  assumes "ro_handler ro = NewHandler [WithMaxConcurrentDecodes 1]"
    "ro_sink ro = snd (add_processors demo_route_config (ForwardingSink demo_config demo_marshal))"
  shows "\<exists>es s'. Register demo_codec (ro_handler ro) (ro_sink ro) TakeSlot 0 (demo_post auth) demo_sink =
    (Some (write_header 202 []), es, s')"
proof -
  obtain m es where pr: "processed demo_route_config DeltaBatch demo_batch = (m, es)" by fastforce
  obtain s' where "enqueue demo_config \<lparr>it_owner = instanceOf (GetResource m), it_path = DeltaBatchPath, it_body = ''bytes''\<rparr> demo_sink = (None, [], s')"
    using demo_enqueue by fastforce
  then have acc: "accept_of (ro_sink ro) DeltaBatch demo_batch demo_sink = (None, es, s')"
    unfolding assms(2) chain_accept by (simp add: pr pass_on_def ForwardingSink_def marshalAndEnqueue_def demo_marshal_def)
  have "handle_payload demo_codec (ro_handler ro) (ro_sink ro) DeltaBatch (demo_post auth) TakeSlot 0 demo_sink =
      Some ((Some (write_header 202 []), es @ [Inc IngestAccepted [pk_label (kind_of DeltaBatch)]], s'), 0)"
    using acc unfolding handle_payload_def handle_def demo_post_read assms(1)
    by (simp add: NewHandler_def WithMaxConcurrentDecodes_def acquire_def release_slot_def
        decode_and_accept_def unmarshal_def demo_codec_def demo_valid)
  then show ?thesis by (simp add: Register_def payload_at_def demo_post_def demo_request_def)
qed

section \<open>Lemmas: what a started program has\<close>





section \<open>Properties of the whole program\<close>

text \<open>
  C3: what is acknowledged is handed over. With a backend configured, when a request to the ingest routes is
  answered 202, it was a POST to one of the three payload paths, its body decoded to a payload that passed
  validation, and what the processors made of that payload is, marshalled, the last item on the queue of its
  instance's shard, to be posted under the request's own path; no other shard changed. The one exception is a
  payload that cannot be marshalled: it is dropped, and counted as dropped.
\<close>

theorem ack_means_queued:
  assumes "registerRoutes quote url_parse marshal k cfg = (es0, Some (Inr ro))" and "ro_forward ro = Some (c, s0)"
    and "top_route_of r = TopIngest"
    and "serve ops ip sha cd redirect ro reg now ev used r (l, t, s) = (resp, es, (l', t', s'))"
    and "is_accepted resp"
  shows "\<exists>p msg. payload_at (req_path r) = Some p \<and> req_method r = ''POST'' \<and>
    unmarshal_msg cd (kind_of p) (req_data r) = Inr msg \<and> validator_of p msg = None \<and>
    (let m = fst (processed cfg p msg) in
     case marshal m of
       Inl err \<Rightarrow> s' = s \<and> Inc ForwardDropped [PayloadLabel (req_path r), ''marshal''] \<in> set es
     | Inr body \<Rightarrow>
         (let item = \<lparr>it_owner = instanceOf (GetResource m), it_path = req_path r, it_body = body\<rparr> in
          \<exists>i. shard_for s item = Some i \<and> i < length (fs_shards s) \<and> \<not> fs_closed s \<and>
            sh_queue (fs_shards s' ! i) = sh_queue (fs_shards s ! i) @ [item] \<and>
            (\<forall>j. j \<noteq> i \<longrightarrow> fs_shards s' ! j = fs_shards s ! j)))"
proof -
  have snk: "ro_sink ro = snd (add_processors cfg (ForwardingSink c marshal))"
    using assms(1) by (cases rule: registerRoutes_cases) (use assms(2) in auto)
  have "ingestHandler ops ip sha cd ro now ev used r (l, t, s) = (resp, es, (l', t', s'))"
    using assms(3,4) by (simp add: serve_def)
  then have "Register cd (ro_handler ro) (ro_sink ro) ev used r s = (resp, es, s')"
    by (cases rule: ingestHandler_cases) (use assms(5) in \<open>auto simp: is_accepted_def\<close>)
  from register_accepted [OF this assms(5)] obtain p msg es1 where
    p: "payload_at (req_path r) = Some p" "req_method r = ''POST''" "unmarshal_msg cd (kind_of p) (req_data r) = Inr msg"
      "validator_of p msg = None" and acc: "accept_of (ro_sink ro) p msg s = (None, es1, s')"
    and es: "es = es1 @ [Inc IngestAccepted [pk_label (kind_of p)]]" by blast
  let ?m = "fst (processed cfg p msg)"
  obtain es2 where "accept_of (ForwardingSink c marshal) p ?m s = (None, es2, s')" and es1: "es1 = snd (processed cfg p msg) @ es2"
    using pass_on_split [OF acc [unfolded snk chain_accept]] by blast
  moreover have "(case p of DeltaBatch \<Rightarrow> DeltaBatchPath | Manifest \<Rightarrow> ManifestPath | StaticBaseline \<Rightarrow> StaticBaselinePath) = req_path r"
    using p(1) by (auto simp: payload_at_def split: if_splits)
  ultimately have fwd: "marshalAndEnqueue c marshal ?m (instanceOf (GetResource ?m)) (req_path r) s = (None, es2, s')"
    by (simp add: ForwardingSink_accept)
  show ?thesis
  proof (cases "marshal ?m")
    case (Inl err)
    then show ?thesis using fwd p es es1 by (auto simp: marshalAndEnqueue_def Let_def)
  next
    case (Inr body)
    then show ?thesis using fwd p by (auto simp: marshalAndEnqueue_def Let_def dest!: enqueue_taken)
  qed
qed

theorem ack_means_queued_witness:
  "\<exists>(ro :: unit routes) resp es l' t' s' i. serve demo_bucket demo_netip id demo_codec demo_redirect ro initial_registry 0 TakeSlot 0
       (demo_post ''Bearer tok'') (None, Some (NewTokenSet id [''tok'']), demo_sink) = (resp, es, (l', t', s')) \<and>
     is_accepted resp \<and> map it_body (sh_queue (fs_shards s' ! i)) = [''bytes'']"
proof -
  let ?r = "demo_post ''Bearer tok''"
  obtain es0 ro where ro: "registerRoutes id demo_url demo_marshal () demo_route_config = (es0, Some (Inr ro))"
    "ro_forward ro = Some (demo_config, demo_sink)" "ro_handler ro = NewHandler [WithMaxConcurrentDecodes 1]"
    "ro_sink ro = snd (add_processors demo_route_config (ForwardingSink demo_config demo_marshal))" using demo_routes by metis
  obtain es s' where reg: "Register demo_codec (ro_handler ro) (ro_sink ro) TakeSlot 0 ?r demo_sink = (Some (write_header 202 []), es, s')"
    using demo_register [OF ro(3,4)] by blast
  have "admits id (NewTokenSet id [''tok'']) ?r" unfolding admits_def demo_post_auth by code_simp
  then have sv: "serve demo_bucket demo_netip id demo_codec demo_redirect ro initial_registry 0 TakeSlot 0 ?r
      (None, Some (NewTokenSet id [''tok'']), demo_sink) =
      (Some (write_header 202 []), es, (None, Some (NewTokenSet id [''tok'']), s'))"
    by (simp add: serve_def demo_post_top ingestHandler_def opt_guard_def RequireBearerToken_cases reg)
  have acc: "is_accepted (Some (write_header 202 []))" by (simp add: is_accepted_def)
  obtain i item where "i < length (fs_shards demo_sink)" "sh_queue (fs_shards s' ! i) = sh_queue (fs_shards demo_sink ! i) @ [item]"
    "it_body item = ''bytes''"
    using ack_means_queued [OF ro(1,2) demo_post_top sv acc] by (auto simp: demo_marshal_def Let_def)
  then have "map it_body (sh_queue (fs_shards s' ! i)) = [''bytes'']" by (simp add: demo_sink_def)
  then show ?thesis by (intro exI conjI) (rule sv, rule acc)
qed

text \<open>
  C4: without an accepted token a request changes nothing behind the gate. Whatever it asks for, the sink's state
  and the token set stay as they are, nothing is counted but the refusal itself, and on the ingest routes the
  answer is 401 or, when the limiter came first, 429.
\<close>

theorem no_token_no_sink:
  assumes "collision_free sha accepted r"
    and "\<not> (\<exists>scheme tok. header_get ''Authorization'' r = scheme @ tok \<and> equal_fold scheme ''Bearer '' \<and> tok \<in> set accepted)"
    and "serve ops ip sha cd redirect ro reg now ev used r (l, Some (NewTokenSet sha accepted), s) = (resp, es, (l', t', s'))"
  shows "s' = s \<and> t' = Some (NewTokenSet sha accepted) \<and> set es \<subseteq> {Inc RateLimited [], Inc AuthRejected []} \<and>
    (top_route_of r = TopIngest \<longrightarrow> map_option resp_status resp \<in> {Some 401, Some 429})"
proof (cases "top_route_of r")
  case TopIngest
  have no: "\<not> admits sha (NewTokenSet sha accepted) r" using admits_exact [OF assms(1)] assms(2) by simp
  have "opt_guard (Middleware ops ip now) (opt_guard (RequireBearerToken sha) (Register cd (ro_handler ro) (ro_sink ro) ev used))
      r (l, (Some (NewTokenSet sha accepted), s)) = (resp, es, (l', (t', s')))"
    using assms(3) TopIngest by (simp add: serve_def ingestHandler_def)
  from opt_throttle.passed_or_rejected [OF this] show ?thesis
    using TopIngest by (auto simp: opt_bearer_rejects [OF no])
qed (use assms(3) in \<open>auto simp: serve_def\<close>)

theorem no_token_no_sink_witness:
  "\<exists>ro resp es l'. serve demo_bucket demo_netip id demo_codec demo_redirect ro initial_registry 0 TakeSlot 0
       (demo_post ''Basic tok'') (None, Some (NewTokenSet id [''tok'']), demo_sink) =
     (resp, es, (l', Some (NewTokenSet id [''tok'']), demo_sink)) \<and>
     map_option resp_status resp \<in> {Some 401, Some 429} \<and> ro_forward ro = Some (demo_config, demo_sink)"
proof -
  let ?r = "demo_post ''Basic tok''"
  obtain es0 ro where ro: "registerRoutes id demo_url demo_marshal () demo_route_config = (es0, Some (Inr ro))"
    "ro_forward ro = Some (demo_config, demo_sink)" using demo_routes by metis
  obtain resp es l' t' s' where sv: "serve demo_bucket demo_netip id demo_codec demo_redirect ro initial_registry 0 TakeSlot 0
      ?r (None, Some (NewTokenSet id [''tok'']), demo_sink) = (resp, es, (l', t', s'))" by (metis prod_cases5)
  have no: "bearerToken (header_get ''Authorization'' ?r) = None" unfolding demo_post_auth by code_simp
  then have "\<not> (\<exists>scheme tok. header_get ''Authorization'' ?r = scheme @ tok \<and> equal_fold scheme ''Bearer '' \<and> tok \<in> set [''tok''])"
    using bearerToken_Some unfolding bearerPrefix_def by (metis option.distinct(1))
  moreover have "collision_free id [''tok''] ?r" by (simp add: collision_free_def)
  ultimately show ?thesis using no_token_no_sink [OF _ _ sv] demo_post_top sv ro(2) by blast
qed

text \<open>
  C6: over any run of requests no counter panics, every request is answered in turn, and for each payload the
  accepted counter grows by exactly the number of requests that were told 202 on its path, modulo 2^64. The mux's
  redirects are taken to be answers other than 202.
\<close>

theorem accepted_counter_exact:
  assumes "registerRoutes quote url_parse marshal k cfg = (es0, Some (Inr ro))"
    and "\<not> isDotSegment (trim_space (nc_value (rt_Namespace cfg)))" and "ready ro s"
    and "\<forall>r. resp_status (redirect r) \<noteq> 202" and "registry_ok reg" and "lbl \<in> {''deltas'', ''manifest'', ''static_baseline''}"
  shows "\<exists>out st' reg'. serve_all ops ip sha cd redirect ro xs (l, t, s) reg = Inr (out, st', reg') \<and>
    length out = length xs \<and> ready ro (snd (snd st')) \<and>
    series_count reg' IngestAccepted [lbl] = wrap64 (series_count reg IngestAccepted [lbl] + accepted_answers lbl out)"
proof -
  have "NUL \<notin> set lbl" using assms(6) by (auto simp: NUL_def)
  then show ?thesis using serve_all_ok [OF routes_contract [OF assms(1,2)] assms(4) _ _ assms(5)] assms(3)
    by (metis snd_conv)
qed

theorem accepted_counter_exact_witness:
  "\<exists>ro out st' reg'. serve_all demo_bucket demo_netip id demo_codec demo_redirect ro [(0, TakeSlot, 0, demo_post ''Bearer tok'')]
       (None, Some (NewTokenSet id [''tok'']), demo_sink) initial_registry = Inr (out, st', reg') \<and>
     series_count reg' IngestAccepted [''deltas''] = wrap64 (0 + accepted_answers ''deltas'' out) \<and>
     ro_forward ro = Some (demo_config, demo_sink)"
proof -
  obtain es0 ro where ro: "registerRoutes id demo_url demo_marshal () demo_route_config = (es0, Some (Inr ro))"
    "ro_forward ro = Some (demo_config, demo_sink)" using demo_routes by metis
  have "\<not> isDotSegment (trim_space (nc_value (rt_Namespace demo_route_config)))"
    by (simp add: demo_route_config_def isDotSegment_def)
  moreover have "ready ro demo_sink" by (rule routes_ready [OF ro])
  moreover have "\<forall>r. resp_status (demo_redirect r) \<noteq> 202" by (simp add: demo_redirect_def)
  ultimately show ?thesis
    using accepted_counter_exact [OF ro(1) _ _ _ initial_registry_ok, where lbl = "''deltas''"] ro(2) initial_registry_zero
    by (metis insertI1)
qed



end
